(* ===== verification/Prelude.thy ===== *)
theory Prelude
  imports Main "HOL-Library.Word" "HOL-Library.Char_ord" "HOL-Library.List_Lexorder"
begin

section \<open>Shared vocabulary of the development\<close>

text \<open>
  This theory fixes the vocabulary every component theory uses: Go strings and byte slices as
  lists of bytes, Go's 64-bit integers with their wrap-around, results that carry an error, the
  decimal and hexadecimal renderings of the Go standard library, and the string predicates of
  the \<^verbatim>\<open>strings\<close> package.  The generic lemmas about them are declared so that the
  component proofs need only name their own definitions.
\<close>

named_theorems go_const \<open>constants of the source, unfolded to their literal value\<close>
named_theorems wire \<open>how the records of the source are written as JSON\<close>

type_synonym byte = char
type_synonym bytes = "char list"
type_synonym ('e, 'a) result = "'e + 'a"

abbreviation byte_val :: "byte \<Rightarrow> nat" where
  "byte_val c \<equiv> (of_char c :: nat)"

abbreviation byte_of :: "nat \<Rightarrow> byte" where
  "byte_of n \<equiv> (char_of n :: char)"

subsection \<open>Results and early returns\<close>

definition rbind :: "('e, 'a) result \<Rightarrow> ('a \<Rightarrow> ('e, 'b) result) \<Rightarrow> ('e, 'b) result" where
  "rbind r f = (case r of Inl e \<Rightarrow> Inl e | Inr x \<Rightarrow> f x)"

lemma rbind_simps [simp]:
  "rbind (Inl e) f = Inl e"
  "rbind (Inr x) f = f x"
  by (simp_all add: rbind_def)

lemma rbind_Inr_iff: "rbind r f = Inr y \<longleftrightarrow> (\<exists>x. r = Inr x \<and> f x = Inr y)"
  by (cases r) auto

subsection \<open>Go integers\<close>

text \<open>
  Go's \<^verbatim>\<open>int\<close> and \<^verbatim>\<open>int64\<close> are 64-bit two's complement numbers.  A value is
  an \<^typ>\<open>int\<close>, and every arithmetic operation of the source whose result could leave the
  range is wrapped explicitly.
\<close>

definition wrap64 :: "int \<Rightarrow> int" where
  "wrap64 x = (x + 2 ^ 63) mod 2 ^ 64 - 2 ^ 63"

definition int64_range :: "int \<Rightarrow> bool" where
  "int64_range x \<longleftrightarrow> - (2 ^ 63) \<le> x \<and> x < 2 ^ 63"

lemma wrap64_id: "int64_range x \<Longrightarrow> wrap64 x = x"
  by (simp add: wrap64_def int64_range_def)

lemma wrap64_range: "int64_range (wrap64 x)"
proof -
  have "0 \<le> (x + 2 ^ 63) mod 2 ^ 64" and "(x + 2 ^ 63) mod 2 ^ 64 < 2 ^ 64"
    by simp_all
  then show ?thesis
    by (simp add: wrap64_def int64_range_def)
qed

subsection \<open>Decimal and hexadecimal renderings\<close>

definition digit_char :: "nat \<Rightarrow> byte" where
  "digit_char d = byte_of (48 + d)"

fun dec_nat :: "nat \<Rightarrow> bytes" where
  "dec_nat n = (if n < 10 then [digit_char n] else dec_nat (n div 10) @ [digit_char (n mod 10)])"

declare dec_nat.simps [simp del]

definition dec_int :: "int \<Rightarrow> bytes" where
  "dec_int i = (if i < 0 then CHR ''-'' # dec_nat (nat (- i)) else dec_nat (nat i))"

definition is_digit :: "byte \<Rightarrow> bool" where
  "is_digit c \<longleftrightarrow> 48 \<le> byte_val c \<and> byte_val c \<le> 57"

definition digit_val :: "byte \<Rightarrow> nat" where
  "digit_val c = byte_val c - 48"

definition digits_val :: "bytes \<Rightarrow> nat" where
  "digits_val s = foldl (\<lambda>n c. 10 * n + digit_val c) 0 s"

lemma byte_val_digit_char [simp]: "d < 10 \<Longrightarrow> byte_val (digit_char d) = 48 + d"
  by (simp add: digit_char_def)

lemma is_digit_digit_char [simp]: "d < 10 \<Longrightarrow> is_digit (digit_char d)"
  by (simp add: is_digit_def)

lemma digit_val_digit_char [simp]: "d < 10 \<Longrightarrow> digit_val (digit_char d) = d"
  by (simp add: digit_val_def)

lemma dec_nat_small [simp]: "n < 10 \<Longrightarrow> dec_nat n = [digit_char n]"
  by (subst dec_nat.simps) simp

lemma dec_nat_not_Nil [simp]: "dec_nat n \<noteq> []"
  by (subst dec_nat.simps) simp

lemma dec_nat_digits: "c \<in> set (dec_nat n) \<Longrightarrow> is_digit c"
proof (induction n rule: dec_nat.induct)
  case (1 n)
  show ?case
  proof (cases "n < 10")
    case True
    with 1 show ?thesis by simp
  next
    case False
    with 1 show ?thesis by (subst (asm) (2) dec_nat.simps) auto
  qed
qed

lemma digits_val_append [simp]: "digits_val (s @ [c]) = 10 * digits_val s + digit_val c"
  by (simp add: digits_val_def)

lemma digits_val_dec_nat [simp]: "digits_val (dec_nat n) = n"
proof (induction n rule: dec_nat.induct)
  case (1 n)
  show ?case
  proof (cases "n < 10")
    case True
    then show ?thesis by (simp add: digits_val_def)
  next
    case False
    then have "digits_val (dec_nat n) = 10 * digits_val (dec_nat (n div 10)) + n mod 10"
      by (subst dec_nat.simps) simp
    also have "\<dots> = n" using 1 False by simp
    finally show ?thesis .
  qed
qed

lemma hd_dec_nat_nonzero: "0 < n \<Longrightarrow> hd (dec_nat n) \<noteq> CHR ''0''"
proof (induction n rule: dec_nat.induct)
  case (1 n)
  show ?case
  proof (cases "n < 10")
    case True
    then have "byte_val (digit_char n) \<noteq> byte_val (CHR ''0'')"
      using 1 by simp
    then have "digit_char n \<noteq> CHR ''0''" by metis
    with True show ?thesis by simp
  next
    case False
    then have "hd (dec_nat n) = hd (dec_nat (n div 10))"
      by (subst dec_nat.simps) simp
    with 1 False show ?thesis by simp
  qed
qed

definition hex_digit :: "nat \<Rightarrow> byte" where
  "hex_digit n = (if n < 10 then byte_of (48 + n) else byte_of (87 + n))"

definition hex_encode :: "bytes \<Rightarrow> bytes" where
  "hex_encode s = concat (map (\<lambda>c. [hex_digit (byte_val c div 16), hex_digit (byte_val c mod 16)]) s)"

definition is_lower_hex :: "byte \<Rightarrow> bool" where
  "is_lower_hex c \<longleftrightarrow> is_digit c \<or> (97 \<le> byte_val c \<and> byte_val c \<le> 102)"

lemma is_lower_hex_hex_digit: "n < 16 \<Longrightarrow> is_lower_hex (hex_digit n)"
  by (auto simp: is_lower_hex_def hex_digit_def is_digit_def)

lemma byte_val_less [simp]: "byte_val c < 256"
  by simp

lemma length_hex_encode [simp]: "length (hex_encode s) = 2 * length s"
  by (induction s) (simp_all add: hex_encode_def)

lemma hex_encode_lower: "c \<in> set (hex_encode s) \<Longrightarrow> is_lower_hex c"
proof -
  assume "c \<in> set (hex_encode s)"
  then obtain b where "c = hex_digit (byte_val b div 16) \<or> c = hex_digit (byte_val b mod 16)"
    by (auto simp: hex_encode_def)
  moreover have "byte_val b div 16 < 16"
    using byte_val_less [of b] by (simp add: div_less_iff_less_mult)
  ultimately show ?thesis
    by (auto intro: is_lower_hex_hex_digit)
qed

lemma hex_digit_inj: "m < 16 \<Longrightarrow> n < 16 \<Longrightarrow> hex_digit m = hex_digit n \<Longrightarrow> m = n"
  by (auto simp: hex_digit_def split: if_splits dest: arg_cong [where f = byte_val])

lemma hex_encode_inj: "hex_encode s = hex_encode t \<longleftrightarrow> s = t"
proof (induction s arbitrary: t)
  case Nil
  show ?case by (cases t) (simp_all add: hex_encode_def)
next
  case (Cons c s)
  show ?case
  proof (cases t)
    case Nil
    then show ?thesis by (simp add: hex_encode_def)
  next
    case (Cons e u)
    have div16: "byte_val b div 16 < 16" for b
      using byte_val_less [of b] by (simp add: div_less_iff_less_mult)
    have "c = e" if "hex_digit (byte_val c div 16) = hex_digit (byte_val e div 16)"
      "hex_digit (byte_val c mod 16) = hex_digit (byte_val e mod 16)"
    proof -
      have "byte_val c div 16 = byte_val e div 16" "byte_val c mod 16 = byte_val e mod 16"
        using that hex_digit_inj div16 by simp_all
      then have "byte_val c = byte_val e" by (metis div_mult_mod_eq)
      then show ?thesis by simp
    qed
    with Cons.IH [of u] Cons show ?thesis by (auto simp: hex_encode_def)
  qed
qed

subsection \<open>The \<^verbatim>\<open>strings\<close> package\<close>

definition has_prefix :: "bytes \<Rightarrow> bytes \<Rightarrow> bool" where
  "has_prefix s p \<longleftrightarrow> take (length p) s = p"

definition trim_prefix :: "bytes \<Rightarrow> bytes \<Rightarrow> bytes" where
  "trim_prefix s p = (if has_prefix s p then drop (length p) s else s)"

lemma has_prefix_append [simp]: "has_prefix (p @ s) p"
  by (simp add: has_prefix_def)

lemma trim_prefix_append [simp]: "trim_prefix (p @ s) p = s"
  by (simp add: trim_prefix_def)

subsection \<open>Guards\<close>

text \<open>
  A sequence of guards, each an \<^verbatim>\<open>if\<close> with an early return: the first condition that holds
  gives the error.
\<close>

fun first_error :: "(bool \<times> 'e) list \<Rightarrow> 'e option" where
  "first_error [] = None"
| "first_error ((c, e) # r) = (if c then Some e else first_error r)"

definition guarded :: "'e option \<Rightarrow> ('e, 'a) result \<Rightarrow> ('e, 'a) result" where
  "guarded g r = (case g of Some e \<Rightarrow> Inl e | None \<Rightarrow> r)"

lemma guarded_simps [simp]:
  "guarded (Some e) r = Inl e"
  "guarded None r = r"
  by (simp_all add: guarded_def)

lemma guarded_Inr_iff: "guarded g r = Inr x \<longleftrightarrow> g = None \<and> r = Inr x"
  by (cases g) auto

lemma ex_map_Inr_Cons:
  assumes "f e = Inr w"
  shows "(\<exists>vs. map f (e # es) = map Inr vs \<and> P vs) \<longleftrightarrow> (\<exists>vs. map f es = map Inr vs \<and> P (w # vs))"
proof
  assume "\<exists>vs. map f (e # es) = map Inr vs \<and> P vs"
  then obtain vs where vs: "map f (e # es) = map Inr vs" "P vs" by blast
  with assms obtain us where "vs = w # us" by (cases vs) auto
  with vs show "\<exists>vs. map f es = map Inr vs \<and> P (w # vs)" by auto
next
  assume "\<exists>vs. map f es = map Inr vs \<and> P (w # vs)"
  then obtain vs where "map f es = map Inr vs" "P (w # vs)" by blast
  with assms show "\<exists>vs. map f (e # es) = map Inr vs \<and> P vs"
    by (intro exI [of _ "w # vs"]) simp
qed

end
