(* ===== verification/Go_Text.thy ===== *)
theory Go_Text
  imports Prelude
begin

section \<open>UTF-8, string literals and numbers of Go's JSON codec\<close>

text \<open>
  The lexical level of \<^verbatim>\<open>encoding/json\<close> on bytes: UTF-8 validity and the replacement
  of invalid sequences, the string encoder (with and without HTML escaping) and decoder, and the
  number grammar.  The main results are \<open>unquote_quote_body\<close>, that the string decoder
  inverts the encoder up to the replacement of invalid UTF-8, and \<open>scan_number_stop\<close>, that
  a number is read back in any context that cannot extend it.
\<close>

subsection \<open>UTF-8\<close>

fun in_ranges :: "(nat \<times> nat) list \<Rightarrow> bytes \<Rightarrow> bool" where
  "in_ranges [] s = True"
| "in_ranges (_ # _) [] = False"
| "in_ranges ((l, h) # rs) (c # s) = (l \<le> byte_val c \<and> byte_val c \<le> h \<and> in_ranges rs s)"

text \<open>The admissible continuation bytes after a leading byte, as in \<^verbatim>\<open>unicode/utf8\<close>.\<close>

definition utf8_tail :: "nat \<Rightarrow> (nat \<times> nat) list option" where
  "utf8_tail x =
    (if x < 128 then Some []
     else if 194 \<le> x \<and> x \<le> 223 then Some [(128, 191)]
     else if x = 224 then Some [(160, 191), (128, 191)]
     else if x = 237 then Some [(128, 159), (128, 191)]
     else if 225 \<le> x \<and> x \<le> 239 then Some [(128, 191), (128, 191)]
     else if x = 240 then Some [(144, 191), (128, 191), (128, 191)]
     else if 241 \<le> x \<and> x \<le> 243 then Some [(128, 191), (128, 191), (128, 191)]
     else if x = 244 then Some [(128, 143), (128, 191), (128, 191)]
     else None)"

definition utf8_len :: "bytes \<Rightarrow> nat option" where
  "utf8_len s =
    (case s of
       [] \<Rightarrow> None
     | a # r \<Rightarrow>
         (case utf8_tail (byte_val a) of
            None \<Rightarrow> None
          | Some rs \<Rightarrow> if in_ranges rs r then Some (Suc (length rs)) else None))"

definition replacement :: bytes where
  "replacement = [CHR 0xEF, CHR 0xBF, CHR 0xBD]"

function valid_utf8 :: "bytes \<Rightarrow> bool" where
  "valid_utf8 [] = True"
| "valid_utf8 (c # r) =
    (case utf8_len (c # r) of None \<Rightarrow> False | Some n \<Rightarrow> valid_utf8 (drop (n - 1) r))"
  by pat_completeness auto
termination
  by (relation "measure length") auto

function sanitize :: "bytes \<Rightarrow> bytes" where
  "sanitize [] = []"
| "sanitize (c # r) =
    (case utf8_len (c # r) of
       None \<Rightarrow> replacement @ sanitize r
     | Some n \<Rightarrow> take n (c # r) @ sanitize (drop (n - 1) r))"
  by pat_completeness auto
termination
  by (relation "measure length") auto

lemma in_ranges_append: "in_ranges rs s \<Longrightarrow> in_ranges rs (s @ t)"
  by (induction rs s rule: in_ranges.induct) auto

lemma in_ranges_take: "in_ranges rs s \<Longrightarrow> in_ranges rs (take (length rs) s)"
  by (induction rs s rule: in_ranges.induct) auto

lemma in_ranges_length: "in_ranges rs s \<Longrightarrow> length rs \<le> length s"
  by (induction rs s rule: in_ranges.induct) auto

lemma utf8_len_ge_1: "utf8_len s = Some n \<Longrightarrow> 1 \<le> n \<and> n \<le> length s"
  by (auto simp: utf8_len_def split: list.splits option.splits if_splits dest: in_ranges_length)

lemma utf8_len_ascii: "byte_val c < 128 \<Longrightarrow> utf8_len (c # r) = Some 1"
  by (simp add: utf8_len_def utf8_tail_def)

lemma utf8_len_append: "utf8_len s = Some n \<Longrightarrow> utf8_len (s @ t) = Some n"
  by (auto simp: utf8_len_def split: list.splits option.splits if_splits dest: in_ranges_append)

lemma utf8_len_take: "utf8_len s = Some n \<Longrightarrow> utf8_len (take n s @ t) = Some n"
  by (auto simp: utf8_len_def in_ranges_append in_ranges_take
      split: list.splits option.splits if_splits)

lemma utf8_len_replacement: "utf8_len (replacement @ t) = Some 3"
  by (simp add: utf8_len_def utf8_tail_def replacement_def)

lemma valid_utf8_seq:
  assumes "utf8_len s = Some n"
  shows "valid_utf8 (take n s @ t) = valid_utf8 t"
proof -
  obtain c r where s: "s = c # r"
    using assms by (cases s) (auto simp: utf8_len_def)
  obtain m where n: "n = Suc m" "m \<le> length r"
    using utf8_len_ge_1 [OF assms] s by (cases n) auto
  have "utf8_len (c # take m r @ t) = Some n"
    using utf8_len_take [OF assms, of t] by (simp add: s n)
  then show ?thesis
    by (simp add: s n)
qed

lemma valid_utf8_sanitize: "valid_utf8 (sanitize s)"
proof (induction s rule: sanitize.induct)
  case (2 c r)
  show ?case
  proof (cases "utf8_len (c # r)")
    case None
    have "valid_utf8 (take 3 replacement @ sanitize r) = valid_utf8 (sanitize r)"
      by (rule valid_utf8_seq) (use utf8_len_replacement [of "[]"] in simp)
    with None 2 show ?thesis by (simp add: replacement_def)
  next
    case (Some n)
    with 2 valid_utf8_seq [OF Some] show ?thesis by simp
  qed
qed simp

lemma sanitize_valid: "valid_utf8 s \<Longrightarrow> sanitize s = s"
proof (induction s rule: sanitize.induct)
  case (2 c r)
  then obtain n where n: "utf8_len (c # r) = Some n" and v: "valid_utf8 (drop (n - 1) r)"
    by (auto split: option.splits)
  from n obtain m where "n = Suc m"
    using utf8_len_ge_1 by (cases n) fastforce+
  with n v 2 show ?case by simp
qed simp

lemma sanitize_idem [simp]: "sanitize (sanitize s) = sanitize s"
  by (rule sanitize_valid) (rule valid_utf8_sanitize)

lemma valid_utf8_ascii: "(\<forall>c \<in> set s. byte_val c < 128) \<Longrightarrow> valid_utf8 s"
  by (induction s) (auto simp: utf8_len_ascii)

lemma sanitize_ascii: "(\<forall>c \<in> set s. byte_val c < 128) \<Longrightarrow> sanitize s = s"
  by (simp add: sanitize_valid valid_utf8_ascii)

text \<open>\<^verbatim>\<open>utf8.EncodeRune\<close>; a surrogate half is written as the replacement character.\<close>

definition encode_rune :: "nat \<Rightarrow> bytes" where
  "encode_rune u =
    (if u < 128 then [byte_of u]
     else if u < 2048 then [byte_of (192 + u div 64), byte_of (128 + u mod 64)]
     else if 55296 \<le> u \<and> u \<le> 57343 then replacement
     else if u < 65536 then
       [byte_of (224 + u div 4096), byte_of (128 + u div 64 mod 64), byte_of (128 + u mod 64)]
     else if u < 1114112 then
       [byte_of (240 + u div 262144), byte_of (128 + u div 4096 mod 64),
        byte_of (128 + u div 64 mod 64), byte_of (128 + u mod 64)]
     else replacement)"

subsection \<open>String literals\<close>

text \<open>
  The encoder escapes quotes, backslashes and control characters; with HTML escaping (the default
  of \<^verbatim>\<open>json.Marshal\<close>) also the characters \<^verbatim>\<open><\<close>, \<^verbatim>\<open>>\<close> and \<^verbatim>\<open>&\<close>.
  Invalid UTF-8 and the two Unicode line separators are always escaped.
\<close>

definition esc_ascii :: "bool \<Rightarrow> byte \<Rightarrow> bytes" where
  "esc_ascii html c =
    (let b = byte_val c in
     if b = 34 \<or> b = 92 then [CHR 0x5C, c]
     else if b = 8 then [CHR 0x5C, CHR ''b'']
     else if b = 12 then [CHR 0x5C, CHR ''f'']
     else if b = 10 then [CHR 0x5C, CHR ''n'']
     else if b = 13 then [CHR 0x5C, CHR ''r'']
     else if b = 9 then [CHR 0x5C, CHR ''t'']
     else if b < 32 \<or> html \<and> (b = 60 \<or> b = 62 \<or> b = 38)
     then [CHR 0x5C, CHR ''u'', CHR ''0'', CHR ''0'', hex_digit (b div 16), hex_digit (b mod 16)]
     else [c])"

definition esc_multi :: "bytes \<Rightarrow> bytes" where
  "esc_multi s =
    (if s = [CHR 0xE2, CHR 0x80, CHR 0xA8] then CHR 0x5C # ''u2028''
     else if s = [CHR 0xE2, CHR 0x80, CHR 0xA9] then CHR 0x5C # ''u2029''
     else s)"

function quote_body :: "bool \<Rightarrow> bytes \<Rightarrow> bytes" where
  "quote_body html [] = []"
| "quote_body html (c # r) =
    (if byte_val c < 128 then esc_ascii html c @ quote_body html r
     else (case utf8_len (c # r) of
             None \<Rightarrow> (CHR 0x5C # ''ufffd'') @ quote_body html r
           | Some n \<Rightarrow> esc_multi (take n (c # r)) @ quote_body html (drop (n - 1) r)))"
  by pat_completeness auto
termination
  by (relation "measure (\<lambda>(h, s). length s)") auto

definition quote :: "bool \<Rightarrow> bytes \<Rightarrow> bytes" where
  "quote html s = CHR 0x22 # quote_body html s @ [CHR 0x22]"

definition hex_val :: "byte \<Rightarrow> nat option" where
  "hex_val c =
    (let b = byte_val c in
     if 48 \<le> b \<and> b \<le> 57 then Some (b - 48)
     else if 97 \<le> b \<and> b \<le> 102 then Some (b - 87)
     else if 65 \<le> b \<and> b \<le> 70 then Some (b - 55)
     else None)"

fun getu4 :: "bytes \<Rightarrow> (nat \<times> bytes) option" where
  "getu4 (a # b # c # d # r) =
    (case (hex_val a, hex_val b, hex_val c, hex_val d) of
       (Some w, Some x, Some y, Some z) \<Rightarrow> Some (((w * 16 + x) * 16 + y) * 16 + z, r)
     | _ \<Rightarrow> None)"
| "getu4 _ = None"

definition is_surrogate :: "nat \<Rightarrow> bool" where
  "is_surrogate u \<longleftrightarrow> 55296 \<le> u \<and> u \<le> 57343"

text \<open>
  The second half of a surrogate pair, when the next escape completes one: the combined code point
  and the input after it.
\<close>

definition surrogate_tail :: "nat \<Rightarrow> bytes \<Rightarrow> (nat \<times> bytes) option" where
  "surrogate_tail u s =
    (if take 2 s = [CHR 0x5C, CHR ''u''] then
       (case getu4 (drop 2 s) of
          None \<Rightarrow> None
        | Some (v, r) \<Rightarrow>
            if u < 56320 \<and> 56320 \<le> v \<and> v \<le> 57343
            then Some ((u - 55296) * 1024 + (v - 56320) + 65536, r) else None)
     else None)"

definition simple_escape :: "byte \<Rightarrow> byte option" where
  "simple_escape e =
    (if e = CHR 0x22 \<or> e = CHR 0x5C \<or> e = CHR ''/'' then Some e
     else if e = CHR ''b'' then Some (CHR 0x08)
     else if e = CHR ''f'' then Some (CHR 0x0C)
     else if e = CHR ''n'' then Some (CHR 0x0A)
     else if e = CHR ''r'' then Some (CHR 0x0D)
     else if e = CHR ''t'' then Some (CHR 0x09)
     else None)"

definition emit :: "bytes \<Rightarrow> (bytes \<times> bytes) option \<Rightarrow> (bytes \<times> bytes) option" where
  "emit p = map_option (\<lambda>(s, r). (p @ s, r))"

lemma getu4_length: "getu4 s = Some (v, r) \<Longrightarrow> length r < length s"
  by (induction s rule: getu4.induct) (auto split: option.splits)

lemma surrogate_tail_length: "surrogate_tail u s = Some (v, r) \<Longrightarrow> length r < length s"
  by (auto simp: surrogate_tail_def split: if_splits option.splits dest!: getu4_length)

text \<open>
  The literal after its opening quote: the decoded string and the input after the closing quote.
\<close>

function unquote :: "bytes \<Rightarrow> (bytes \<times> bytes) option" where
  "unquote [] = None"
| "unquote (c # r) =
    (if byte_val c = 34 then Some ([], r)
     else if byte_val c = 92 then
       (case r of
          [] \<Rightarrow> None
        | e # r1 \<Rightarrow>
            (case simple_escape e of
               Some x \<Rightarrow> emit [x] (unquote r1)
             | None \<Rightarrow>
                 if e = CHR ''u'' then
                   (case getu4 r1 of
                      None \<Rightarrow> None
                    | Some (u, r2) \<Rightarrow>
                        if is_surrogate u then
                          (case surrogate_tail u r2 of
                             Some (w, r3) \<Rightarrow> emit (encode_rune w) (unquote r3)
                           | None \<Rightarrow> emit replacement (unquote r2))
                        else emit (encode_rune u) (unquote r2))
                 else None))
     else if byte_val c < 32 then None
     else if byte_val c < 128 then emit [c] (unquote r)
     else (case utf8_len (c # r) of
             None \<Rightarrow> emit replacement (unquote r)
           | Some n \<Rightarrow> emit (take n (c # r)) (unquote (drop (n - 1) r))))"
  by pat_completeness auto
termination
  by (relation "measure length") (auto dest!: getu4_length surrogate_tail_length)

lemma emit_simps [simp]:
  "emit p None = None"
  "emit p (Some (s, r)) = Some (p @ s, r)"
  by (simp_all add: emit_def)

lemma hex_val_hex_digit: "n < 16 \<Longrightarrow> hex_val (hex_digit n) = Some n"
  by (auto simp: hex_val_def hex_digit_def Let_def)

lemma byte_of_byte_val [simp]: "byte_of (byte_val c) = c"
  by simp

lemma unquote_u00:
  assumes "byte_val c < 128"
  shows "unquote (CHR 0x5C # CHR ''u'' # CHR ''0'' # CHR ''0'' #
           hex_digit (byte_val c div 16) # hex_digit (byte_val c mod 16) # t)
         = emit [c] (unquote t)"
proof -
  have "byte_val c div 16 < 16" using assms by simp
  then have "getu4 (CHR ''0'' # CHR ''0'' # hex_digit (byte_val c div 16) #
      hex_digit (byte_val c mod 16) # t) = Some (byte_val c, t)"
    by (simp add: hex_val_hex_digit) (simp add: hex_val_def)
  with assms show ?thesis
    by (simp add: simple_escape_def is_surrogate_def encode_rune_def)
qed

lemma unquote_esc_ascii:
  assumes "byte_val c < 128"
  shows "unquote (esc_ascii html c @ t) = emit [c] (unquote t)"
proof -
  have eq: "byte_val c = byte_val d \<Longrightarrow> c = d" for d
    by simp
  consider "byte_val c \<in> {34, 92, 8, 12, 10, 13, 9}" | "byte_val c \<notin> {34, 92, 8, 12, 10, 13, 9}"
    by blast
  then show ?thesis
  proof cases
    case 1
    then have "c \<in> {CHR 0x22, CHR 0x5C, CHR 0x08, CHR 0x0C, CHR 0x0A, CHR 0x0D, CHR 0x09}"
      using eq [of "CHR 0x22"] eq [of "CHR 0x5C"] eq [of "CHR 0x08"] eq [of "CHR 0x0C"]
        eq [of "CHR 0x0A"] eq [of "CHR 0x0D"] eq [of "CHR 0x09"] by auto
    then show ?thesis
      by (auto simp: esc_ascii_def simple_escape_def)
  next
    case 2
    show ?thesis
    proof (cases "byte_val c < 32 \<or> html \<and> byte_val c \<in> {60, 62, 38}")
      case True
      with 2 have "esc_ascii html c = [CHR 0x5C, CHR ''u'', CHR ''0'', CHR ''0'',
          hex_digit (byte_val c div 16), hex_digit (byte_val c mod 16)]"
        by (auto simp: esc_ascii_def Let_def)
      then show ?thesis using unquote_u00 [OF assms, of t] by simp
    next
      case False
      with 2 have "esc_ascii html c = [c]"
        by (auto simp: esc_ascii_def Let_def)
      with 2 False assms show ?thesis by simp
    qed
  qed
qed

lemma utf8_len_line_sep:
  "unquote (CHR 0x5C # ''u2028'' @ t) = emit [CHR 0xE2, CHR 0x80, CHR 0xA8] (unquote t)"
  "unquote (CHR 0x5C # ''u2029'' @ t) = emit [CHR 0xE2, CHR 0x80, CHR 0xA9] (unquote t)"
  by (simp_all add: simple_escape_def hex_val_def is_surrogate_def encode_rune_def char_of_def
      bit_simps)

lemma unquote_ufffd: "unquote (CHR 0x5C # ''ufffd'' @ t) = emit replacement (unquote t)"
  by (simp add: simple_escape_def hex_val_def is_surrogate_def encode_rune_def replacement_def
      char_of_def bit_simps)

lemma unquote_multi:
  assumes "utf8_len (c # r) = Some n" and "128 \<le> byte_val c"
  shows "unquote (take n (c # r) @ t) = emit (take n (c # r)) (unquote t)"
proof -
  obtain m where n: "n = Suc m" "m \<le> length r"
    using utf8_len_ge_1 [OF assms(1)] by (cases n) auto
  have "utf8_len (c # take m r @ t) = Some n"
    using utf8_len_take [OF assms(1), of t] by (simp add: n)
  with assms(2) show ?thesis
    by (simp add: n)
qed

lemma unquote_esc_multi:
  assumes "utf8_len (c # r) = Some n" and "128 \<le> byte_val c"
  shows "unquote (esc_multi (take n (c # r)) @ t) = emit (take n (c # r)) (unquote t)"
  using unquote_multi [OF assms] utf8_len_line_sep [of t]
  by (simp add: esc_multi_def del: unquote.simps)

lemma emit_emit [simp]: "emit p (emit q x) = emit (p @ q) x"
  by (cases x) auto

theorem unquote_quote_body:
  "unquote (quote_body html s @ CHR 0x22 # rest) = Some (sanitize s, rest)"
proof (induction html s rule: quote_body.induct)
  case (1 html)
  then show ?case by simp
next
  case (2 html c r)
  consider (ascii) "byte_val c < 128"
    | (bad) "128 \<le> byte_val c" "utf8_len (c # r) = None"
    | (multi) n where "128 \<le> byte_val c" "utf8_len (c # r) = Some n"
    by (cases "utf8_len (c # r)") fastforce+
  then show ?case
  proof cases
    case ascii
    then show ?thesis
      using unquote_esc_ascii [OF ascii, of html "quote_body html r @ CHR 0x22 # rest"]
      by (simp add: 2 utf8_len_ascii del: unquote.simps)
  next
    case bad
    then show ?thesis
      using unquote_ufffd [of "quote_body html r @ CHR 0x22 # rest"] 2 by (simp del: unquote.simps)
  next
    case multi
    then show ?thesis
      using unquote_esc_multi [OF multi(2,1),
          of "quote_body html (drop (n - 1) r) @ CHR 0x22 # rest"] 2
      by (simp del: unquote.simps)
  qed
qed

subsection \<open>Numbers\<close>

text \<open>The number grammar of the scanner: the longest number at the front, and the rest.\<close>

definition scan_int :: "bytes \<Rightarrow> (bytes \<times> bytes) option" where
  "scan_int s =
    (case s of
       [] \<Rightarrow> None
     | c # r \<Rightarrow>
         if c = CHR ''0'' then Some ([c], r)
         else if is_digit c then Some (takeWhile is_digit s, dropWhile is_digit s)
         else None)"

definition scan_frac :: "bytes \<Rightarrow> (bytes \<times> bytes) option" where
  "scan_frac s =
    (case s of
       [] \<Rightarrow> Some ([], [])
     | c # r \<Rightarrow>
         if c = CHR ''.'' then
           (if takeWhile is_digit r = [] then None
            else Some (c # takeWhile is_digit r, dropWhile is_digit r))
         else Some ([], s))"

definition scan_exp_digits :: "bytes \<Rightarrow> bytes \<Rightarrow> (bytes \<times> bytes) option" where
  "scan_exp_digits p s =
    (if takeWhile is_digit s = [] then None
     else Some (p @ takeWhile is_digit s, dropWhile is_digit s))"

definition scan_exp :: "bytes \<Rightarrow> (bytes \<times> bytes) option" where
  "scan_exp s =
    (case s of
       [] \<Rightarrow> Some ([], [])
     | c # r \<Rightarrow>
         if c = CHR ''e'' \<or> c = CHR ''E'' then
           (case r of
              [] \<Rightarrow> None
            | d # q \<Rightarrow>
                if d = CHR ''+'' \<or> d = CHR ''-'' then scan_exp_digits [c, d] q
                else scan_exp_digits [c] r)
         else Some ([], s))"

definition scan_unsigned :: "bytes \<Rightarrow> (bytes \<times> bytes) option" where
  "scan_unsigned s =
    (case scan_int s of
       None \<Rightarrow> None
     | Some (i, s2) \<Rightarrow>
         (case scan_frac s2 of
            None \<Rightarrow> None
          | Some (f, s3) \<Rightarrow>
              (case scan_exp s3 of
                 None \<Rightarrow> None
               | Some (e, s4) \<Rightarrow> Some (i @ f @ e, s4))))"

definition scan_number :: "bytes \<Rightarrow> (bytes \<times> bytes) option" where
  "scan_number s =
    (case s of
       [] \<Rightarrow> None
     | c # r \<Rightarrow>
         if c = CHR ''-'' then map_option (\<lambda>(l, q). (c # l, q)) (scan_unsigned r)
         else scan_unsigned s)"

definition valid_number :: "bytes \<Rightarrow> bool" where
  "valid_number s \<longleftrightarrow> scan_number s = Some (s, [])"

text \<open>A byte that may follow a number inside a document.\<close>

definition number_stop :: "bytes \<Rightarrow> bool" where
  "number_stop t \<longleftrightarrow>
    (case t of [] \<Rightarrow> True
     | c # _ \<Rightarrow> \<not> is_digit c \<and> c \<noteq> CHR ''.'' \<and> c \<noteq> CHR ''e'' \<and> c \<noteq> CHR ''E'')"

lemma takeWhile_digit_stop:
  assumes "number_stop t"
  shows "takeWhile is_digit (s @ t) = takeWhile is_digit s"
    and "dropWhile is_digit (s @ t) = dropWhile is_digit s @ t"
proof -
  have hd: "t = [] \<or> \<not> is_digit (hd t)"
    using assms by (auto simp: number_stop_def split: list.splits)
  show "takeWhile is_digit (s @ t) = takeWhile is_digit s"
    using hd by (induction s) (auto simp: takeWhile_eq_Nil_iff)
  show "dropWhile is_digit (s @ t) = dropWhile is_digit s @ t"
    using hd by (induction s) (auto simp: dropWhile_eq_self_iff)
qed

lemma scan_int_stop:
  "scan_int s = Some (i, r) \<Longrightarrow> number_stop t \<Longrightarrow> scan_int (s @ t) = Some (i, r @ t)"
  using takeWhile_digit_stop [of t s]
  by (cases s) (auto simp: scan_int_def split: if_splits)

lemma scan_frac_stop:
  assumes "scan_frac s = Some (f, r)" and "number_stop t"
  shows "scan_frac (s @ t) = Some (f, r @ t)"
proof (cases s)
  case Nil
  with assms show ?thesis
    by (auto simp: scan_frac_def number_stop_def split: list.splits)
next
  case (Cons c q)
  with assms takeWhile_digit_stop [OF assms(2), of q] show ?thesis
    by (auto simp: scan_frac_def split: if_splits)
qed

lemma scan_exp_digits_stop:
  "scan_exp_digits p s = Some (e, r) \<Longrightarrow> number_stop t \<Longrightarrow> scan_exp_digits p (s @ t) = Some (e, r @ t)"
  using takeWhile_digit_stop [of t s] by (auto simp: scan_exp_digits_def split: if_splits)

lemma scan_exp_stop:
  assumes "scan_exp s = Some (e, r)" and "number_stop t"
  shows "scan_exp (s @ t) = Some (e, r @ t)"
proof (cases s)
  case Nil
  with assms show ?thesis
    by (auto simp: scan_exp_def number_stop_def split: list.splits)
next
  case (Cons c q)
  with assms show ?thesis
    by (auto simp: scan_exp_def split: if_splits list.splits dest: scan_exp_digits_stop)
qed

lemma scan_unsigned_stop:
  assumes "scan_unsigned s = Some (l, r)" and "number_stop t"
  shows "scan_unsigned (s @ t) = Some (l, r @ t)"
proof -
  from assms(1) obtain i s2 f s3 e where
    "scan_int s = Some (i, s2)" "scan_frac s2 = Some (f, s3)" "scan_exp s3 = Some (e, r)"
    and l: "l = i @ f @ e"
    by (auto simp: scan_unsigned_def split: option.splits)
  then have "scan_int (s @ t) = Some (i, s2 @ t)" "scan_frac (s2 @ t) = Some (f, s3 @ t)"
    "scan_exp (s3 @ t) = Some (e, r @ t)"
    using assms(2) by (simp_all add: scan_int_stop scan_frac_stop scan_exp_stop)
  with l show ?thesis by (simp add: scan_unsigned_def)
qed

lemma scan_number_stop:
  "scan_number s = Some (l, r) \<Longrightarrow> number_stop t \<Longrightarrow> scan_number (s @ t) = Some (l, r @ t)"
  by (cases s) (auto simp: scan_number_def scan_unsigned_stop [of "_ # _", simplified]
      dest: scan_unsigned_stop split: if_splits)

lemma valid_number_dec_nat: "valid_number (dec_nat n)"
proof -
  have all: "takeWhile is_digit (dec_nat n) = dec_nat n" "dropWhile is_digit (dec_nat n) = []"
    using dec_nat_digits by (auto simp: takeWhile_eq_all_conv dropWhile_eq_Nil_conv)
  obtain c r where d: "dec_nat n = c # r"
    by (cases "dec_nat n") auto
  have c: "is_digit c"
    using dec_nat_digits [of c n] by (simp add: d)
  then have "c \<noteq> CHR ''-''"
    by (auto simp: is_digit_def)
  moreover have "c = CHR ''0'' \<Longrightarrow> r = []"
    using hd_dec_nat_nonzero [of n] d by (cases "n = 0") (auto simp: digit_char_def char_of_def)
  ultimately have "scan_int (dec_nat n) = Some (dec_nat n, [])"
    using c all by (auto simp: scan_int_def d)
  with \<open>c \<noteq> CHR ''-''\<close> show ?thesis
    by (simp add: valid_number_def scan_number_def scan_unsigned_def scan_frac_def scan_exp_def d)
qed

lemma valid_number_neg: "valid_number s \<Longrightarrow> hd s \<noteq> CHR ''-'' \<Longrightarrow> valid_number (CHR ''-'' # s)"
  by (cases s) (auto simp: valid_number_def scan_number_def)

lemma valid_number_dec_int: "valid_number (dec_int i)"
proof -
  have "hd (dec_nat n) \<noteq> CHR ''-''" for n
    using dec_nat_digits [of "hd (dec_nat n)" n] by (auto simp: is_digit_def)
  then show ?thesis
    by (simp add: dec_int_def valid_number_dec_nat valid_number_neg)
qed

subsection \<open>What the lexer returns is well-formed\<close>

lemma valid_utf8_seq_Nil: "utf8_len s = Some n \<Longrightarrow> valid_utf8 (take n s)"
  using valid_utf8_seq [of s n "[]"] by simp

lemma valid_utf8_append: "valid_utf8 s \<Longrightarrow> valid_utf8 (s @ t) = valid_utf8 t"
proof (induction s rule: valid_utf8.induct)
  case (2 c r)
  then obtain n where n: "utf8_len (c # r) = Some n" and v: "valid_utf8 (drop (n - 1) r)"
    by (auto split: option.splits)
  obtain m where m: "n = Suc m" "m \<le> length r"
    using utf8_len_ge_1 [OF n] by (cases n) auto
  have "utf8_len (c # r @ t) = Some n"
    using utf8_len_append [OF n, of t] by simp
  with 2 n v m show ?case by simp
qed simp

lemma valid_utf8_replacement [simp]: "valid_utf8 (replacement @ t) = valid_utf8 t"
  using valid_utf8_seq [OF utf8_len_replacement [of "[]"], of t] by (simp add: replacement_def)

lemma valid_utf8_two:
  assumes "194 \<le> a" "a \<le> 223" "b < 64"
  shows "valid_utf8 (byte_of a # byte_of (128 + b) # t) = valid_utf8 t"
proof -
  have "utf8_tail a = Some [(128, 191)]" using assms by (simp add: utf8_tail_def)
  with assms show ?thesis by (simp add: utf8_len_def)
qed

lemma valid_utf8_three:
  assumes "224 \<le> a" "a \<le> 239" "b < 64" "c < 64" "a = 224 \<Longrightarrow> 32 \<le> b" "a = 237 \<Longrightarrow> b < 32"
  shows "valid_utf8 (byte_of a # byte_of (128 + b) # byte_of (128 + c) # t) = valid_utf8 t"
proof -
  obtain l h where "utf8_tail a = Some [(l, h), (128, 191)]" "l \<le> 128 + b" "128 + b \<le> h"
    using assms by (cases "a = 224"; cases "a = 237") (auto simp: utf8_tail_def)
  with assms show ?thesis by (simp add: utf8_len_def)
qed

lemma valid_utf8_four:
  assumes "240 \<le> a" "a \<le> 244" "b < 64" "c < 64" "d < 64" "a = 240 \<Longrightarrow> 16 \<le> b" "a = 244 \<Longrightarrow> b < 16"
  shows "valid_utf8 (byte_of a # byte_of (128 + b) # byte_of (128 + c) # byte_of (128 + d) # t)
    = valid_utf8 t"
proof -
  obtain l h where "utf8_tail a = Some [(l, h), (128, 191), (128, 191)]" "l \<le> 128 + b" "128 + b \<le> h"
    using assms by (cases "a = 240"; cases "a = 244") (auto simp: utf8_tail_def)
  with assms show ?thesis by (simp add: utf8_len_def)
qed

lemma valid_utf8_encode_rune [simp]: "valid_utf8 (encode_rune u @ t) = valid_utf8 t"
proof -
  consider "u < 128" | "128 \<le> u" "u < 2048" | "55296 \<le> u" "u \<le> 57343" | "1114112 \<le> u"
    | "2048 \<le> u" "u < 55296" | "57344 \<le> u" "u < 65536" | "65536 \<le> u" "u < 1114112"
    by linarith
  then show ?thesis
  proof cases
    case 1
    then show ?thesis by (simp add: encode_rune_def utf8_len_ascii)
  next
    case 2
    then have "194 \<le> 192 + u div 64" "192 + u div 64 \<le> 223" by auto
    with 2 show ?thesis
      using valid_utf8_two [of "192 + u div 64" "u mod 64" t] by (simp add: encode_rune_def)
  next
    case 5
    have mod: "832 \<le> x \<Longrightarrow> x < 864 \<Longrightarrow> x mod 64 < 32" for x :: nat
      using mod_mult_self2 [of "x - 832" 64 13] by simp
    have "u div 4096 = 13 \<Longrightarrow> 832 \<le> u div 64" "u div 64 < 864"
      using 5 by auto
    with mod [of "u div 64"] have "u div 4096 = 13 \<Longrightarrow> u div 64 mod 64 < 32"
      by blast
    moreover have "u div 4096 \<le> 13" "u div 4096 = 0 \<Longrightarrow> 32 \<le> u div 64 mod 64"
      using 5 by auto
    ultimately show ?thesis
      using 5 valid_utf8_three [of "224 + u div 4096" "u div 64 mod 64" "u mod 64" t]
      by (simp add: encode_rune_def del: valid_utf8.simps)
  next
    case 6
    then have "14 \<le> u div 4096" "u div 4096 < 16" by auto
    with 6 show ?thesis
      using valid_utf8_three [of "224 + u div 4096" "u div 64 mod 64" "u mod 64" t]
      by (simp add: encode_rune_def del: valid_utf8.simps)
  next
    case 7
    have mod: "256 \<le> x \<Longrightarrow> x < 272 \<Longrightarrow> x mod 64 < 16" for x :: nat
      using mod_mult_self2 [of "x - 256" 64 4] by simp
    have "u div 262144 = 4 \<Longrightarrow> 256 \<le> u div 4096" "u div 4096 < 272"
      using 7 by auto
    with mod [of "u div 4096"] have "u div 262144 = 4 \<Longrightarrow> u div 4096 mod 64 < 16"
      by blast
    moreover have "u div 262144 \<le> 4" "u div 262144 = 0 \<Longrightarrow> 16 \<le> u div 4096 mod 64"
      using 7 by auto
    ultimately show ?thesis
      using 7 valid_utf8_four [of "240 + u div 262144" "u div 4096 mod 64" "u div 64 mod 64" "u mod 64" t]
      by (simp add: encode_rune_def del: valid_utf8.simps)
  qed (simp_all add: encode_rune_def)
qed

lemma valid_utf8_ascii_Cons: "byte_val c < 128 \<Longrightarrow> valid_utf8 (c # t) = valid_utf8 t"
  by (simp add: utf8_len_ascii)

lemma emit_Some: "emit p x = Some (t, r) \<longleftrightarrow> (\<exists>t'. x = Some (t', r) \<and> t = p @ t')"
  by (cases x) (auto simp: emit_def)

lemma simple_escape_ascii: "simple_escape e = Some x \<Longrightarrow> byte_val x < 128"
  by (auto simp: simple_escape_def split: if_splits)

lemma unquote_escape_valid:
  assumes u: "unquote (c # s) = Some (t, r)" and c: "byte_val c = 92"
    and IH: "\<And>s' t' r'. length s' < length (c # s) \<Longrightarrow> unquote s' = Some (t', r') \<Longrightarrow> valid_utf8 t'"
  shows "valid_utf8 t"
proof -
  obtain e s1 where s: "s = e # s1"
    using u c by (cases s) auto
  show ?thesis
  proof (cases "simple_escape e")
    case (Some x)
    with u c s obtain t' where "unquote s1 = Some (t', r)" "t = x # t'"
      by (auto simp: emit_Some)
    with Some IH [of s1] show ?thesis
      by (simp add: s valid_utf8_ascii_Cons [OF simple_escape_ascii [OF Some]] del: valid_utf8.simps)
  next
    case None
    with u c s obtain v s2 where g: "getu4 s1 = Some (v, s2)" and e: "e = CHR ''u''"
      by (cases "e = CHR ''u''"; cases "getu4 s1") auto
    have len: "length s2 < length s1"
      using g by (rule getu4_length)
    show ?thesis
    proof (cases "is_surrogate v")
      case False
      with u c s None g e obtain t' where "unquote s2 = Some (t', r)" "t = encode_rune v @ t'"
        by (auto simp: emit_Some)
      with IH [of s2] len show ?thesis by (simp add: s)
    next
      case True
      show ?thesis
      proof (cases "surrogate_tail v s2")
        case None': None
        with True u c s None g e obtain t' where "unquote s2 = Some (t', r)" "t = replacement @ t'"
          by (auto simp: emit_Some)
        with IH [of s2] len show ?thesis by (simp add: s)
      next
        case (Some p)
        obtain w s3 where p: "p = (w, s3)" by fastforce
        with Some True u c s None g e obtain t' where "unquote s3 = Some (t', r)" "t = encode_rune w @ t'"
          by (auto simp: emit_Some)
        with IH [of s3] len surrogate_tail_length [of v s2 w s3] Some p show ?thesis by (simp add: s)
      qed
    qed
  qed
qed

lemma unquote_valid: "unquote s = Some (t, r) \<Longrightarrow> valid_utf8 t"
proof (induction s arbitrary: t r rule: length_induct)
  case (1 s)
  then obtain c q where s: "s = c # q" by (cases s) auto
  consider (esc) "byte_val c = 92" | (stop) "byte_val c = 34"
    | (ascii) "byte_val c \<noteq> 92" "byte_val c \<noteq> 34" "byte_val c < 128" | (multi) "128 \<le> byte_val c"
    by linarith
  then show ?case
  proof cases
    case esc
    with 1 s show ?thesis
      by (intro unquote_escape_valid [of c q t r]) auto
  next
    case stop
    with 1 s show ?thesis by simp
  next
    case ascii
    with 1 s obtain t' where "unquote q = Some (t', r)" "t = c # t'"
      by (auto simp: emit_Some split: if_splits)
    with 1 s ascii show ?thesis
      by (auto simp: valid_utf8_ascii_Cons simp del: valid_utf8.simps)
  next
    case multi
    show ?thesis
    proof (cases "utf8_len (c # q)")
      case None
      with 1 s multi obtain t' where "unquote q = Some (t', r)" "t = replacement @ t'"
        by (auto simp: emit_Some)
      with 1 s show ?thesis by auto
    next
      case (Some n)
      with 1 s multi obtain t' where u: "unquote (drop (n - 1) q) = Some (t', r)" "t = take n (c # q) @ t'"
        by (auto simp: emit_Some)
      then have "valid_utf8 t'"
        using 1 s by (metis length_Cons length_drop diff_le_self le_imp_less_Suc)
      with u(2) show ?thesis
        by (simp only: valid_utf8_seq [OF Some])
    qed
  qed
qed

lemma takeWhile_idem [simp]:
  "takeWhile P (takeWhile P s) = takeWhile P s" "dropWhile P (takeWhile P s) = []"
  by (auto simp: takeWhile_eq_all_conv dropWhile_eq_Nil_conv dest: set_takeWhileD)

text \<open>A scanned number is itself a number of the grammar.\<close>

definition no_digit_hd :: "bytes \<Rightarrow> bool" where
  "no_digit_hd t \<longleftrightarrow> t = [] \<or> \<not> is_digit (hd t)"

lemma takeWhile_no_digit:
  assumes "no_digit_hd t"
  shows "takeWhile is_digit (s @ t) = takeWhile is_digit s"
    and "dropWhile is_digit (s @ t) = dropWhile is_digit s @ t"
  using assms by (induction s) (auto simp: no_digit_hd_def takeWhile_eq_Nil_iff dropWhile_eq_self_iff)

lemma scan_int_again:
  "scan_int s = Some (i, r) \<Longrightarrow> no_digit_hd t \<Longrightarrow> scan_int (i @ t) = Some (i, t)"
  using takeWhile_no_digit [of t i]
  by (auto simp: scan_int_def split: list.splits if_splits)

lemma scan_frac_again:
  "scan_frac s = Some (f, r) \<Longrightarrow> no_digit_hd t \<Longrightarrow> t = [] \<or> hd t \<noteq> CHR ''.'' \<Longrightarrow>
   scan_frac (f @ t) = Some (f, t)"
  by (auto simp: scan_frac_def takeWhile_no_digit split: list.splits if_splits dest: set_takeWhileD)

lemma scan_exp_cases:
  assumes "scan_exp s = Some (e, r)"
  obtains (none) "e = []"
  | (plain) c ds where "e = c # ds" "c = CHR ''e'' \<or> c = CHR ''E''" "ds \<noteq> []" "\<forall>x \<in> set ds. is_digit x"
  | (signed) c g ds where "e = c # g # ds" "c = CHR ''e'' \<or> c = CHR ''E''"
      "g = CHR ''+'' \<or> g = CHR ''-''" "ds \<noteq> []" "\<forall>x \<in> set ds. is_digit x"
proof (cases s)
  case Nil
  with assms none show thesis by (simp add: scan_exp_def)
next
  case (Cons c q)
  show thesis
  proof (cases "c = CHR ''e'' \<or> c = CHR ''E''")
    case False
    with Cons assms none show thesis by (simp add: scan_exp_def)
  next
    case True
    then obtain g q' where q: "q = g # q'"
      using Cons assms by (cases q) (auto simp: scan_exp_def)
    show thesis
    proof (cases "g = CHR ''+'' \<or> g = CHR ''-''")
      case sign: True
      with True assms have "e = c # g # takeWhile is_digit q'" "takeWhile is_digit q' \<noteq> []"
        by (auto simp: scan_exp_def scan_exp_digits_def Cons q split: if_splits)
      with True sign show thesis by (auto intro: signed dest: set_takeWhileD)
    next
      case sign: False
      with True assms have "e = c # takeWhile is_digit q" "takeWhile is_digit q \<noteq> []"
        by (auto simp: scan_exp_def scan_exp_digits_def Cons q split: if_splits)
      with True show thesis by (auto intro: plain dest: set_takeWhileD)
    qed
  qed
qed

lemma scan_exp_again:
  assumes "scan_exp s = Some (e, r)"
  shows "scan_exp e = Some (e, [])"
  using assms
proof (cases rule: scan_exp_cases)
  case none
  then show ?thesis by (simp add: scan_exp_def)
next
  case (plain c ds)
  then obtain d ds' where "ds = d # ds'" "is_digit d" by (cases ds) auto
  moreover have "d \<noteq> CHR ''+'' \<and> d \<noteq> CHR ''-''"
    using calculation(2) by (auto simp: is_digit_def)
  moreover have "takeWhile is_digit ds = ds" "dropWhile is_digit ds = []"
    using plain by (simp_all add: takeWhile_eq_all_conv dropWhile_eq_Nil_conv)
  ultimately show ?thesis
    using plain(1,2) by (auto simp: scan_exp_def scan_exp_digits_def)
next
  case (signed c g ds)
  then have tw: "takeWhile is_digit ds = ds" "dropWhile is_digit ds = []"
    by (simp_all add: takeWhile_eq_all_conv dropWhile_eq_Nil_conv)
  show ?thesis
    using signed(2,3,4) by (auto simp: signed(1) scan_exp_def scan_exp_digits_def tw)
qed

lemma scan_exp_hd:
  assumes "scan_exp s = Some (e, r)"
  shows "e = [] \<or> hd e = CHR ''e'' \<or> hd e = CHR ''E''"
  using assms by (cases rule: scan_exp_cases) auto

lemma scan_frac_hd: "scan_frac s = Some (f, r) \<Longrightarrow> f = [] \<or> hd f = CHR ''.''"
  by (auto simp: scan_frac_def split: list.splits if_splits)

lemma scan_unsigned_again:
  assumes "scan_unsigned s = Some (l, r)"
  shows "scan_unsigned l = Some (l, [])"
proof -
  from assms obtain i s2 f s3 e where
    i: "scan_int s = Some (i, s2)" and f: "scan_frac s2 = Some (f, s3)" and e: "scan_exp s3 = Some (e, r)"
    and l: "l = i @ f @ e"
    by (auto simp: scan_unsigned_def split: option.splits)
  have he: "no_digit_hd e" "e = [] \<or> hd e \<noteq> CHR ''.''"
    using scan_exp_hd [OF e] by (auto simp: no_digit_hd_def is_digit_def)
  have hf: "no_digit_hd (f @ e)"
    using scan_frac_hd [OF f] he by (cases f) (auto simp: no_digit_hd_def is_digit_def)
  show ?thesis
    using scan_int_again [OF i hf] scan_frac_again [OF f he] scan_exp_again [OF e]
    by (simp add: scan_unsigned_def l)
qed

lemma scan_unsigned_hd:
  assumes "scan_unsigned s = Some (l, r)"
  shows "l \<noteq> [] \<and> hd l \<noteq> CHR ''-''"
  using assms by (auto simp: scan_unsigned_def scan_int_def is_digit_def
      split: option.splits list.splits if_splits)

lemma scan_number_valid: "scan_number s = Some (l, r) \<Longrightarrow> valid_number l"
proof -
  assume s: "scan_number s = Some (l, r)"
  then obtain c q where "s = c # q"
    by (cases s) (auto simp: scan_number_def)
  with s show ?thesis
    by (cases l)
       (auto simp: scan_number_def valid_number_def split: if_splits
         dest: scan_unsigned_again scan_unsigned_hd)
qed

end
