(* ===== verification/Go_Json.thy ===== *)
theory Go_Json
  imports Go_Text
begin

section \<open>Go values and the JSON documents of \<^verbatim>\<open>encoding/json\<close>\<close>

text \<open>
  JSON documents as trees, the encoder and the decoder of \<^verbatim>\<open>encoding/json\<close> over them,
  decoding into \<^verbatim>\<open>any\<close> and into a struct, and the dynamic Go values (\<open>goany\<close>) the
  components marshal.  An object is its list of members: the decoder keeps them in source order,
  duplicates included; decoding into \<^verbatim>\<open>any\<close> builds a Go map, here the sorted list of its
  entries, in which the last duplicate wins.  The main result is \<open>decode_encode\<close>: the decoder
  inverts the encoder.
\<close>

subsection \<open>Documents\<close>

datatype json =
    JNull
  | JBool bool
  | JNum bytes
  | JStr bytes
  | JArr "json list"
  | JObj "(bytes \<times> json) list"

fun commas :: "bytes list \<Rightarrow> bytes" where
  "commas [] = []"
| "commas [x] = x"
| "commas (x # y # xs) = x @ CHR '','' # commas (y # xs)"

fun json_encode :: "bool \<Rightarrow> json \<Rightarrow> bytes" where
  "json_encode h JNull = ''null''"
| "json_encode h (JBool b) = (if b then ''true'' else ''false'')"
| "json_encode h (JNum s) = s"
| "json_encode h (JStr s) = quote h s"
| "json_encode h (JArr vs) = CHR ''['' # commas (map (json_encode h) vs) @ '']''"
| "json_encode h (JObj ms) =
     CHR ''{'' # commas (map (\<lambda>(k, v). quote h k @ CHR '':'' # json_encode h v) ms) @ [CHR ''}'']"

definition is_space :: "byte \<Rightarrow> bool" where
  "is_space c \<longleftrightarrow> c = CHR '' '' \<or> c = CHR 0x09 \<or> c = CHR 0x0D \<or> c = CHR 0x0A"

definition skip_ws :: "bytes \<Rightarrow> bytes" where
  "skip_ws s = dropWhile is_space s"

definition max_nesting :: nat where
  "max_nesting = 10000"

text \<open>
  The decoder reads one value and returns the input after it.  \<open>d\<close> is the number of open
  arrays and objects, which the scanner bounds by 10000; the first argument is fuel, and more
  than one unit per input byte is never used.
\<close>

fun parse_value :: "nat \<Rightarrow> nat \<Rightarrow> bytes \<Rightarrow> (json \<times> bytes) option"
  and parse_elems :: "nat \<Rightarrow> nat \<Rightarrow> bytes \<Rightarrow> (json list \<times> bytes) option"
  and parse_members :: "nat \<Rightarrow> nat \<Rightarrow> bytes \<Rightarrow> ((bytes \<times> json) list \<times> bytes) option"
  where
  "parse_value 0 d s = None"
| "parse_value (Suc n) d s =
    (case skip_ws s of
       [] \<Rightarrow> None
     | c # r \<Rightarrow>
         if c = CHR ''{'' then
           (if d \<ge> max_nesting then None
            else (case skip_ws r of
                    [] \<Rightarrow> None
                  | e # q \<Rightarrow>
                      if e = CHR ''}'' then Some (JObj [], q)
                      else map_option (\<lambda>(ms, q). (JObj ms, q)) (parse_members n (Suc d) r)))
         else if c = CHR ''['' then
           (if d \<ge> max_nesting then None
            else (case skip_ws r of
                    [] \<Rightarrow> None
                  | e # q \<Rightarrow>
                      if e = CHR '']'' then Some (JArr [], q)
                      else map_option (\<lambda>(vs, q). (JArr vs, q)) (parse_elems n (Suc d) r)))
         else if c = CHR 0x22 then map_option (\<lambda>(t, q). (JStr t, q)) (unquote r)
         else if has_prefix (c # r) ''true'' then Some (JBool True, drop 4 (c # r))
         else if has_prefix (c # r) ''false'' then Some (JBool False, drop 5 (c # r))
         else if has_prefix (c # r) ''null'' then Some (JNull, drop 4 (c # r))
         else map_option (\<lambda>(l, q). (JNum l, q)) (scan_number (c # r)))"
| "parse_elems 0 d s = None"
| "parse_elems (Suc n) d s =
    (case parse_value n d s of
       None \<Rightarrow> None
     | Some (v, r) \<Rightarrow>
         (case skip_ws r of
            [] \<Rightarrow> None
          | c # q \<Rightarrow>
              if c = CHR '','' then
                map_option (\<lambda>(vs, q'). (v # vs, q')) (parse_elems n d q)
              else if c = CHR '']'' then Some ([v], q)
              else None))"
| "parse_members 0 d s = None"
| "parse_members (Suc n) d s =
    (case skip_ws s of
       [] \<Rightarrow> None
     | c # r \<Rightarrow>
         if c \<noteq> CHR 0x22 then None
         else (case unquote r of
                 None \<Rightarrow> None
               | Some (k, r1) \<Rightarrow>
                   (case skip_ws r1 of
                      [] \<Rightarrow> None
                    | e # r2 \<Rightarrow>
                        if e \<noteq> CHR '':'' then None
                        else (case parse_value n d r2 of
                                None \<Rightarrow> None
                              | Some (v, r3) \<Rightarrow>
                                  (case skip_ws r3 of
                                     [] \<Rightarrow> None
                                   | f # q \<Rightarrow>
                                       if f = CHR '','' then
                                         map_option (\<lambda>(ms, q'). ((k, v) # ms, q'))
                                           (parse_members n d q)
                                       else if f = CHR ''}'' then Some ([(k, v)], q)
                                       else None)))))"

definition json_decode :: "bytes \<Rightarrow> (json \<times> bytes) option" where
  "json_decode s = parse_value (Suc (length s)) 0 s"

text \<open>A second read of the decoder finds nothing but white space (\<^verbatim>\<open>io.EOF\<close>).\<close>

definition at_eof :: "bytes \<Rightarrow> bool" where
  "at_eof s \<longleftrightarrow> skip_ws s = []"

subsection \<open>The decoder inverts the encoder\<close>

fun json_depth :: "json \<Rightarrow> nat" where
  "json_depth (JArr vs) = Suc (foldr max (map json_depth vs) 0)"
| "json_depth (JObj ms) = Suc (foldr max (map (\<lambda>(k, v). json_depth v) ms) 0)"
| "json_depth _ = 0"

fun wf_numbers :: "json \<Rightarrow> bool" where
  "wf_numbers (JNum s) = valid_number s"
| "wf_numbers (JArr vs) = (\<forall>v \<in> set vs. wf_numbers v)"
| "wf_numbers (JObj ms) = (\<forall>(k, v) \<in> set ms. wf_numbers v)"
| "wf_numbers _ = True"

fun san :: "json \<Rightarrow> json" where
  "san (JStr s) = JStr (sanitize s)"
| "san (JArr vs) = JArr (map san vs)"
| "san (JObj ms) = JObj (map (\<lambda>(k, v). (sanitize k, san v)) ms)"
| "san j = j"

lemma skip_ws_Cons [simp]: "\<not> is_space c \<Longrightarrow> skip_ws (c # r) = c # r"
  by (simp add: skip_ws_def)

lemma skip_ws_Nil [simp]: "skip_ws [] = []"
  by (simp add: skip_ws_def)

lemma punct_not_space [simp]:
  "\<not> is_space (CHR ''{'')" "\<not> is_space (CHR ''}'')" "\<not> is_space (CHR ''['')"
  "\<not> is_space (CHR '']'')" "\<not> is_space (CHR 0x22)" "\<not> is_space (CHR '':'')"
  "\<not> is_space (CHR '','')" "\<not> is_space (CHR ''t'')" "\<not> is_space (CHR ''f'')"
  "\<not> is_space (CHR ''n'')" "\<not> is_space (CHR ''-'')"
  by (simp_all add: is_space_def)

lemma unquote_quote: "unquote (tl (quote h s) @ rest) = Some (sanitize s, rest)"
  using unquote_quote_body [of h s rest] by (simp add: quote_def del: unquote.simps)

lemma valid_number_head:
  assumes "valid_number s"
  obtains c r where "s = c # r" "is_digit c \<or> c = CHR ''-''"
proof -
  obtain c r where s: "s = c # r"
    using assms by (cases s) (auto simp: valid_number_def scan_number_def)
  have "is_digit c \<or> c = CHR ''-''"
    using assms by (auto simp: s valid_number_def scan_number_def scan_unsigned_def scan_int_def
        is_digit_def split: if_splits option.splits)
  with s that show thesis by blast
qed

lemma number_head_not_punct:
  assumes "is_digit c \<or> c = CHR ''-''"
  shows "\<not> is_space c" "c \<noteq> CHR ''{''" "c \<noteq> CHR ''[''" "c \<noteq> CHR 0x22" "c \<noteq> CHR ''t''"
    "c \<noteq> CHR ''f''" "c \<noteq> CHR ''n''" "c \<noteq> CHR '']''" "c \<noteq> CHR ''}''"
  using assms by (auto simp: is_digit_def is_space_def)

lemma encode_head:
  assumes "wf_numbers j"
  obtains c r where "json_encode h j = c # r" "\<not> is_space c" "c \<noteq> CHR '']''" "c \<noteq> CHR ''}''"
proof (cases j)
  case (JNum s)
  with assms valid_number_head [of s] number_head_not_punct that show thesis
    by (metis json_encode.simps(3) wf_numbers.simps(1))
next
  case (JBool b)
  with that show thesis by (cases b) auto
qed (use that in \<open>auto simp: quote_def split: if_splits\<close>)

lemma parse_number:
  assumes "valid_number s" and "number_stop t"
  shows "parse_value (Suc n) d (s @ t) = Some (JNum s, t)"
proof -
  obtain c r where s: "s = c # r" and c: "is_digit c \<or> c = CHR ''-''"
    using assms(1) by (rule valid_number_head)
  have "scan_number (c # r @ t) = Some (s, t)"
    using assms scan_number_stop [of s s "[]" t] by (simp add: valid_number_def s)
  then show ?thesis
    using number_head_not_punct [OF c] by (simp add: s has_prefix_def)
qed

lemma number_stop_punct [simp]:
  "number_stop []" "number_stop (CHR '','' # t)" "number_stop (CHR '']'' # t)"
  "number_stop (CHR ''}'' # t)"
  by (simp_all add: number_stop_def is_digit_def)

text \<open>What the induction hypothesis says of one value, and what it gives for lists of values.\<close>

definition reads_back :: "bool \<Rightarrow> nat \<Rightarrow> json \<Rightarrow> bool" where
  "reads_back h d j \<longleftrightarrow>
    (\<forall>n t. number_stop t \<longrightarrow> length (json_encode h j) < n \<longrightarrow>
       parse_value n d (json_encode h j @ t) = Some (san j, t))"

lemma reads_backD:
  "reads_back h d j \<Longrightarrow> number_stop t \<Longrightarrow> length (json_encode h j) < n \<Longrightarrow>
   parse_value n d (json_encode h j @ t) = Some (san j, t)"
  by (simp add: reads_back_def)

lemma parse_elems_encode:
  assumes "\<forall>v \<in> set vs. reads_back h d v" and "vs \<noteq> []"
    and "length (commas (map (json_encode h) vs)) + 2 \<le> n"
  shows "parse_elems n d (commas (map (json_encode h) vs) @ CHR '']'' # t) = Some (map san vs, t)"
  using assms
proof (induction vs arbitrary: n)
  case (Cons v vs)
  obtain m where n: "n = Suc m"
    using Cons.prems(3) by (cases n) auto
  show ?case
  proof (cases vs)
    case Nil
    with Cons.prems n have "parse_value m d (json_encode h v @ CHR '']'' # t) = Some (san v, CHR '']'' # t)"
      by (intro reads_backD) auto
    with Nil n show ?thesis by simp
  next
    case (Cons w ws)
    let ?C = "commas (map (json_encode h) vs)"
    have eq: "commas (json_encode h v # map (json_encode h) vs) = json_encode h v @ CHR '','' # ?C"
      by (simp add: Cons)
    have "parse_value m d (json_encode h v @ CHR '','' # ?C @ CHR '']'' # t)
        = Some (san v, CHR '','' # ?C @ CHR '']'' # t)"
      using Cons.prems(1,3) n eq by (intro reads_backD) auto
    moreover have "parse_elems m d (?C @ CHR '']'' # t) = Some (map san vs, t)"
      using Cons.prems(1,3) n eq Cons by (intro Cons.IH) auto
    ultimately show ?thesis by (simp add: n eq)
  qed
qed simp

abbreviation encode_member :: "bool \<Rightarrow> bytes \<times> json \<Rightarrow> bytes" where
  "encode_member h \<equiv> (\<lambda>(k, v). quote h k @ CHR '':'' # json_encode h v)"

abbreviation san_member :: "bytes \<times> json \<Rightarrow> bytes \<times> json" where
  "san_member \<equiv> (\<lambda>(k, v). (sanitize k, san v))"

lemma parse_member_step:
  assumes "reads_back h d v" and "length (encode_member h (k, v)) \<le> n" and "number_stop t"
  shows "parse_members (Suc n) d (encode_member h (k, v) @ t) =
    (case skip_ws t of
       [] \<Rightarrow> None
     | f # q \<Rightarrow>
         if f = CHR '','' then
           map_option (\<lambda>(ms, q'). ((sanitize k, san v) # ms, q')) (parse_members n d q)
         else if f = CHR ''}'' then Some ([(sanitize k, san v)], q)
         else None)"
proof -
  have "unquote (quote_body h k @ CHR 0x22 # CHR '':'' # json_encode h v @ t) =
      Some (sanitize k, CHR '':'' # json_encode h v @ t)"
    by (rule unquote_quote_body)
  moreover have "parse_value n d (json_encode h v @ t) = Some (san v, t)"
    using assms by (intro reads_backD) (auto simp: quote_def)
  ultimately show ?thesis by (simp add: quote_def del: unquote.simps)
qed

lemma parse_members_encode:
  assumes "\<forall>(k, v) \<in> set ms. reads_back h d v" and "ms \<noteq> []"
    and "length (commas (map (encode_member h) ms)) + 2 \<le> n"
  shows "parse_members n d (commas (map (encode_member h) ms) @ CHR ''}'' # t)
         = Some (map san_member ms, t)"
  using assms
proof (induction ms arbitrary: n)
  case (Cons p ms)
  obtain m where n: "n = Suc m"
    using Cons.prems(3) by (cases n) auto
  obtain k v where p: "p = (k, v)" by fastforce
  show ?case
  proof (cases ms)
    case Nil
    with Cons.prems show ?thesis
      using parse_member_step [of h d v k m "CHR ''}'' # t"] by (simp add: p n)
  next
    case (Cons w ws)
    let ?C = "commas (map (encode_member h) ms)"
    have eq: "commas (encode_member h p # map (encode_member h) ms) = encode_member h p @ CHR '','' # ?C"
      by (simp add: Cons)
    have "parse_members m d (?C @ CHR ''}'' # t) = Some (map san_member ms, t)"
      using Cons.prems(1,3) n eq Cons by (intro Cons.IH) auto
    moreover have "length (encode_member h (k, v)) \<le> m"
      using Cons.prems(3) eq by (simp add: n p)
    ultimately show ?thesis
      using parse_member_step [of h d v k m "CHR '','' # ?C @ CHR ''}'' # t"] Cons.prems(1)
      using eq by (simp add: n p del: parse_members.simps)
  qed
qed simp

lemma foldr_max_le: "x \<in> set xs \<Longrightarrow> x \<le> foldr max xs (0::nat)"
  by (induction xs) auto

lemma foldr_max_least: "(\<And>x. x \<in> set xs \<Longrightarrow> x \<le> m) \<Longrightarrow> foldr max xs 0 \<le> (m::nat)"
  by (induction xs) auto

lemma commas_head:
  assumes "xs \<noteq> []" and "hd xs = c # r"
  obtains q where "commas xs = c # q"
  using assms by (cases xs rule: commas.cases) auto

lemma reads_back_JArr:
  assumes "\<forall>v \<in> set vs. reads_back h (Suc d) v" and "\<forall>v \<in> set vs. wf_numbers v"
    and "d < max_nesting"
  shows "reads_back h d (JArr vs)"
  unfolding reads_back_def
proof (intro allI impI)
  fix n t
  assume len: "length (json_encode h (JArr vs)) < n"
  then obtain m where n: "n = Suc m" by (cases n) auto
  show "parse_value n d (json_encode h (JArr vs) @ t) = Some (san (JArr vs), t)"
  proof (cases vs)
    case Nil
    with assms(3) show ?thesis by (simp add: n)
  next
    case (Cons v ws)
    obtain c r where "json_encode h v = c # r" "\<not> is_space c" "c \<noteq> CHR '']''"
      using assms(2) Cons by (metis encode_head list.set_intros(1))
    moreover obtain q where "commas (map (json_encode h) vs) = c # q"
      using commas_head [of "map (json_encode h) vs"] Cons calculation(1) by auto
    moreover have "parse_elems m (Suc d) (commas (map (json_encode h) vs) @ CHR '']'' # t)
        = Some (map san vs, t)"
      using assms(1) len Cons by (intro parse_elems_encode) (auto simp: n)
    ultimately show ?thesis using assms(3) by (simp add: n)
  qed
qed

lemma reads_back_JObj:
  assumes "\<forall>(k, v) \<in> set ms. reads_back h (Suc d) v" and "d < max_nesting"
  shows "reads_back h d (JObj ms)"
  unfolding reads_back_def
proof (intro allI impI)
  fix n t
  assume len: "length (json_encode h (JObj ms)) < n"
  then obtain m where n: "n = Suc m" by (cases n) auto
  show "parse_value n d (json_encode h (JObj ms) @ t) = Some (san (JObj ms), t)"
  proof (cases ms)
    case Nil
    with assms(2) show ?thesis by (simp add: n)
  next
    case (Cons p ws)
    have "hd (map (encode_member h) ms) = CHR 0x22 # tl (hd (map (encode_member h) ms))"
      by (simp add: Cons quote_def split: prod.splits)
    then obtain q where "commas (map (encode_member h) ms) = CHR 0x22 # q"
      using commas_head [of "map (encode_member h) ms"] Cons by (metis list.map_disc_iff list.distinct(1))
    moreover have "parse_members m (Suc d) (commas (map (encode_member h) ms) @ CHR ''}'' # t)
        = Some (map san_member ms, t)"
      using assms(1) len Cons by (intro parse_members_encode) (auto simp: n)
    ultimately show ?thesis using assms(2) by (simp add: n)
  qed
qed

theorem parse_encode:
  "wf_numbers j \<Longrightarrow> d + json_depth j \<le> max_nesting \<Longrightarrow> reads_back h d j"
proof (induction j arbitrary: d)
  case (JNum s)
  then show ?case
    by (auto simp: reads_back_def parse_number simp del: parse_value.simps dest!: less_imp_Suc_add)
next
  case (JStr s)
  show ?case
    unfolding reads_back_def
  proof (intro allI impI)
    fix n t
    assume "length (json_encode h (JStr s)) < n"
    then obtain m where "n = Suc m" by (cases n) auto
    then show "parse_value n d (json_encode h (JStr s) @ t) = Some (san (JStr s), t)"
      using unquote_quote_body [of h s t] by (simp add: quote_def del: unquote.simps)
  qed
next
  case (JArr vs)
  have "json_depth v \<le> foldr max (map json_depth vs) 0" if "v \<in> set vs" for v
    using that by (intro foldr_max_le) auto
  with JArr show ?case
    by (intro reads_back_JArr) fastforce+
next
  case (JObj ms)
  have "json_depth v \<le> foldr max (map (\<lambda>(k, v). json_depth v) ms) 0" if "(k, v) \<in> set ms" for k v
    using that by (intro foldr_max_le) force
  with JObj show ?case
    by (intro reads_back_JObj) fastforce+
qed (auto simp: reads_back_def has_prefix_def dest!: less_imp_Suc_add)

theorem decode_encode:
  assumes "wf_numbers j" and "json_depth j \<le> max_nesting"
  shows "json_decode (json_encode h j) = Some (san j, [])"
  using reads_backD [OF parse_encode [of j 0 h], of "[]" "Suc (length (json_encode h j))"] assms
  by (simp add: json_decode_def del: parse_value.simps)

subsection \<open>Documents that are nested too deeply\<close>

text \<open>The decoder refuses exactly the documents beyond its nesting limit.\<close>

definition too_deep :: "bool \<Rightarrow> nat \<Rightarrow> json \<Rightarrow> bool" where
  "too_deep h d j \<longleftrightarrow>
    (\<forall>n t. number_stop t \<longrightarrow> length (json_encode h j) < n \<longrightarrow>
       parse_value n d (json_encode h j @ t) = None)"

lemma too_deepD:
  "too_deep h d j \<Longrightarrow> number_stop t \<Longrightarrow> length (json_encode h j) < n \<Longrightarrow>
   parse_value n d (json_encode h j @ t) = None"
  by (simp add: too_deep_def)

lemma parse_elems_deep:
  assumes "\<forall>v \<in> set vs. reads_back h d v \<or> too_deep h d v" and "\<exists>v \<in> set vs. too_deep h d v"
    and "length (commas (map (json_encode h) vs)) + 2 \<le> n"
  shows "parse_elems n d (commas (map (json_encode h) vs) @ CHR '']'' # t) = None"
  using assms
proof (induction vs arbitrary: n)
  case (Cons v vs)
  obtain m where n: "n = Suc m"
    using Cons.prems(3) by (cases n) auto
  obtain tail where tail: "number_stop tail"
    "commas (map (json_encode h) (v # vs)) @ CHR '']'' # t = json_encode h v @ tail"
    "tail = (if vs = [] then CHR '']'' # t
      else CHR '','' # commas (map (json_encode h) vs) @ CHR '']'' # t)"
    by (cases vs) auto
  have len: "length (json_encode h v) < m"
    using Cons.prems(3) n by (cases vs) auto
  show ?case
  proof (cases "too_deep h d v")
    case True
    then show ?thesis
      unfolding tail(2) using too_deepD [OF True tail(1) len] by (simp add: n del: parse_value.simps)
  next
    case False
    then have rb: "reads_back h d v" and "vs \<noteq> []" and "\<exists>v \<in> set vs. too_deep h d v"
      using Cons.prems(1,2) by auto
    then have "parse_elems m d (commas (map (json_encode h) vs) @ CHR '']'' # t) = None"
      using Cons.prems(1,3) n by (intro Cons.IH) (cases vs; auto)+
    with reads_backD [OF rb tail(1) len] \<open>vs \<noteq> []\<close> show ?thesis
      unfolding tail(2) using tail(3) by (simp add: n del: parse_value.simps)
  qed
qed simp

lemma parse_member_deep:
  assumes "too_deep h d v" and "length (encode_member h (k, v)) \<le> n" and "number_stop t"
  shows "parse_members (Suc n) d (encode_member h (k, v) @ t) = None"
proof -
  have "unquote (quote_body h k @ CHR 0x22 # CHR '':'' # json_encode h v @ t) =
      Some (sanitize k, CHR '':'' # json_encode h v @ t)"
    by (rule unquote_quote_body)
  moreover have "parse_value n d (json_encode h v @ t) = None"
    using assms by (intro too_deepD) (auto simp: quote_def)
  ultimately show ?thesis by (simp add: quote_def del: unquote.simps)
qed

lemma parse_members_deep:
  assumes "\<forall>(k, v) \<in> set ms. reads_back h d v \<or> too_deep h d v"
    and "\<exists>(k, v) \<in> set ms. too_deep h d v"
    and "length (commas (map (encode_member h) ms)) + 2 \<le> n"
  shows "parse_members n d (commas (map (encode_member h) ms) @ CHR ''}'' # t) = None"
  using assms
proof (induction ms arbitrary: n)
  case (Cons p ms)
  obtain m where n: "n = Suc m"
    using Cons.prems(3) by (cases n) auto
  obtain k v where p: "p = (k, v)" by fastforce
  obtain tail where tail: "number_stop tail"
    "commas (map (encode_member h) (p # ms)) @ CHR ''}'' # t = encode_member h (k, v) @ tail"
    "tail = (if ms = [] then CHR ''}'' # t
      else CHR '','' # commas (map (encode_member h) ms) @ CHR ''}'' # t)"
    using p by (cases ms) auto
  have len: "length (encode_member h (k, v)) \<le> m"
    using Cons.prems(3) n p by (cases ms) auto
  show ?case
  proof (cases "too_deep h d v")
    case True
    then show ?thesis
      unfolding tail(2) using parse_member_deep [OF True len tail(1)] by (simp only: n)
  next
    case False
    then have rb: "reads_back h d v" and "ms \<noteq> []" and "\<exists>(k, v) \<in> set ms. too_deep h d v"
      using Cons.prems(1,2) p by auto
    then have "parse_members m d (commas (map (encode_member h) ms) @ CHR ''}'' # t) = None"
      using Cons.prems(1,3) n by (intro Cons.IH) (cases ms; auto)+
    moreover have "tail = CHR '','' # commas (map (encode_member h) ms) @ CHR ''}'' # t"
      using \<open>ms \<noteq> []\<close> tail(3) by simp
    ultimately show ?thesis
      unfolding tail(2) n parse_member_step [OF rb len tail(1)]
      by (simp del: parse_members.simps)
  qed
qed simp

lemma too_deep_JArr:
  assumes "d \<ge> max_nesting \<or>
      (\<forall>v \<in> set vs. reads_back h (Suc d) v \<or> too_deep h (Suc d) v) \<and>
      (\<exists>v \<in> set vs. too_deep h (Suc d) v)"
    and "\<forall>v \<in> set vs. wf_numbers v"
  shows "too_deep h d (JArr vs)"
  unfolding too_deep_def
proof (intro allI impI)
  fix n t
  assume len: "length (json_encode h (JArr vs)) < n"
  then obtain m where n: "n = Suc m" by (cases n) auto
  show "parse_value n d (json_encode h (JArr vs) @ t) = None"
  proof (cases "d \<ge> max_nesting")
    case True
    then show ?thesis by (simp add: n)
  next
    case False
    with assms(1) have deep: "\<forall>v \<in> set vs. reads_back h (Suc d) v \<or> too_deep h (Suc d) v"
      "\<exists>v \<in> set vs. too_deep h (Suc d) v" by auto
    then obtain v ws where Cons: "vs = v # ws" by (cases vs) auto
    obtain c r where "json_encode h v = c # r" "\<not> is_space c" "c \<noteq> CHR '']''"
      using assms(2) Cons by (metis encode_head list.set_intros(1))
    moreover obtain q where "commas (map (json_encode h) vs) = c # q"
      using commas_head [of "map (json_encode h) vs"] Cons calculation(1) by auto
    moreover have "parse_elems m (Suc d) (commas (map (json_encode h) vs) @ CHR '']'' # t) = None"
      using deep len by (intro parse_elems_deep) (auto simp: n)
    ultimately show ?thesis using False by (simp add: n)
  qed
qed

lemma too_deep_JObj:
  assumes "d \<ge> max_nesting \<or>
      (\<forall>(k, v) \<in> set ms. reads_back h (Suc d) v \<or> too_deep h (Suc d) v) \<and>
      (\<exists>(k, v) \<in> set ms. too_deep h (Suc d) v)"
  shows "too_deep h d (JObj ms)"
  unfolding too_deep_def
proof (intro allI impI)
  fix n t
  assume len: "length (json_encode h (JObj ms)) < n"
  then obtain m where n: "n = Suc m" by (cases n) auto
  show "parse_value n d (json_encode h (JObj ms) @ t) = None"
  proof (cases "d \<ge> max_nesting")
    case True
    then show ?thesis by (simp add: n)
  next
    case False
    with assms(1) have deep: "\<forall>(k, v) \<in> set ms. reads_back h (Suc d) v \<or> too_deep h (Suc d) v"
      "\<exists>(k, v) \<in> set ms. too_deep h (Suc d) v" by auto
    then obtain p ws where Cons: "ms = p # ws" by (cases ms) auto
    have "hd (map (encode_member h) ms) = CHR 0x22 # tl (hd (map (encode_member h) ms))"
      by (simp add: Cons quote_def split: prod.splits)
    then obtain q where "commas (map (encode_member h) ms) = CHR 0x22 # q"
      using commas_head [of "map (encode_member h) ms"] Cons by (metis list.map_disc_iff list.distinct(1))
    moreover have "parse_members m (Suc d) (commas (map (encode_member h) ms) @ CHR ''}'' # t) = None"
      using deep len by (intro parse_members_deep) (auto simp: n)
    ultimately show ?thesis using False by (simp add: n)
  qed
qed

lemma foldr_max_exceeds: "(m::nat) < foldr max xs 0 \<Longrightarrow> \<exists>x \<in> set xs. m < x"
  by (induction xs) (auto simp: less_max_iff_disj)

theorem parse_too_deep:
  "wf_numbers j \<Longrightarrow> max_nesting < d + json_depth j \<Longrightarrow> 0 < json_depth j \<Longrightarrow> too_deep h d j"
proof (induction j arbitrary: d)
  case (JArr vs)
  have "reads_back h (Suc d) v \<or> too_deep h (Suc d) v" if v: "v \<in> set vs" "d < max_nesting" for v
  proof (cases "Suc d + json_depth v \<le> max_nesting")
    case True
    then show ?thesis using parse_encode JArr.prems(1) v by auto
  next
    case False
    with v(2) have "0 < json_depth v" by simp
    with False show ?thesis using JArr.IH [OF v(1)] JArr.prems(1) v(1) by simp
  qed
  moreover have "\<exists>v \<in> set vs. too_deep h (Suc d) v" if "d < max_nesting"
  proof -
    have "max_nesting - Suc d < foldr max (map json_depth vs) 0" using JArr.prems(2) that by simp
    then obtain v where "v \<in> set vs" "max_nesting - Suc d < json_depth v"
      using foldr_max_exceeds by fastforce
    moreover from this have "max_nesting < Suc d + json_depth v" "0 < json_depth v" by linarith+
    ultimately show ?thesis using JArr.IH [of v "Suc d"] JArr.prems(1) by auto
  qed
  ultimately show ?case
    using JArr.prems(1) by (intro too_deep_JArr) (auto simp: not_le [symmetric])
next
  case (JObj ms)
  have kv: "v \<in> Basic_BNFs.snds (k, v)" "(k, v) \<in> set ms \<Longrightarrow> (k, v) \<in> set ms" for k :: bytes and v :: json
    by (auto simp: snds.simps)
  have "reads_back h (Suc d) v \<or> too_deep h (Suc d) v" if v: "(k, v) \<in> set ms" "d < max_nesting" for k v
  proof (cases "Suc d + json_depth v \<le> max_nesting")
    case True
    then show ?thesis using parse_encode JObj.prems(1) v by auto
  next
    case False
    with v(2) have "0 < json_depth v" by simp
    with False show ?thesis using JObj.IH [OF v(1) kv(1)] JObj.prems(1) v(1) by auto
  qed
  moreover have "\<exists>(k, v) \<in> set ms. too_deep h (Suc d) v" if "d < max_nesting"
  proof -
    have "max_nesting - Suc d < foldr max (map (\<lambda>(k, v). json_depth v) ms) 0"
      using JObj.prems(2) that by simp
    then obtain k v where kv': "(k, v) \<in> set ms" "max_nesting - Suc d < json_depth v"
      using foldr_max_exceeds by fastforce
    moreover from this have "max_nesting < Suc d + json_depth v" "0 < json_depth v" by linarith+
    ultimately have "too_deep h (Suc d) v"
      using JObj.IH [OF kv'(1) kv(1), of "Suc d"] JObj.prems(1) by auto
    with kv'(1) show ?thesis by blast
  qed
  ultimately show ?case
    by (intro too_deep_JObj) (auto simp: not_le [symmetric])
qed simp_all

theorem decode_encode_iff:
  assumes "wf_numbers j"
  shows "json_decode (json_encode h j) =
    (if json_depth j \<le> max_nesting then Some (san j, []) else None)"
proof (cases "json_depth j \<le> max_nesting")
  case True
  with decode_encode [OF assms] show ?thesis by simp
next
  case False
  then have "too_deep h 0 j" using parse_too_deep [OF assms, of 0] by simp
  with False show ?thesis
    using too_deepD [of h 0 j "[]" "Suc (length (json_encode h j))"]
    by (simp add: json_decode_def del: parse_value.simps)
qed

subsection \<open>Decoding into \<^verbatim>\<open>any\<close>: Go maps\<close>

fun map_put :: "bytes \<Rightarrow> 'v \<Rightarrow> (bytes \<times> 'v) list \<Rightarrow> (bytes \<times> 'v) list" where
  "map_put k v [] = [(k, v)]"
| "map_put k v ((k', v') # ms) =
    (if k < k' then (k, v) # (k', v') # ms
     else if k = k' then (k, v) # ms
     else (k', v') # map_put k v ms)"

definition go_map :: "(bytes \<times> 'v) list \<Rightarrow> (bytes \<times> 'v) list" where
  "go_map ms = foldl (\<lambda>m (k, v). map_put k v m) [] ms"

abbreviation sorted_keys :: "(bytes \<times> 'v) list \<Rightarrow> bool" where
  "sorted_keys ms \<equiv> sorted_wrt (<) (map fst ms)"

fun as_any :: "json \<Rightarrow> json" where
  "as_any (JArr vs) = JArr (map as_any vs)"
| "as_any (JObj ms) = JObj (go_map (map (\<lambda>(k, v). (k, as_any v)) ms))"
| "as_any j = j"

lemma set_map_put: "set (map fst (map_put k v m)) = insert k (set (map fst m))"
  by (induction k v m rule: map_put.induct) auto

lemma map_put_sub: "set (map_put k v m) \<subseteq> insert (k, v) (set m)"
  by (induction k v m rule: map_put.induct) auto

lemma sorted_map_put: "sorted_keys m \<Longrightarrow> sorted_keys (map_put k v m)"
proof (induction k v m rule: map_put.induct)
  case (2 k v k' v' ms)
  have keys: "x \<in> set (map fst (map_put k v ms)) \<Longrightarrow> x = k \<or> x \<in> set (map fst ms)" for x
    by (simp only: set_map_put insert_iff)
  have "k' < x" if "k' < k" "\<forall>y \<in> set (map fst ms). k' < y" "x \<in> set (map fst (map_put k v ms))" for x
    using keys [OF that(3)] that(1,2) by auto
  with 2 show ?case
    by (fastforce dest: order.strict_trans)
qed simp

lemma map_of_map_put: "sorted_keys m \<Longrightarrow> map_of (map_put k v m) = (map_of m)(k \<mapsto> v)"
  by (induction k v m rule: map_put.induct) (auto simp: fun_eq_iff)

lemma foldl_map_put:
  "sorted_keys m \<Longrightarrow> sorted_keys (foldl (\<lambda>m (k, v). map_put k v m) m ms)"
  by (induction ms arbitrary: m) (auto simp: sorted_map_put)

lemma sorted_go_map: "sorted_keys (go_map ms)"
  by (simp add: go_map_def foldl_map_put)

lemma map_put_last:
  "\<forall>x \<in> set (map fst m). x < k \<Longrightarrow> map_put k v m = m @ [(k, v)]"
  by (induction k v m rule: map_put.induct) (auto dest: order.asym)

lemma foldl_map_put_sorted:
  assumes "sorted_keys (m @ ms)"
  shows "foldl (\<lambda>m (k, v). map_put k v m) m ms = m @ ms"
  using assms
proof (induction ms arbitrary: m)
  case (Cons p ms)
  obtain k v where p: "p = (k, v)" by fastforce
  have "\<forall>x \<in> set (map fst m). x < k"
    using Cons.prems by (auto simp: p sorted_wrt_append)
  then have "map_put k v m = m @ [p]"
    by (simp add: map_put_last p)
  with Cons.IH [of "m @ [p]"] Cons.prems show ?case
    by (simp add: p)
qed simp

lemma go_map_sorted: "sorted_keys ms \<Longrightarrow> go_map ms = ms"
  using foldl_map_put_sorted [of "[]" ms] by (simp add: go_map_def)

lemma foldl_map_put_sub:
  "set (foldl (\<lambda>m (k, v). map_put k v m) m ms) \<subseteq> set m \<union> set ms"
proof (induction ms arbitrary: m)
  case (Cons p ms)
  obtain k v where p: "p = (k, v)" by fastforce
  have "set (foldl (\<lambda>m (k, v). map_put k v m) (map_put k v m) ms) \<subseteq> set (map_put k v m) \<union> set ms"
    by (rule Cons.IH)
  with map_put_sub [of k v m] show ?case
    by (auto simp: p)
qed simp

lemma go_map_sub: "set (go_map ms) \<subseteq> set ms"
  using foldl_map_put_sub [of "[]" ms] by (simp add: go_map_def)

lemma map_of_foldl_map_put:
  "sorted_keys m \<Longrightarrow>
   map_of (foldl (\<lambda>m (k, v). map_put k v m) m ms) = map_of m ++ map_of (rev ms)"
proof (induction ms arbitrary: m)
  case (Cons p ms)
  then show ?case
    by (cases p) (simp add: sorted_map_put map_of_map_put map_add_upd_left fun_upd_def map_add_def fun_eq_iff
        split: option.split)
qed simp

lemma map_of_go_map: "map_of (go_map ms) = map_of (rev ms)"
  using map_of_foldl_map_put [of "[]" ms] by (simp add: go_map_def)

text \<open>A document already in the form the decoder gives to \<^verbatim>\<open>any\<close>.\<close>

fun canonical_json :: "json \<Rightarrow> bool" where
  "canonical_json (JNum s) = valid_number s"
| "canonical_json (JStr s) = valid_utf8 s"
| "canonical_json (JArr vs) = (\<forall>v \<in> set vs. canonical_json v)"
| "canonical_json (JObj ms) =
    (sorted_keys ms \<and> (\<forall>(k, v) \<in> set ms. valid_utf8 k \<and> canonical_json v))"
| "canonical_json _ = True"

lemma canonical_as_any:
  "wf_numbers j \<Longrightarrow> canonical_json (as_any (san j))"
proof (induction j)
  case (JObj ms)
  let ?ms = "map (\<lambda>(k, v). (k, as_any v)) (map san_member ms)"
  have "valid_utf8 k \<and> canonical_json v" if "(k, v) \<in> set (go_map ?ms)" for k v
    using that go_map_sub [of ?ms] JObj by (fastforce simp: valid_utf8_sanitize)
  then show ?case by (auto simp: sorted_go_map)
qed (auto simp: valid_utf8_sanitize)

lemma canonical_fixed: "canonical_json j \<Longrightarrow> wf_numbers j \<and> san j = j \<and> as_any j = j"
proof (induction j)
  case (JArr vs)
  then show ?case by (auto simp: map_idI)
next
  case (JObj ms)
  have "\<forall>(k, v) \<in> set ms. sanitize k = k \<and> san v = v \<and> as_any v = v \<and> wf_numbers v"
    using JObj by (fastforce simp: sanitize_valid)
  then have "map san_member ms = ms" "map (\<lambda>(k, v). (k, as_any v)) ms = ms" "wf_numbers (JObj ms)"
    by (auto intro!: map_idI)
  with JObj.prems show ?case by (simp add: go_map_sorted)
qed (auto simp: sanitize_valid)

lemma depth_go_map:
  "foldr max (map (\<lambda>(k, v). json_depth v) (go_map ms)) 0 \<le>
   foldr max (map (\<lambda>(k, v). json_depth v) ms) 0"
proof (rule foldr_max_least)
  fix x
  assume "x \<in> set (map (\<lambda>(k, v). json_depth v) (go_map ms))"
  then have "x \<in> set (map (\<lambda>(k, v). json_depth v) ms)"
    using go_map_sub [of ms] by auto
  then show "x \<le> foldr max (map (\<lambda>(k, v). json_depth v) ms) 0"
    by (rule foldr_max_le)
qed

lemma foldr_max_mono:
  "(\<And>x. x \<in> set xs \<Longrightarrow> f x \<le> g x) \<Longrightarrow> foldr max (map f xs) 0 \<le> foldr max (map g xs) (0::nat)"
  by (rule foldr_max_least) (fastforce intro: order.trans foldr_max_le)

lemma depth_san: "json_depth (san j) = json_depth j"
proof (induction j)
  case (JArr vs)
  then have "map (\<lambda>x. json_depth (san x)) vs = map json_depth vs" by simp
  then show ?case by (simp only: san.simps json_depth.simps map_map comp_def)
next
  case (JObj ms)
  then have "map ((\<lambda>(k, v). json_depth v) \<circ> san_member) ms = map (\<lambda>(k, v). json_depth v) ms"
    by (auto simp: snds.simps)
  then show ?case by (simp only: san.simps json_depth.simps map_map)
qed simp_all

lemma depth_as_any: "json_depth (as_any j) \<le> json_depth j"
proof (induction j)
  case (JArr vs)
  then show ?case
    by (auto intro!: foldr_max_mono simp: comp_def)
next
  case (JObj ms)
  have "foldr max (map (\<lambda>(k, v). json_depth v) (map (\<lambda>(k, v). (k, as_any v)) ms)) 0
      \<le> foldr max (map (\<lambda>(k, v). json_depth v) ms) 0"
    using JObj by (auto intro!: foldr_max_mono simp: snds.simps)
  with depth_go_map [of "map (\<lambda>(k, v). (k, as_any v)) ms"] show ?case
    by (simp del: map_map)
qed simp_all

theorem decode_canonical:
  assumes "canonical_json j" and "json_depth j \<le> max_nesting"
  shows "json_decode (json_encode h j) = Some (j, [])"
  using decode_encode [of j h] canonical_fixed [OF assms(1)] assms(2) by metis

corollary canonical_encode_inj:
  assumes "canonical_json i" "json_depth i \<le> max_nesting"
    and "canonical_json j" "json_depth j \<le> max_nesting"
    and "json_encode h i = json_encode h j"
  shows "i = j"
  using decode_canonical [OF assms(1,2), of h] decode_canonical [OF assms(3,4), of h] assms(5)
  by (metis option.inject prod.inject)

subsection \<open>What the decoder returns is well-formed\<close>

definition decoded_ok :: "nat \<Rightarrow> json \<Rightarrow> bool" where
  "decoded_ok d j \<longleftrightarrow> wf_numbers j \<and> san j = j \<and> (json_depth j > 0 \<longrightarrow> d + json_depth j \<le> max_nesting)"

lemma decoded_ok_JArr:
  assumes "\<forall>v \<in> set vs. decoded_ok (Suc d) v" and "d < max_nesting"
  shows "decoded_ok d (JArr vs)"
proof -
  have "foldr max (map json_depth vs) 0 \<le> max_nesting - Suc d"
    using assms by (intro foldr_max_least) (force simp: decoded_ok_def)
  with assms show ?thesis
    by (auto simp: decoded_ok_def intro: map_idI)
qed

lemma decoded_ok_JObj:
  assumes "\<forall>(k, v) \<in> set ms. valid_utf8 k \<and> decoded_ok (Suc d) v" and "d < max_nesting"
  shows "decoded_ok d (JObj ms)"
proof -
  have "foldr max (map (\<lambda>(k, v). json_depth v) ms) 0 \<le> max_nesting - Suc d"
    using assms by (intro foldr_max_least) (force simp: decoded_ok_def)
  with assms show ?thesis
    by (auto simp: decoded_ok_def sanitize_valid intro!: map_idI)
qed

lemma parse_ok:
  "parse_value n d s = Some (j, r) \<Longrightarrow> decoded_ok d j"
  "parse_elems n d s = Some (vs, r) \<Longrightarrow> \<forall>v \<in> set vs. decoded_ok d v"
  "parse_members n d s = Some (ms, r) \<Longrightarrow> \<forall>(k, v) \<in> set ms. valid_utf8 k \<and> decoded_ok d v"
proof (induction n d s and n d s and n d s arbitrary: j r and vs r and ms r
    rule: parse_value_parse_elems_parse_members.induct)
  case (2 n d s)
  then obtain c q where c: "skip_ws s = c # q" by (auto split: list.splits)
  consider (obj) "c = CHR ''{''" | (arr) "c = CHR ''[''" | (str) "c = CHR 0x22"
    | (lit) "c \<noteq> CHR ''{''" "c \<noteq> CHR ''[''" "c \<noteq> CHR 0x22"
    by blast
  then show ?case
  proof cases
    case obj
    have d: "\<not> max_nesting \<le> d" and ne: "skip_ws q \<noteq> []"
      using "2.prems" c obj by (auto split: if_splits list.splits)
    then obtain e q' where e: "skip_ws q = e # q'" by (auto simp: neq_Nil_conv)
    show ?thesis
    proof (cases "e = CHR ''}''")
      case True
      with "2.prems" c obj e d show ?thesis by (auto intro: decoded_ok_JObj)
    next
      case False
      with "2.prems" c obj e d obtain ms where ms: "parse_members n (Suc d) q = Some (ms, r)" "j = JObj ms"
        by auto
      have "\<forall>(k, v) \<in> set ms. valid_utf8 k \<and> decoded_ok (Suc d) v"
        by (rule "2.IH"(1) [OF c obj d e False ms(1)])
      with ms(2) d show ?thesis by (simp add: decoded_ok_JObj)
    qed
  next
    case arr
    then have nobj: "c \<noteq> CHR ''{''" by simp
    have d: "\<not> max_nesting \<le> d" and ne: "skip_ws q \<noteq> []"
      using "2.prems" c arr by (auto split: if_splits list.splits)
    then obtain e q' where e: "skip_ws q = e # q'" by (auto simp: neq_Nil_conv)
    show ?thesis
    proof (cases "e = CHR '']''")
      case True
      with "2.prems" c arr e d show ?thesis by (auto intro: decoded_ok_JArr)
    next
      case False
      with "2.prems" c arr e d obtain vs where vs: "parse_elems n (Suc d) q = Some (vs, r)" "j = JArr vs"
        by auto
      have "\<forall>v \<in> set vs. decoded_ok (Suc d) v"
        by (rule "2.IH"(2) [OF c nobj arr d e False vs(1)])
      with vs(2) d show ?thesis by (simp add: decoded_ok_JArr)
    qed
  next
    case str
    with 2 c show ?thesis
      by (auto simp: decoded_ok_def sanitize_valid unquote_valid simp del: unquote.simps)
  next
    case lit
    with 2 c show ?thesis
      by (auto simp: decoded_ok_def scan_number_valid split: if_splits simp del: unquote.simps)
  qed
next
  case (4 n d s)
  then obtain v q where v: "parse_value n d s = Some (v, q)" by (auto split: option.splits)
  with 4 obtain c q' where c: "skip_ws q = c # q'" by (auto split: list.splits)
  show ?case
  proof (cases "c = CHR '',''")
    case True
    with 4 v c obtain ws where "parse_elems n d q' = Some (ws, r)" "vs = v # ws" by auto
    with 4 v c True show ?thesis by auto
  next
    case False
    with 4 v c show ?thesis by (auto split: if_splits)
  qed
next
  case (6 n d s)
  then obtain q where q: "skip_ws s = CHR 0x22 # q" by (auto split: list.splits if_splits)
  with 6 obtain k r1 where k: "unquote q = Some (k, r1)" by (auto split: option.splits)
  with 6 q obtain r2 where r2: "skip_ws r1 = CHR '':'' # r2"
    by (auto split: list.splits if_splits)
  with 6 q k obtain v r3 where v: "parse_value n d r2 = Some (v, r3)" by (auto split: option.splits)
  with 6 q k r2 obtain c q' where c: "skip_ws r3 = c # q'" by (auto split: list.splits)
  have ok: "valid_utf8 k" "decoded_ok d v"
    using 6 q k r2 v by (auto simp: unquote_valid)
  show ?case
  proof (cases "c = CHR '',''")
    case True
    with 6 q k r2 v c obtain ws where "parse_members n d q' = Some (ws, r)" "ms = (k, v) # ws"
      by auto
    with 6 q k r2 v c True ok show ?thesis by auto
  next
    case False
    with 6 q k r2 v c ok show ?thesis by (auto split: if_splits)
  qed
qed simp_all

theorem json_decode_ok:
  assumes "json_decode s = Some (j, r)"
  shows "canonical_json (as_any j) \<and> json_depth (as_any j) \<le> max_nesting"
proof -
  have ok: "decoded_ok 0 j"
    using assms parse_ok(1) unfolding json_decode_def by blast
  then have "canonical_json (as_any j)"
    using canonical_as_any [of j] by (simp add: decoded_ok_def)
  moreover have "json_depth j \<le> max_nesting"
    using ok by (auto simp: decoded_ok_def max_nesting_def)
  ultimately show ?thesis
    using depth_as_any [of j] by linarith
qed

end
