(* ===== verification/Go_Value.thy ===== *)
theory Go_Value
  imports Go_Json
begin

section \<open>Dynamic Go values and struct decoding\<close>

text \<open>
  \<open>goany\<close> is what a Go variable of type \<^verbatim>\<open>any\<close> holds in this program, and what
  \<^verbatim>\<open>json.Marshal\<close> receives: a struct is its list of exported fields under their JSON
  names.  A finite floating-point number is represented by its shortest decimal
  \<open>(-1)^neg * digits * 10^exp\<close>, which determines the number and is what Go prints.
  \<open>AMarshalError\<close> is a value whose \<^verbatim>\<open>MarshalJSON\<close> method returns an error.
  \<open>go_tree\<close> is the document \<^verbatim>\<open>json.Marshal\<close> writes; \<open>decode_struct\<close> is the
  decoder of \<^verbatim>\<open>encoding/json\<close> into a flat struct with unknown fields disallowed.
\<close>

subsection \<open>Values\<close>

datatype int_kind =
  GoInt | GoInt8 | GoInt16 | GoInt32 | GoInt64 | GoUint | GoUint8 | GoUint16 | GoUint32 | GoUint64

datatype go_float = FNaN | FInf bool | FDec bool nat int

datatype goany =
    ANil
  | ABool bool
  | AInt int_kind int
  | AFloat32 go_float
  | AFloat64 go_float
  | ANumber bytes
  | AString bytes
  | ASlice "goany list"
  | AMap "(bytes \<times> goany) list"
  | AStruct "(bytes \<times> goany) list"
  | AMarshalError

text \<open>Floating-point output of \<^verbatim>\<open>encoding/json\<close>: plain unless very small or very large.\<close>

definition float_plain :: "bytes \<Rightarrow> int \<Rightarrow> bytes" where
  "float_plain ds dp =
    (if dp \<le> 0 then ''0.'' @ replicate (nat (- dp)) (CHR ''0'') @ ds
     else if int (length ds) \<le> dp then ds @ replicate (nat dp - length ds) (CHR ''0'')
     else take (nat dp) ds @ CHR ''.'' # drop (nat dp) ds)"

definition float_sci :: "bytes \<Rightarrow> int \<Rightarrow> bytes" where
  "float_sci ds dp =
    (let e = dp - 1 in
     take 1 ds @ (if length ds \<le> 1 then [] else CHR ''.'' # drop 1 ds) @
     (if e < 0 then ''e-'' else ''e+'') @ dec_nat (nat \<bar>e\<bar>))"

definition float_json :: "go_float \<Rightarrow> bytes option" where
  "float_json f =
    (case f of
       FNaN \<Rightarrow> None
     | FInf _ \<Rightarrow> None
     | FDec neg m e \<Rightarrow>
         Some ((if neg then ''-'' else []) @
           (if m = 0 then ''0''
            else let ds = dec_nat m; dp = int (length ds) + e in
              if dp < - 5 \<or> dp > 21 then float_sci ds dp else float_plain ds dp)))"

fun go_tree :: "goany \<Rightarrow> json option" where
  "go_tree ANil = Some JNull"
| "go_tree (ABool b) = Some (JBool b)"
| "go_tree (AInt k i) = Some (JNum (dec_int i))"
| "go_tree (AFloat32 f) = map_option JNum (float_json f)"
| "go_tree (AFloat64 f) = map_option JNum (float_json f)"
| "go_tree (ANumber s) =
    (if s = [] then Some (JNum ''0'') else if valid_number s then Some (JNum s) else None)"
| "go_tree (AString s) = Some (JStr s)"
| "go_tree (ASlice vs) = map_option JArr (those (map go_tree vs))"
| "go_tree (AMap ms) =
    map_option (\<lambda>xs. JObj (go_map xs))
      (those (map (\<lambda>(k, v). map_option (\<lambda>j. (k, j)) (go_tree v)) ms))"
| "go_tree (AStruct ms) =
    map_option JObj (those (map (\<lambda>(k, v). map_option (\<lambda>j. (k, j)) (go_tree v)) ms))"
| "go_tree AMarshalError = None"

text \<open>\<^verbatim>\<open>json.Marshal\<close>: the document with HTML escaping; None is a marshalling error.\<close>

definition go_marshal :: "goany \<Rightarrow> bytes option" where
  "go_marshal v = map_option (json_encode True) (go_tree v)"

text \<open>A comparison \<^verbatim>\<open>m[k] == "literal"\<close> of an interface value: a missing key is nil.\<close>

definition detail :: "(bytes \<times> goany) list \<Rightarrow> bytes \<Rightarrow> goany" where
  "detail ms k = (case map_of ms k of None \<Rightarrow> ANil | Some v \<Rightarrow> v)"

definition has_key :: "(bytes \<times> 'a) list \<Rightarrow> bytes \<Rightarrow> bool" where
  "has_key ms k \<longleftrightarrow> k \<in> set (map fst ms)"

definition as_string :: "goany \<Rightarrow> bytes option" where
  "as_string v = (case v of AString s \<Rightarrow> Some s | _ \<Rightarrow> None)"

definition as_bool :: "goany \<Rightarrow> bool option" where
  "as_bool v = (case v of ABool b \<Rightarrow> Some b | _ \<Rightarrow> None)"

text \<open>Struct fields with \<^verbatim>\<open>omitempty\<close>.\<close>

definition omit_if :: "bool \<Rightarrow> bytes \<Rightarrow> goany \<Rightarrow> (bytes \<times> goany) list" where
  "omit_if c k v = (if c then [] else [(k, v)])"

definition strings :: "bytes list \<Rightarrow> goany" where
  "strings xs = ASlice (map AString xs)"

lemma those_Some_iff: "those xs = Some ys \<longleftrightarrow> xs = map Some ys"
  by (induction xs arbitrary: ys) (auto split: option.splits)

lemma go_tree_numbers_member:
  assumes "those (map (\<lambda>(k, v). map_option (\<lambda>j. (k, j)) (go_tree v)) ms) = Some xs"
    and "(k, j) \<in> set xs"
  obtains v where "(k, v) \<in> set ms" "go_tree v = Some j"
proof -
  have "Some (k, j) \<in> set (map (\<lambda>(k, v). map_option (\<lambda>j. (k, j)) (go_tree v)) ms)"
    using assms by (auto simp: those_Some_iff)
  then obtain v where "(k, v) \<in> set ms" "go_tree v = Some j"
    by (auto simp: eq_commute [of "Some _"])
  with that show thesis by blast
qed

subsection \<open>Decoding into a struct\<close>

datatype field_kind = KString | KInt | KUint64 | KBool

datatype field_value = VStr bytes | VInt int | VUint nat | VBool bool

definition zero_value :: "field_kind \<Rightarrow> field_value" where
  "zero_value k =
    (case k of KString \<Rightarrow> VStr [] | KInt \<Rightarrow> VInt 0 | KUint64 \<Rightarrow> VUint 0 | KBool \<Rightarrow> VBool False)"

definition all_digits :: "bytes \<Rightarrow> bool" where
  "all_digits s \<longleftrightarrow> s \<noteq> [] \<and> (\<forall>c \<in> set s. is_digit c)"

definition parse_uint64 :: "bytes \<Rightarrow> nat option" where
  "parse_uint64 s =
    (if all_digits s \<and> digits_val s < 2 ^ 64 then Some (digits_val s) else None)"

definition parse_int64 :: "bytes \<Rightarrow> int option" where
  "parse_int64 s =
    (case s of
       [] \<Rightarrow> None
     | c # r \<Rightarrow>
         if c = CHR ''-'' then
           (if all_digits r \<and> digits_val r \<le> 2 ^ 63 then Some (- int (digits_val r)) else None)
         else if all_digits s \<and> digits_val s < 2 ^ 63 then Some (int (digits_val s)) else None)"

definition decode_field :: "field_kind \<Rightarrow> field_value \<Rightarrow> json \<Rightarrow> field_value option" where
  "decode_field k old j =
    (case (k, j) of
       (_, JNull) \<Rightarrow> Some old
     | (KString, JStr s) \<Rightarrow> Some (VStr s)
     | (KBool, JBool b) \<Rightarrow> Some (VBool b)
     | (KInt, JNum l) \<Rightarrow> map_option VInt (parse_int64 l)
     | (KUint64, JNum l) \<Rightarrow> map_option VUint (parse_uint64 l)
     | _ \<Rightarrow> None)"

text \<open>
  Field names are matched exactly first and then case-insensitively; besides ASCII letters, two
  non-ASCII letters (long s and the Kelvin sign) fold to ASCII.
\<close>

definition upper_byte :: "byte \<Rightarrow> byte" where
  "upper_byte c = (if 97 \<le> byte_val c \<and> byte_val c \<le> 122 then byte_of (byte_val c - 32) else c)"

function fold_name :: "bytes \<Rightarrow> bytes" where
  "fold_name [] = []"
| "fold_name (c # r) =
    (if take 2 (c # r) = [CHR 0xC5, CHR 0xBF] then CHR ''S'' # fold_name (drop 1 r)
     else if take 3 (c # r) = [CHR 0xE2, CHR 0x84, CHR 0xAA] then CHR ''K'' # fold_name (drop 2 r)
     else upper_byte c # fold_name r)"
  by pat_completeness auto
termination
  by (relation "measure length") auto

definition find_field :: "(bytes \<times> field_kind) list \<Rightarrow> bytes \<Rightarrow> (bytes \<times> field_kind) option" where
  "find_field fs k =
    (case map_of fs k of
       Some kd \<Rightarrow> Some (k, kd)
     | None \<Rightarrow> find (\<lambda>(n, kd). fold_name n = fold_name k) fs)"

type_synonym struct_env = "bytes \<Rightarrow> field_value"

definition zero_env :: "(bytes \<times> field_kind) list \<Rightarrow> struct_env" where
  "zero_env fs n = (case map_of fs n of Some k \<Rightarrow> zero_value k | None \<Rightarrow> VBool False)"

fun decode_members ::
  "(bytes \<times> field_kind) list \<Rightarrow> struct_env \<Rightarrow> (bytes \<times> json) list \<Rightarrow> struct_env option" where
  "decode_members fs env [] = Some env"
| "decode_members fs env ((k, j) # ms) =
    (case find_field fs k of
       None \<Rightarrow> None
     | Some (n, kd) \<Rightarrow>
         (case decode_field kd (env n) j of
            None \<Rightarrow> None
          | Some v \<Rightarrow> decode_members fs (env(n := v)) ms))"

definition decode_struct :: "(bytes \<times> field_kind) list \<Rightarrow> json \<Rightarrow> struct_env option" where
  "decode_struct fs j =
    (case j of
       JObj ms \<Rightarrow> decode_members fs (zero_env fs) ms
     | JNull \<Rightarrow> Some (zero_env fs)
     | _ \<Rightarrow> None)"

definition str_field :: "struct_env \<Rightarrow> bytes \<Rightarrow> bytes" where
  "str_field e n = (case e n of VStr s \<Rightarrow> s | _ \<Rightarrow> [])"

definition int_field :: "struct_env \<Rightarrow> bytes \<Rightarrow> int" where
  "int_field e n = (case e n of VInt i \<Rightarrow> i | _ \<Rightarrow> 0)"

definition uint_field :: "struct_env \<Rightarrow> bytes \<Rightarrow> nat" where
  "uint_field e n = (case e n of VUint i \<Rightarrow> i | _ \<Rightarrow> 0)"

definition bool_field :: "struct_env \<Rightarrow> bytes \<Rightarrow> bool" where
  "bool_field e n = (case e n of VBool b \<Rightarrow> b | _ \<Rightarrow> False)"

lemmas struct_field_defs = str_field_def int_field_def uint_field_def bool_field_def

lemma all_digits_dec_nat [simp]: "all_digits (dec_nat n)"
  by (auto simp: all_digits_def dest: dec_nat_digits)

lemma parse_uint64_dec_nat: "n < 2 ^ 64 \<Longrightarrow> parse_uint64 (dec_nat n) = Some n"
  by (simp add: parse_uint64_def)

lemma dec_nat_no_sign: "dec_nat n = c # r \<Longrightarrow> c \<noteq> CHR ''-''"
  using dec_nat_digits [of c n] by (auto simp: is_digit_def)

lemma parse_int64_dec_int:
  assumes "int64_range i"
  shows "parse_int64 (dec_int i) = Some i"
proof (cases "i < 0")
  case True
  with assms show ?thesis
    by (auto simp: parse_int64_def dec_int_def int64_range_def)
next
  case False
  obtain c r where d: "dec_nat (nat i) = c # r"
    by (cases "dec_nat (nat i)") auto
  then have "all_digits (c # r)" "digits_val (c # r) = nat i" "c \<noteq> CHR ''-''"
    using all_digits_dec_nat [of "nat i"] digits_val_dec_nat [of "nat i"] dec_nat_no_sign [OF d]
    by simp_all
  with False assms show ?thesis
    by (auto simp: parse_int64_def dec_int_def int64_range_def d)
qed

lemma parse_uint64_dec_int: "0 \<le> i \<Longrightarrow> i < 2 ^ 64 \<Longrightarrow> parse_uint64 (dec_int i) = Some (nat i)"
  by (simp add: dec_int_def parse_uint64_dec_nat nat_less_iff)

subsection \<open>Reading back a flat object\<close>

text \<open>
  A map of scalar values whose keys are field names of a struct is marshalled and decoded into
  that struct field by field, whatever the order of the keys.
\<close>

fun scalar_json :: "goany \<Rightarrow> json" where
  "scalar_json (AString s) = JStr s"
| "scalar_json (AInt k i) = JNum (dec_int i)"
| "scalar_json (ABool b) = JBool b"
| "scalar_json _ = JNull"

fun scalar_value :: "goany \<Rightarrow> field_value" where
  "scalar_value (AString s) = VStr s"
| "scalar_value (AInt k i) = (if k = GoUint64 then VUint (nat i) else VInt i)"
| "scalar_value (ABool b) = VBool b"
| "scalar_value _ = VBool False"

fun scalar_ok :: "field_kind option \<Rightarrow> goany \<Rightarrow> bool" where
  "scalar_ok k (AString s) \<longleftrightarrow> k = Some KString \<and> valid_utf8 s"
| "scalar_ok k (AInt kd i) \<longleftrightarrow>
    (if kd = GoUint64 then k = Some KUint64 \<and> 0 \<le> i \<and> i < 2 ^ 64 else k = Some KInt \<and> int64_range i)"
| "scalar_ok k (ABool b) \<longleftrightarrow> k = Some KBool"
| "scalar_ok k _ \<longleftrightarrow> False"

definition flat_fields :: "(bytes \<times> field_kind) list \<Rightarrow> (bytes \<times> goany) list \<Rightarrow> bool" where
  "flat_fields fs ms \<longleftrightarrow> distinct (map fst ms) \<and> (\<forall>(k, v) \<in> set fs. \<forall>c \<in> set k. byte_val c < 128) \<and>
    (\<forall>(k, v) \<in> set ms. scalar_ok (map_of fs k) v)"

lemma decode_members_flat:
  assumes "distinct (map fst ms)"
    and "\<forall>(k, j) \<in> set ms. \<exists>kd. map_of fs k = Some kd \<and> decode_field kd (env k) j = Some (val k)"
  shows "decode_members fs env ms = Some (\<lambda>n. if n \<in> fst ` set ms then val n else env n)"
  using assms
proof (induction ms arbitrary: env)
  case (Cons m ms)
  obtain k j where m: "m = (k, j)" by force
  with Cons.prems obtain kd where kd: "map_of fs k = Some kd" "decode_field kd (env k) j = Some (val k)"
    by auto
  have "decode_members fs (env(k := val k)) ms =
      Some (\<lambda>n. if n \<in> fst ` set ms then val n else (env(k := val k)) n)"
    using Cons.prems m by (intro Cons.IH) (auto simp: rev_image_eqI)
  with m kd show ?case
    by (auto simp: find_field_def)
qed simp

lemma scalar_tree: "scalar_ok k v \<Longrightarrow> go_tree v = Some (scalar_json v)"
  by (cases v) auto

lemma scalar_decode:
  "scalar_ok (Some kd) v \<Longrightarrow> decode_field kd old (scalar_json v) = Some (scalar_value v)"
  by (cases v) (auto simp: decode_field_def parse_int64_dec_int parse_uint64_dec_int split: if_splits)

lemma scalar_json_ok:
  "scalar_ok k v \<Longrightarrow> wf_numbers (scalar_json v) \<and> san (scalar_json v) = scalar_json v
    \<and> json_depth (scalar_json v) = 0"
  by (cases v) (auto simp: valid_number_dec_int sanitize_valid)

lemma map_of_distinct_rev:
  assumes "distinct (map fst xs)"
  shows "map_of (rev xs) = map_of xs"
proof -
  have "distinct (map fst (rev xs))" using assms by (simp add: rev_map [symmetric])
  with assms show ?thesis by (intro map_of_eqI) (auto simp: map_of_eq_None_iff)
qed

definition flat_doc :: "(bytes \<times> goany) list \<Rightarrow> (bytes \<times> json) list" where
  "flat_doc ms = go_map (map (\<lambda>(k, v). (k, scalar_json v)) ms)"

lemma flat_tree:
  assumes "flat_fields fs ms"
  shows "go_tree (AMap ms) = Some (JObj (flat_doc ms))"
proof -
  have "map (\<lambda>(k, v). map_option (\<lambda>j. (k, j)) (go_tree v)) ms
      = map Some (map (\<lambda>(k, v). (k, scalar_json v)) ms)"
    using assms scalar_tree by (fastforce simp: flat_fields_def)
  then have "those (map (\<lambda>(k, v). map_option (\<lambda>j. (k, j)) (go_tree v)) ms)
      = Some (map (\<lambda>(k, v). (k, scalar_json v)) ms)"
    by (simp only: those_Some_iff)
  then show ?thesis
    unfolding go_tree.simps flat_doc_def by (simp only: option.map)
qed

lemma flat_doc_keys:
  assumes "distinct (map fst ms)"
  shows "n \<in> fst ` set (flat_doc ms) \<longleftrightarrow> map_of ms n \<noteq> None"
proof -
  have "map fst (map (\<lambda>(k, v). (k, scalar_json v)) ms) = map fst ms" by (induction ms) auto
  then have "map_of (flat_doc ms) = map_of (map (\<lambda>(k, v). (k, scalar_json v)) ms)"
    using assms unfolding flat_doc_def by (simp only: map_of_go_map map_of_distinct_rev)
  then have "map_of (flat_doc ms) n = map_option scalar_json (map_of ms n)"
    by (simp add: map_of_map)
  then show ?thesis
    by (metis map_of_eq_None_iff option.map_disc_iff)
qed

lemma flat_doc_member:
  "(k, j) \<in> set (flat_doc ms) \<Longrightarrow> \<exists>v. (k, v) \<in> set ms \<and> j = scalar_json v"
  unfolding flat_doc_def using go_map_sub [of "map (\<lambda>(k, v). (k, scalar_json v)) ms"] by auto

lemma flat_doc_ok:
  assumes flat: "flat_fields fs ms" and kj: "(k, j) \<in> set (flat_doc ms)"
  shows "wf_numbers j \<and> san j = j \<and> json_depth j = 0 \<and> valid_utf8 k"
proof -
  obtain v where v: "(k, v) \<in> set ms" "j = scalar_json v"
    using flat_doc_member [OF kj] by blast
  then have ok: "scalar_ok (map_of fs k) v" using flat by (auto simp: flat_fields_def)
  then have "map_of fs k \<noteq> None" by (cases v) (auto split: if_splits)
  then obtain kd where "(k, kd) \<in> set fs" by (meson map_of_SomeD not_None_eq)
  then have "valid_utf8 k"
    using flat by (intro valid_utf8_ascii) (auto simp: flat_fields_def)
  with scalar_json_ok [OF ok] v(2) show ?thesis by simp
qed

lemma flat_doc_reads:
  assumes flat: "flat_fields fs ms"
  shows "json_decode (json_encode h (JObj (flat_doc ms))) = Some (JObj (flat_doc ms), [])"
proof -
  note mem = flat_doc_ok [OF flat]
  have wf: "wf_numbers (JObj (flat_doc ms))"
    using mem by (simp only: wf_numbers.simps) blast
  have "map (\<lambda>(k, v). (sanitize k, san v)) (flat_doc ms) = flat_doc ms"
    by (rule map_idI) (use mem in \<open>auto simp: sanitize_valid\<close>)
  then have san: "san (JObj (flat_doc ms)) = JObj (flat_doc ms)"
    by (simp only: san.simps)
  have "foldr max (map (\<lambda>(k, v). json_depth v) (flat_doc ms)) 0 \<le> 0"
    by (rule foldr_max_least) (use mem in auto)
  then have "json_depth (JObj (flat_doc ms)) \<le> max_nesting" by (simp add: max_nesting_def)
  from decode_encode [OF wf this, of h] san show ?thesis by metis
qed

lemma flat_doc_struct:
  assumes flat: "flat_fields fs ms"
  shows "decode_struct fs (JObj (flat_doc ms)) =
    Some (\<lambda>n. case map_of ms n of None \<Rightarrow> zero_env fs n | Some v \<Rightarrow> scalar_value v)"
proof -
  have dist: "distinct (map fst ms)" using flat by (simp add: flat_fields_def)
  have "\<exists>kd. map_of fs k = Some kd \<and>
      decode_field kd (zero_env fs k) j = Some (scalar_value (the (map_of ms k)))"
    if kj: "(k, j) \<in> set (flat_doc ms)" for k j
  proof -
    obtain v where v: "(k, v) \<in> set ms" "j = scalar_json v"
      using flat_doc_member [OF kj] by blast
    then have ok: "scalar_ok (map_of fs k) v" using flat by (auto simp: flat_fields_def)
    then obtain kd where "map_of fs k = Some kd" by (cases v) (auto split: if_splits)
    with v ok dist show ?thesis by (auto simp: scalar_decode)
  qed
  moreover have "distinct (map fst (flat_doc ms))"
    unfolding flat_doc_def using sorted_go_map strict_sorted_iff by blast
  ultimately have "decode_members fs (zero_env fs) (flat_doc ms) =
      Some (\<lambda>n. if n \<in> fst ` set (flat_doc ms) then scalar_value (the (map_of ms n))
        else zero_env fs n)"
    by (intro decode_members_flat) blast+
  then show ?thesis
    unfolding decode_struct_def flat_doc_keys [OF dist]
    by (auto split: option.splits)
qed

theorem read_flat_object:
  assumes flat: "flat_fields fs ms"
  obtains raw ps where "go_marshal (AMap ms) = Some raw" "json_decode raw = Some (JObj ps, [])"
    "set (map fst ps) = set (map fst ms)"
    "decode_struct fs (JObj ps) =
      Some (\<lambda>n. case map_of ms n of None \<Rightarrow> zero_env fs n | Some v \<Rightarrow> scalar_value v)"
proof -
  have "distinct (map fst ms)" using flat by (simp add: flat_fields_def)
  then have "set (map fst (flat_doc ms)) = set (map fst ms)"
    using flat_doc_keys [of ms] unfolding set_map by (simp only: map_of_eq_None_iff) blast
  moreover have "go_marshal (AMap ms) = Some (json_encode True (JObj (flat_doc ms)))"
    unfolding go_marshal_def flat_tree [OF flat] by (simp only: option.map)
  ultimately show thesis
    using that flat_doc_reads [OF flat] flat_doc_struct [OF flat] by metis
qed

subsection \<open>Everything that is marshalled is a well-formed document\<close>

definition int_part :: "bytes \<Rightarrow> bool" where
  "int_part ip \<longleftrightarrow> ip = ''0'' \<or> all_digits ip \<and> hd ip \<noteq> CHR ''0''"

lemma digits_span:
  "(\<forall>c \<in> set ds. is_digit c) \<Longrightarrow> no_digit_hd r \<Longrightarrow>
    takeWhile is_digit (ds @ r) = ds \<and> dropWhile is_digit (ds @ r) = r"
  by (cases r) (auto simp: no_digit_hd_def takeWhile_append dropWhile_append)

lemma scan_int_part: "int_part ip \<Longrightarrow> no_digit_hd r \<Longrightarrow> scan_int (ip @ r) = Some (ip, r)"
  using digits_span [of ip r]
  by (cases ip) (auto simp: int_part_def all_digits_def scan_int_def)

lemma scan_frac_part:
  "all_digits fp \<Longrightarrow> no_digit_hd r \<Longrightarrow> scan_frac (CHR ''.'' # fp @ r) = Some (CHR ''.'' # fp, r)"
  using digits_span [of fp r] by (auto simp: all_digits_def scan_frac_def)

lemma scan_exp_part:
  "all_digits ep \<Longrightarrow> s = CHR ''+'' \<or> s = CHR ''-'' \<Longrightarrow>
    scan_exp (CHR ''e'' # s # ep) = Some (CHR ''e'' # s # ep, [])"
  using digits_span [of ep "[]"]
  by (cases ep) (auto simp: all_digits_def scan_exp_def scan_exp_digits_def no_digit_hd_def)

lemma valid_number_parts:
  assumes ip: "int_part ip"
    and fp: "fp = [] \<or> (\<exists>ds. fp = CHR ''.'' # ds \<and> all_digits ds)"
    and ep: "ep = [] \<or> (\<exists>s ds. ep = CHR ''e'' # s # ds \<and> (s = CHR ''+'' \<or> s = CHR ''-'') \<and> all_digits ds)"
  shows "valid_number (ip @ fp @ ep)"
proof -
  have e: "scan_exp ep = Some (ep, [])" "no_digit_hd ep"
    using ep by (elim disjE exE conjE; simp add: scan_exp_part no_digit_hd_def is_digit_def;
        simp add: scan_exp_def)+
  have f: "scan_frac (fp @ ep) = Some (fp, ep)" "no_digit_hd (fp @ ep)"
  proof -
    show "scan_frac (fp @ ep) = Some (fp, ep)"
      using fp ep e(2) scan_frac_part [of _ ep]
      by (elim disjE exE conjE) (simp_all add: scan_frac_def)
    show "no_digit_hd (fp @ ep)"
      using fp e(2) by (auto simp: no_digit_hd_def is_digit_def)
  qed
  have u: "scan_unsigned (ip @ fp @ ep) = Some (ip @ fp @ ep, [])"
    using scan_int_part [OF ip f(2)] f(1) e(1) by (simp add: scan_unsigned_def)
  obtain c r where c: "ip = c # r" using ip by (cases ip) (auto simp: int_part_def all_digits_def)
  then have "is_digit c" using ip by (auto simp: int_part_def all_digits_def is_digit_def)
  then have "c \<noteq> CHR ''-''" by (auto simp: is_digit_def)
  with u c show ?thesis by (simp add: valid_number_def scan_number_def)
qed

lemma int_part_dec_nat: "0 < m \<Longrightarrow> int_part (dec_nat m)"
  using hd_dec_nat_nonzero by (simp add: int_part_def)

lemma all_digits_append: "all_digits s \<Longrightarrow> \<forall>c \<in> set t. is_digit c \<Longrightarrow> all_digits (s @ t)"
  by (auto simp: all_digits_def)

lemma all_digits_take: "all_digits s \<Longrightarrow> 0 < n \<Longrightarrow> all_digits (take n s)"
  by (auto simp: all_digits_def dest: in_set_takeD)

lemma all_digits_drop: "all_digits s \<Longrightarrow> n < length s \<Longrightarrow> all_digits (drop n s)"
  by (auto simp: all_digits_def dest: in_set_dropD)

lemma valid_float_plain:
  assumes "0 < m"
  shows "valid_number (float_plain (dec_nat m) dp)"
proof -
  let ?ds = "dec_nat m"
  have zero: "is_digit (CHR ''0'')" by (simp add: is_digit_def)
  consider "dp \<le> 0" | "0 < dp" "int (length ?ds) \<le> dp" | "0 < dp" "dp < int (length ?ds)" by linarith
  then show ?thesis
  proof cases
    case 1
    have "all_digits (replicate (nat (- dp)) (CHR ''0'') @ ?ds)"
      using zero all_digits_dec_nat [of m] by (auto simp: all_digits_def)
    then have "valid_number (''0'' @ (CHR ''.'' # replicate (nat (- dp)) (CHR ''0'') @ ?ds) @ [])"
      by (intro valid_number_parts) (auto simp: int_part_def)
    with 1 show ?thesis by (simp add: float_plain_def)
  next
    case 2
    have "int_part (?ds @ replicate (nat dp - length ?ds) (CHR ''0''))"
      using all_digits_append [OF all_digits_dec_nat] zero hd_dec_nat_nonzero [OF assms]
      by (simp add: int_part_def hd_append)
    with valid_number_parts [of _ "[]" "[]"] 2 show ?thesis by (simp add: float_plain_def)
  next
    case 3
    have "int_part (take (nat dp) ?ds)"
      using int_part_dec_nat [OF assms] 3 all_digits_take [of ?ds "nat dp"] hd_dec_nat_nonzero [OF assms]
      by (simp add: int_part_def)
    moreover have "all_digits (drop (nat dp) ?ds)"
      using 3 by (intro all_digits_drop) auto
    ultimately have "valid_number (take (nat dp) ?ds @ (CHR ''.'' # drop (nat dp) ?ds) @ [])"
      by (intro valid_number_parts) auto
    with 3 show ?thesis by (simp add: float_plain_def)
  qed
qed

lemma valid_float_sci:
  assumes "0 < m"
  shows "valid_number (float_sci (dec_nat m) dp)"
proof -
  let ?ds = "dec_nat m"
  let ?f = "if length ?ds \<le> 1 then [] else CHR ''.'' # drop 1 ?ds"
  have "int_part (take 1 ?ds)"
    using int_part_dec_nat [OF assms] all_digits_take [of ?ds 1] hd_dec_nat_nonzero [OF assms]
    by (simp add: int_part_def)
  moreover have "?f = [] \<or> (\<exists>ds. ?f = CHR ''.'' # ds \<and> all_digits ds)"
    using all_digits_drop [OF all_digits_dec_nat, of 1 m] by auto
  ultimately have "valid_number (take 1 ?ds @ ?f @
      (CHR ''e'' # (if dp - 1 < 0 then CHR ''-'' else CHR ''+'') # dec_nat (nat \<bar>dp - 1\<bar>)))"
    by (intro valid_number_parts) auto
  moreover have "float_sci ?ds dp = take 1 ?ds @ ?f @
      (CHR ''e'' # (if dp - 1 < 0 then CHR ''-'' else CHR ''+'') # dec_nat (nat \<bar>dp - 1\<bar>))"
    by (simp only: float_sci_def Let_def) simp
  ultimately show ?thesis by (simp only:)
qed

lemma valid_head: "valid_number s \<Longrightarrow> is_digit (hd s) \<Longrightarrow> valid_number (CHR ''-'' # s)"
  by (rule valid_number_neg) (auto simp: is_digit_def)

lemma valid_float_json: "float_json f = Some s \<Longrightarrow> valid_number s"
proof -
  assume s: "float_json f = Some s"
  then obtain neg m e where f: "f = FDec neg m e" by (cases f) (auto simp: float_json_def)
  define body where "body = (if m = 0 then ''0'' else
    let ds = dec_nat m; dp = int (length ds) + e in
      if dp < - 5 \<or> dp > 21 then float_sci ds dp else float_plain ds dp)"
  have "valid_number body"
    using valid_float_plain valid_float_sci valid_number_parts [of "''0''" "[]" "[]"]
    by (auto simp: body_def Let_def int_part_def)
  moreover have "is_digit (hd body)"
    using dec_nat_digits [of "hd (dec_nat m)" m]
    by (auto simp: body_def Let_def float_sci_def float_plain_def is_digit_def hd_append)
  moreover have "s = (if neg then ''-'' else []) @ body"
    using s by (simp add: f body_def float_json_def)
  ultimately show ?thesis using valid_head by auto
qed

theorem go_tree_numbers: "go_tree v = Some t \<Longrightarrow> wf_numbers t"
proof (induction v arbitrary: t)
  case (ASlice vs)
  then obtain ts where ts: "map go_tree vs = map Some ts" "t = JArr ts"
    by (auto simp: those_Some_iff)
  have "wf_numbers u" if "u \<in> set ts" for u
  proof -
    have "Some u \<in> set (map go_tree vs)" unfolding ts(1) using that by simp
    then show ?thesis using ASlice.IH by auto
  qed
  with ts(2) show ?case by simp
next
  case (AMap ms)
  then obtain xs where xs: "those (map (\<lambda>(k, v). map_option (\<lambda>j. (k, j)) (go_tree v)) ms) = Some xs"
    "t = JObj (go_map xs)" by auto
  have "wf_numbers j" if "(k, j) \<in> set (go_map xs)" for k j
  proof -
    from that go_map_sub have "(k, j) \<in> set xs" by blast
    from go_tree_numbers_member [OF xs(1) this]
    obtain v where "(k, v) \<in> set ms" "go_tree v = Some j" by blast
    with AMap.IH [of "(k, v)" v j] show ?thesis by (simp add: snds.simps)
  qed
  with xs(2) show ?case by auto
next
  case (AStruct ms)
  then obtain xs where xs: "those (map (\<lambda>(k, v). map_option (\<lambda>j. (k, j)) (go_tree v)) ms) = Some xs"
    "t = JObj xs" by auto
  have "wf_numbers j" if "(k, j) \<in> set xs" for k j
  proof -
    from go_tree_numbers_member [OF xs(1) that]
    obtain v where "(k, v) \<in> set ms" "go_tree v = Some j" by blast
    with AStruct.IH [of "(k, v)" v j] show ?thesis by (simp add: snds.simps)
  qed
  with xs(2) show ?case by auto
qed (auto simp: valid_number_dec_int valid_float_json valid_number_parts [of "''0''" "[]" "[]", simplified]
    int_part_def split: if_splits)

end
