(* ===== verification/Sha256.thy ===== *)
theory Sha256
  imports Prelude
begin

unbundle bit_operations_syntax

section \<open>SHA-256\<close>

text \<open>
  The hash of \<^verbatim>\<open>crypto/sha256\<close>, written out so that digests are computed and not
  assumed: FIPS 180-4 over 32-bit words.  Nothing in the development assumes that it is injective
  or hard to invert; statements about digests speak of the bytes that were hashed.
\<close>

type_synonym w32 = "32 word"

text \<open>
  The constants are the first 32 bits of the fractional parts of the cube roots (round constants)
  and square roots (initial state) of the first primes, computed bit by bit.
\<close>

primrec iroot :: "nat \<Rightarrow> nat \<Rightarrow> nat \<Rightarrow> nat \<Rightarrow> nat" where
  "iroot k n 0 acc = acc"
| "iroot k n (Suc b) acc = iroot k n b (if (acc + 2 ^ b) ^ k \<le> n then acc + 2 ^ b else acc)"

definition root_bits :: "nat \<Rightarrow> nat \<Rightarrow> w32" where
  "root_bits k p = word_of_nat (iroot k (p * 2 ^ (32 * k)) 37 0)"

definition sha_primes :: "nat list" where
  "sha_primes = filter (\<lambda>p. \<forall>d \<in> set [2..<p]. p mod d \<noteq> 0) [2..<312]"

definition sha_k :: "w32 list" where
  "sha_k = map (root_bits 3) sha_primes"

datatype sha_state = ShaState w32 w32 w32 w32 w32 w32 w32 w32

definition sha_init :: sha_state where
  "sha_init =
    (let r = (\<lambda>i. root_bits 2 (sha_primes ! i))
     in ShaState (r 0) (r 1) (r 2) (r 3) (r 4) (r 5) (r 6) (r 7))"

definition rotr :: "nat \<Rightarrow> w32 \<Rightarrow> w32" where
  "rotr n x = (drop_bit n x) OR (push_bit (32 - n) x)"

text \<open>One round consumes a message word and a round constant.\<close>

fun sha_round :: "sha_state \<Rightarrow> w32 \<times> w32 \<Rightarrow> sha_state" where
  "sha_round (ShaState a b c d e f g h) (k, w) =
    (let s1 = rotr 6 e XOR rotr 11 e XOR rotr 25 e;
         ch = (e AND f) XOR (NOT e AND g);
         t1 = h + s1 + ch + k + w;
         s0 = rotr 2 a XOR rotr 13 a XOR rotr 22 a;
         maj = (a AND b) XOR (a AND c) XOR (b AND c)
     in ShaState (t1 + s0 + maj) a b c (d + t1) e f g)"

text \<open>The message schedule: \<open>n\<close> further words after the given ones (most recent last).\<close>

fun sha_schedule :: "nat \<Rightarrow> w32 list \<Rightarrow> w32 list" where
  "sha_schedule 0 ws = ws"
| "sha_schedule (Suc n) ws =
    (let l = length ws;
         x = ws ! (l - 15);
         y = ws ! (l - 2);
         s0 = rotr 7 x XOR rotr 18 x XOR drop_bit 3 x;
         s1 = rotr 17 y XOR rotr 19 y XOR drop_bit 10 y
     in sha_schedule n (ws @ [ws ! (l - 16) + s0 + ws ! (l - 7) + s1]))"

definition word_of_bytes :: "bytes \<Rightarrow> w32" where
  "word_of_bytes bs = word_of_nat (foldl (\<lambda>n b. n * 256 + byte_val b) 0 bs)"

definition bytes_of_word :: "w32 \<Rightarrow> bytes" where
  "bytes_of_word w = map (\<lambda>i. byte_of (unat w div 256 ^ (3 - i) mod 256)) [0, 1, 2, 3]"

fun chunks :: "nat \<Rightarrow> bytes \<Rightarrow> bytes list" where
  "chunks n bs =
    (if n = 0 \<or> length bs \<le> n then (if bs = [] then [] else [bs])
     else take n bs # chunks n (drop n bs))"

declare chunks.simps [simp del]

fun sha_add :: "sha_state \<Rightarrow> sha_state \<Rightarrow> sha_state" where
  "sha_add (ShaState a b c d e f g h) (ShaState a' b' c' d' e' f' g' h') =
    ShaState (a + a') (b + b') (c + c') (d + d') (e + e') (f + f') (g + g') (h + h')"

definition sha_block :: "sha_state \<Rightarrow> bytes \<Rightarrow> sha_state" where
  "sha_block st blk =
    sha_add st (foldl sha_round st (zip sha_k (sha_schedule 48 (map word_of_bytes (chunks 4 blk)))))"

definition sha_pad :: "bytes \<Rightarrow> bytes" where
  "sha_pad bs =
    (let l = length bs; z = (119 - l mod 64) mod 64
     in bs @ byte_of 128 # replicate z (byte_of 0) @
        map (\<lambda>i. byte_of (8 * l div 256 ^ (7 - i) mod 256)) [0, 1, 2, 3, 4, 5, 6, 7])"

fun sha_output :: "sha_state \<Rightarrow> bytes" where
  "sha_output (ShaState a b c d e f g h) = concat (map bytes_of_word [a, b, c, d, e, f, g, h])"

definition sum256 :: "bytes \<Rightarrow> bytes" where
  "sum256 bs = sha_output (foldl sha_block sha_init (chunks 64 (sha_pad bs)))"

lemma length_sum256 [simp]: "length (sum256 bs) = 32"
proof -
  have "length (sha_output st) = 32" for st
    by (cases st) (simp add: bytes_of_word_def)
  then show ?thesis by (simp add: sum256_def)
qed

end
