(* ===== verification/Canonical_Json.thy ===== *)
theory Canonical_Json
  imports Go_Value Sha256
begin

section \<open>Canonical JSON and digests (\<^verbatim>\<open>internal/canonicaljson\<close>)\<close>

text \<open>
  \<open>Marshal\<close> follows the source: marshal, decode into \<^verbatim>\<open>any\<close> with
  \<^verbatim>\<open>UseNumber\<close>, refuse object keys outside ASCII, encode again without HTML escaping.
  The theorems show that the result is a normal form: decoding it gives a document that encodes
  to the same bytes, and equal bytes come from equal documents.
\<close>

subsection \<open>Model\<close>

fun validateASCIIObjectKeys :: "json \<Rightarrow> bool" where
  "validateASCIIObjectKeys (JObj ms) =
    (\<forall>(k, v) \<in> set ms. (\<forall>c \<in> set k. byte_val c < 128) \<and> validateASCIIObjectKeys v)"
| "validateASCIIObjectKeys (JArr vs) = (\<forall>v \<in> set vs. validateASCIIObjectKeys v)"
| "validateASCIIObjectKeys _ = True"

datatype canonical_error = MarshalError | DecodeError | KeyNotASCII

definition Marshal :: "goany \<Rightarrow> (canonical_error, bytes) result" where
  "Marshal v =
    (case go_marshal v of
       None \<Rightarrow> Inl MarshalError
     | Some raw \<Rightarrow>
         (case json_decode raw of
            None \<Rightarrow> Inl DecodeError
          | Some (doc, _) \<Rightarrow>
              let normalized = as_any doc in
              if \<not> validateASCIIObjectKeys normalized then Inl KeyNotASCII
              else Inr (json_encode False normalized)))"

definition sha256_label :: "bytes \<Rightarrow> bytes" where
  "sha256_label raw = ''sha256:'' @ hex_encode (sum256 raw)"

definition Digest :: "goany \<Rightarrow> (canonical_error, bytes) result" where
  "Digest v = (case Marshal v of Inl e \<Rightarrow> Inl e | Inr raw \<Rightarrow> Inr (sha256_label raw))"

subsection \<open>The canonical form\<close>

text \<open>The Go value that decoding a document into \<^verbatim>\<open>any\<close> with \<^verbatim>\<open>UseNumber\<close> gives.\<close>

fun any_of :: "json \<Rightarrow> goany" where
  "any_of JNull = ANil"
| "any_of (JBool b) = ABool b"
| "any_of (JNum s) = ANumber s"
| "any_of (JStr s) = AString s"
| "any_of (JArr vs) = ASlice (map any_of vs)"
| "any_of (JObj ms) = AMap (map (\<lambda>(k, v). (k, any_of v)) ms)"

lemma go_tree_any_of: "canonical_json j \<Longrightarrow> go_tree (any_of j) = Some j"
proof (induction j)
  case (JNum s)
  then show ?case by (auto simp: valid_number_def scan_number_def)
next
  case (JArr vs)
  then have "map (go_tree \<circ> any_of) vs = map Some vs" by simp
  then show ?case by (simp add: those_Some_iff)
next
  case (JObj ms)
  then have "map ((\<lambda>(k, v). map_option (\<lambda>j. (k, j)) (go_tree v)) \<circ> (\<lambda>(k, v). (k, any_of v))) ms
      = map Some ms"
    by (fastforce simp: snds.simps)
  then have "those (map (\<lambda>(k, v). map_option (\<lambda>j. (k, j)) (go_tree v))
      (map (\<lambda>(k, v). (k, any_of v)) ms)) = Some ms"
    by (simp add: those_Some_iff)
  with JObj show ?case by (simp add: go_map_sorted)
qed auto

lemma Marshal_Inr:
  assumes "Marshal v = Inr raw"
  obtains j where "canonical_json j" "json_depth j \<le> max_nesting" "validateASCIIObjectKeys j"
    "json_encode False j = raw" "json_decode raw = Some (j, [])"
proof -
  obtain doc r where d: "json_decode (the (go_marshal v)) = Some (doc, r)"
    and k: "validateASCIIObjectKeys (as_any doc)" and raw: "json_encode False (as_any doc) = raw"
    using assms by (auto simp: Marshal_def Let_def split: option.splits if_splits)
  have ok: "canonical_json (as_any doc) \<and> json_depth (as_any doc) \<le> max_nesting"
    using d by (rule json_decode_ok)
  then have "json_decode raw = Some (as_any doc, [])"
    using decode_canonical raw by blast
  with that ok k raw show thesis by blast
qed

lemma Marshal_tree:
  assumes "go_tree v = Some t"
  shows "Marshal v =
    (if json_depth t > max_nesting then Inl DecodeError
     else if validateASCIIObjectKeys (as_any (san t))
     then Inr (json_encode False (as_any (san t))) else Inl KeyNotASCII)"
  using decode_encode_iff [OF go_tree_numbers [OF assms], of True] assms
  by (simp add: Marshal_def go_marshal_def)

lemma Marshal_InrD:
  assumes "Marshal v = Inr raw"
  obtains t where "go_tree v = Some t" "json_depth t \<le> max_nesting"
    "validateASCIIObjectKeys (as_any (san t))" "raw = json_encode False (as_any (san t))"
proof -
  obtain t where t: "go_tree v = Some t"
    using assms by (cases "go_tree v") (auto simp: Marshal_def go_marshal_def)
  from Marshal_tree [OF t] assms show thesis
    by (intro that [OF t]) (auto simp: not_less split: if_splits)
qed

lemma Marshal_canonical:
  assumes "canonical_json j" "json_depth j \<le> max_nesting" "validateASCIIObjectKeys j"
  shows "Marshal (any_of j) = Inr (json_encode False j)"
  using Marshal_tree [OF go_tree_any_of [OF assms(1)]] canonical_fixed [OF assms(1)] assms
  by (metis not_less)

lemma Digest_Inr_iff: "Digest v = Inr d \<longleftrightarrow> (\<exists>raw. Marshal v = Inr raw \<and> d = sha256_label raw)"
  by (auto simp: Digest_def split: sum.splits)

lemma Digest_collision:
  assumes "Digest v = Inr d" and "Digest w = Inr d"
  shows "Marshal v = Marshal w \<or> (\<exists>x y. x \<noteq> y \<and> sum256 x = sum256 y)"
proof -
  obtain a b where "Marshal v = Inr a" "Marshal w = Inr b" "sha256_label a = sha256_label b"
    using assms by (auto simp: Digest_Inr_iff)
  then show ?thesis
    by (auto simp: sha256_label_def hex_encode_inj)
qed

lemma length_sha256_label: "length (sha256_label raw) = 71"
  by (simp add: sha256_label_def)

subsection \<open>Values that always have a digest\<close>

text \<open>
  A value without NaN, infinities, malformed numbers or times out of range, whose map and struct
  keys are ASCII, is marshalled, and has a digest unless it is nested too deeply.
\<close>

definition ascii_text :: "bytes \<Rightarrow> bool" where
  "ascii_text k \<longleftrightarrow> (\<forall>c \<in> set k. byte_val c < 128)"

fun plain :: "goany \<Rightarrow> bool" where
  "plain (AFloat32 f) \<longleftrightarrow> float_json f \<noteq> None"
| "plain (AFloat64 f) \<longleftrightarrow> float_json f \<noteq> None"
| "plain (ANumber s) \<longleftrightarrow> s = [] \<or> valid_number s"
| "plain (ASlice vs) \<longleftrightarrow> (\<forall>v \<in> set vs. plain v)"
| "plain (AMap ms) \<longleftrightarrow> (\<forall>(k, v) \<in> set ms. ascii_text k \<and> plain v)"
| "plain (AStruct ms) \<longleftrightarrow> (\<forall>(k, v) \<in> set ms. ascii_text k \<and> plain v)"
| "plain AMarshalError \<longleftrightarrow> False"
| "plain _ \<longleftrightarrow> True"

fun any_depth :: "goany \<Rightarrow> nat" where
  "any_depth (ASlice vs) = Suc (foldr max (map any_depth vs) 0)"
| "any_depth (AMap ms) = Suc (foldr max (map (\<lambda>(k, v). any_depth v) ms) 0)"
| "any_depth (AStruct ms) = Suc (foldr max (map (\<lambda>(k, v). any_depth v) ms) 0)"
| "any_depth _ = 0"

fun ascii_tree :: "json \<Rightarrow> bool" where
  "ascii_tree (JArr vs) \<longleftrightarrow> (\<forall>v \<in> set vs. ascii_tree v)"
| "ascii_tree (JObj ms) \<longleftrightarrow> (\<forall>(k, v) \<in> set ms. ascii_text k \<and> ascii_tree v)"
| "ascii_tree _ \<longleftrightarrow> True"

lemma those_members:
  assumes "\<forall>(k, v) \<in> set ms. \<exists>t. go_tree v = Some t \<and> P k v t"
  shows "\<exists>xs. those (map (\<lambda>(k, v). map_option (\<lambda>j. (k, j)) (go_tree v)) ms) = Some xs \<and>
    (\<forall>(k, t) \<in> set xs. \<exists>v. (k, v) \<in> set ms \<and> P k v t)"
  using assms
proof (induction ms)
  case (Cons m ms)
  obtain k v where m: "m = (k, v)" by force
  with Cons.prems obtain t where t: "go_tree v = Some t" "P k v t" by auto
  from Cons.prems have "\<forall>(k, v) \<in> set ms. \<exists>t. go_tree v = Some t \<and> P k v t" by simp
  from Cons.IH [OF this] obtain xs where xs:
    "those (map (\<lambda>(k, v). map_option (\<lambda>j. (k, j)) (go_tree v)) ms) = Some xs"
    "\<forall>(k, t) \<in> set xs. \<exists>v. (k, v) \<in> set ms \<and> P k v t" by blast
  from xs(2) t(2) have "\<forall>(k', t') \<in> set ((k, t) # xs). \<exists>v. (k', v) \<in> set (m # ms) \<and> P k' v t'"
    unfolding m by fastforce
  with xs(1) t(1) m show ?case by (intro exI [of _ "(k, t) # xs"]) simp
qed simp

lemma those_elements:
  assumes "\<forall>v \<in> set vs. \<exists>t. go_tree v = Some t \<and> P v t"
  shows "\<exists>ts. those (map go_tree vs) = Some ts \<and> (\<forall>t \<in> set ts. \<exists>v \<in> set vs. P v t)"
  using assms
proof (induction vs)
  case (Cons v vs)
  then obtain t ts where "go_tree v = Some t" "P v t" "those (map go_tree vs) = Some ts"
    "\<forall>t \<in> set ts. \<exists>v \<in> set vs. P v t" by auto
  then show ?case by (intro exI [of _ "t # ts"]) auto
qed simp

lemma member_depth:
  assumes "\<forall>(k, t) \<in> set xs. \<exists>v. (k, v) \<in> set ms \<and> ascii_text k \<and> ascii_tree t \<and> json_depth t \<le> any_depth v"
  shows "foldr max (map (\<lambda>(k, t). json_depth t) xs) 0 \<le> foldr max (map (\<lambda>(k, v). any_depth v) ms) 0"
proof (rule foldr_max_least)
  fix d assume "d \<in> set (map (\<lambda>(k, t). json_depth t) xs)"
  then obtain k t where "(k, t) \<in> set xs" "d = json_depth t" by auto
  with assms obtain v where "(k, v) \<in> set ms" "d \<le> any_depth v" by fastforce
  moreover from this(1) have "any_depth v \<in> set (map (\<lambda>(k, v). any_depth v) ms)" by force
  ultimately show "d \<le> foldr max (map (\<lambda>(k, v). any_depth v) ms) 0"
    using foldr_max_le le_trans by blast
qed

lemma plain_tree:
  "plain v \<Longrightarrow> \<exists>t. go_tree v = Some t \<and> ascii_tree t \<and> json_depth t \<le> any_depth v"
proof (induction v)
  case (ASlice vs)
  then have "\<forall>v \<in> set vs. \<exists>t. go_tree v = Some t \<and> ascii_tree t \<and> json_depth t \<le> any_depth v" by simp
  from those_elements [OF this] obtain ts where ts: "those (map go_tree vs) = Some ts"
    "\<forall>t \<in> set ts. \<exists>v \<in> set vs. ascii_tree t \<and> json_depth t \<le> any_depth v" by blast
  have "foldr max (map json_depth ts) 0 \<le> foldr max (map any_depth vs) 0"
  proof (rule foldr_max_least)
    fix d assume "d \<in> set (map json_depth ts)"
    with ts(2) obtain v where "v \<in> set vs" "d \<le> any_depth v" by auto
    then show "d \<le> foldr max (map any_depth vs) 0"
      using foldr_max_le [of "any_depth v" "map any_depth vs"] by simp
  qed
  with ts show ?case by auto
next
  case (AMap ms)
  have "\<forall>(k, v) \<in> set ms. \<exists>t. go_tree v = Some t \<and> ascii_text k \<and> ascii_tree t \<and> json_depth t \<le> any_depth v"
    using AMap by (fastforce simp: snds.simps)
  from those_members [OF this] obtain xs where xs:
    "those (map (\<lambda>(k, v). map_option (\<lambda>j. (k, j)) (go_tree v)) ms) = Some xs"
    "\<forall>(k, t) \<in> set xs. \<exists>v. (k, v) \<in> set ms \<and> ascii_text k \<and> ascii_tree t \<and> json_depth t \<le> any_depth v"
    by blast
  have "foldr max (map (\<lambda>(k, t). json_depth t) (go_map xs)) 0 \<le> foldr max (map (\<lambda>(k, v). any_depth v) ms) 0"
    using xs(2) go_map_sub [of xs] by (intro member_depth) blast
  moreover have "ascii_tree (JObj (go_map xs))"
    using xs(2) go_map_sub [of xs] by fastforce
  ultimately show ?case using xs(1) by auto
next
  case (AStruct ms)
  have "\<forall>(k, v) \<in> set ms. \<exists>t. go_tree v = Some t \<and> ascii_text k \<and> ascii_tree t \<and> json_depth t \<le> any_depth v"
    using AStruct by (fastforce simp: snds.simps)
  from those_members [OF this] obtain xs where xs:
    "those (map (\<lambda>(k, v). map_option (\<lambda>j. (k, j)) (go_tree v)) ms) = Some xs"
    "\<forall>(k, t) \<in> set xs. \<exists>v. (k, v) \<in> set ms \<and> ascii_text k \<and> ascii_tree t \<and> json_depth t \<le> any_depth v"
    by blast
  from member_depth [OF xs(2)] xs show ?case by fastforce
qed auto

lemma validate_ascii_tree: "ascii_tree t \<Longrightarrow> validateASCIIObjectKeys (as_any (san t))"
proof (induction t)
  case (JObj ms)
  let ?xs = "map (\<lambda>(k, v). (k, as_any v)) (map (\<lambda>(k, v). (sanitize k, san v)) ms)"
  have "(\<forall>c \<in> set k. byte_val c < 128) \<and> validateASCIIObjectKeys v" if "(k, v) \<in> set ?xs" for k v
  proof -
    obtain k' v' where m: "(k', v') \<in> set ms" "k = sanitize k'" "v = as_any (san v')"
      using \<open>(k, v) \<in> set ?xs\<close> by auto
    with JObj.prems have "ascii_text k'" "ascii_tree v'" by auto
    with m JObj.IH [OF m(1), of v'] show ?thesis by (simp add: ascii_text_def sanitize_ascii snds.simps)
  qed
  with go_map_sub [of ?xs] show ?case
    by (simp only: san.simps as_any.simps validateASCIIObjectKeys.simps) blast
qed simp_all

theorem plain_digest:
  assumes "plain v" and "any_depth v \<le> max_nesting"
  shows "\<exists>d. Digest v = Inr d"
proof -
  obtain t where t: "go_tree v = Some t" "ascii_tree t" "json_depth t \<le> any_depth v"
    using plain_tree [OF assms(1)] by blast
  then show ?thesis
    using Marshal_tree [OF t(1)] validate_ascii_tree [OF t(2)] assms(2) by (simp add: Digest_def)
qed

subsection \<open>Properties\<close>

text \<open>
  C1.  What \<open>Marshal\<close> returns is a normal form: it decodes, with nothing left over, to a
  document with sorted and distinct ASCII keys, and marshalling the value decoded from it gives
  the same bytes again.
\<close>

theorem Marshal_normal_form:
  assumes "Marshal v = Inr raw"
  shows "\<exists>j. json_decode raw = Some (j, []) \<and> canonical_json j \<and> validateASCIIObjectKeys j \<and>
    Marshal (any_of j) = Inr raw"
  using assms Marshal_canonical by (elim Marshal_Inr) blast

theorem Marshal_normal_form_witness:
  "Marshal (AMap [(''b'', AInt GoInt 1), (''a'', ASlice [ABool True])]) =
      Inr (CHR 0x7B # quote False ''a'' @ '':[true],'' @ quote False ''b'' @ '':1}'') \<and>
    (\<exists>j. json_decode (CHR 0x7B # quote False ''a'' @ '':[true],'' @ quote False ''b'' @ '':1}'') =
        Some (j, []) \<and>
      canonical_json j \<and> validateASCIIObjectKeys j \<and>
      Marshal (any_of j) =
        Inr (CHR 0x7B # quote False ''a'' @ '':[true],'' @ quote False ''b'' @ '':1}''))"
proof -
  let ?v = "AMap [(''b'', AInt GoInt 1), (''a'', ASlice [ABool True])]"
  let ?t = "JObj [(''a'', JArr [JBool True]), (''b'', JNum ''1'')]"
  have num: "dec_int 1 = ''1''"
    by code_simp
  have t: "go_tree ?v = Some ?t"
    by (simp add: go_map_def num)
  have ok: "canonical_json ?t" "json_depth ?t \<le> max_nesting" "validateASCIIObjectKeys ?t"
    using valid_number_dec_int [of 1]
    by (simp_all add: valid_utf8_ascii max_nesting_def num del: valid_utf8.simps)
  have m: "Marshal ?v = Inr (json_encode False ?t)"
    using Marshal_tree [OF t] canonical_fixed [OF ok(1)] ok by (metis not_less)
  have e: "json_encode False ?t =
      CHR 0x7B # quote False ''a'' @ '':[true],'' @ quote False ''b'' @ '':1}''"
    by simp
  from m Marshal_normal_form [OF m] show ?thesis
    unfolding e by blast
qed

text \<open>
  C2.  Two values marshal to the same bytes exactly when they denote the same document, after
  the replacement of invalid UTF-8 and with the members of objects compared as a map.
\<close>

theorem Marshal_eq_iff:
  assumes "Marshal v = Inr raw" and "go_tree v = Some t"
    and "go_tree w = Some u" and "json_depth u \<le> max_nesting"
  shows "Marshal w = Inr raw \<longleftrightarrow> as_any (san u) = as_any (san t)"
proof -
  have t: "json_depth t \<le> max_nesting" "validateASCIIObjectKeys (as_any (san t))"
    "raw = json_encode False (as_any (san t))"
    using Marshal_tree [OF assms(2)] assms(1) by (auto simp: not_less split: if_splits)
  note wf = go_tree_numbers [OF assms(2)] go_tree_numbers [OF assms(3)]
  have can: "canonical_json (as_any (san t))" "json_depth (as_any (san t)) \<le> max_nesting"
    "canonical_json (as_any (san u))" "json_depth (as_any (san u)) \<le> max_nesting"
    using json_decode_ok decode_encode wf t(1) assms(4) by blast+
  show ?thesis
    using Marshal_tree [OF assms(3)] canonical_encode_inj [OF can(1,2,3,4)] t assms(4)
    by (metis Inr_inject Inl_Inr_False not_less)
qed

theorem Marshal_eq_iff_witness:
  "Marshal (AInt GoUint8 7) = Inr (dec_int 7)
     \<longleftrightarrow> as_any (san (JNum (dec_int 7))) = as_any (san (JNum (dec_int 7)))"
proof -
  have t: "go_tree (AInt k 7) = Some (JNum (dec_int 7))" for k by simp
  have m: "Marshal (AInt GoInt 7) = Inr (dec_int 7)"
    using Marshal_tree [OF t] by simp
  have "json_depth (JNum (dec_int 7)) \<le> max_nesting" by simp
  from Marshal_eq_iff [OF m t t this] show ?thesis .
qed



end
