(* ===== verification/Go_Time.thy ===== *)
theory Go_Time
  imports Go_Value
begin

section \<open>Times and durations of the \<^verbatim>\<open>time\<close> package\<close>

text \<open>
  A \<^verbatim>\<open>time.Time\<close> is the number of nanoseconds since the year 1 in UTC, the offset of
  its location in seconds and the monotonic clock reading it may carry.  The proleptic Gregorian
  date, the RFC 3339 text that \<^verbatim>\<open>MarshalJSON\<close> writes, its year and zone checks, and the
  comparisons and differences the sources use are written out.
\<close>

record gotime =
  t_ns :: int
  t_off :: int
  t_mono :: "int option"

definition IsZero :: "gotime \<Rightarrow> bool" where
  "IsZero t \<longleftrightarrow> t_ns t = 0"

definition UTC :: "gotime \<Rightarrow> gotime" where
  "UTC t = t\<lparr>t_off := 0, t_mono := None\<rparr>"

definition Before :: "gotime \<Rightarrow> gotime \<Rightarrow> bool" where
  "Before t u \<longleftrightarrow>
    (case (t_mono t, t_mono u) of
       (Some m, Some n) \<Rightarrow> m < n
     | _ \<Rightarrow> t_ns t < t_ns u)"

text \<open>A difference saturates at the limits of \<^verbatim>\<open>time.Duration\<close>.\<close>

definition clamp64 :: "int \<Rightarrow> int" where
  "clamp64 d = max (- (2 ^ 63)) (min (2 ^ 63 - 1) d)"

definition Sub :: "gotime \<Rightarrow> gotime \<Rightarrow> int" where
  "Sub t u =
    (case (t_mono t, t_mono u) of
       (Some m, Some n) \<Rightarrow> clamp64 (m - n)
     | _ \<Rightarrow> clamp64 (t_ns t - t_ns u))"

text \<open>Go's integer division truncates towards zero.\<close>

definition trunc_div :: "int \<Rightarrow> int \<Rightarrow> int" where
  "trunc_div a b = sgn a * sgn b * (\<bar>a\<bar> div \<bar>b\<bar>)"

definition trunc_mod :: "int \<Rightarrow> int \<Rightarrow> int" where
  "trunc_mod a b = a - b * trunc_div a b"

definition Milliseconds :: "int \<Rightarrow> int" where
  "Milliseconds d = trunc_div d 1000000"

subsection \<open>Civil time\<close>

record civil =
  c_year :: int
  c_month :: nat
  c_day :: nat
  c_hour :: nat
  c_min :: nat
  c_sec :: nat
  c_nsec :: nat

text \<open>The date of the n-th day after 0001-01-01, by eras of 400 years that start in March.\<close>

definition civil_of_days :: "int \<Rightarrow> int \<times> nat \<times> nat" where
  "civil_of_days n =
    (let z = n + 306;
         era = z div 146097;
         doe = z mod 146097;
         yoe = (doe - doe div 1460 + doe div 36524 - doe div 146096) div 365;
         doy = doe - (365 * yoe + yoe div 4 - yoe div 100);
         mp = (5 * doy + 2) div 153;
         d = doy - (153 * mp + 2) div 5 + 1;
         m = (if mp < 10 then mp + 3 else mp - 9)
     in (yoe + era * 400 + (if m \<le> 2 then 1 else 0), nat m, nat d))"

definition civil_of :: "gotime \<Rightarrow> civil" where
  "civil_of t =
    (let ns = t_ns t + t_off t * 1000000000;
         secs = ns div 1000000000;
         s = nat (secs mod 86400)
     in case civil_of_days (secs div 86400) of (y, m, d) \<Rightarrow>
       \<lparr>c_year = y, c_month = m, c_day = d, c_hour = s div 3600, c_min = s div 60 mod 60,
        c_sec = s mod 60, c_nsec = nat (ns mod 1000000000)\<rparr>)"

definition pad :: "nat \<Rightarrow> nat \<Rightarrow> bytes" where
  "pad w n = replicate (w - length (dec_nat n)) (CHR ''0'') @ dec_nat n"

definition pad_int :: "nat \<Rightarrow> int \<Rightarrow> bytes" where
  "pad_int w i = (if i < 0 then CHR ''-'' # pad w (nat (- i)) else pad w (nat i))"

definition frac_nano :: "nat \<Rightarrow> bytes" where
  "frac_nano n =
    (let ds = rev (dropWhile (\<lambda>c. c = CHR ''0'') (rev (pad 9 n)))
     in if ds = [] then [] else CHR ''.'' # ds)"

definition zone_text :: "int \<Rightarrow> bytes" where
  "zone_text off =
    (if off = 0 then ''Z''
     else let z = trunc_div off 60 in
       (if z < 0 then ''-'' else ''+'') @ pad 2 (nat \<bar>z\<bar> div 60) @ '':'' @ pad 2 (nat \<bar>z\<bar> mod 60))"

definition rfc3339nano :: "gotime \<Rightarrow> bytes" where
  "rfc3339nano t =
    (let c = civil_of t in
     pad_int 4 (c_year c) @ ''-'' @ pad 2 (c_month c) @ ''-'' @ pad 2 (c_day c) @ ''T'' @
     pad 2 (c_hour c) @ '':'' @ pad 2 (c_min c) @ '':'' @ pad 2 (c_sec c) @
     frac_nano (c_nsec c) @ zone_text (t_off t))"

text \<open>\<^verbatim>\<open>Time.MarshalJSON\<close> refuses a year beyond four digits and a zone beyond 23 hours.\<close>

definition time_any :: "gotime \<Rightarrow> goany" where
  "time_any t =
    (if c_year (civil_of t) < 0 \<or> c_year (civil_of t) > 9999
        \<or> t_off t \<noteq> 0 \<and> nat \<bar>trunc_div (t_off t) 60\<bar> div 60 \<ge> 24
     then AMarshalError
     else AString (rfc3339nano t))"

lemma IsZero_UTC [simp]: "IsZero (UTC t) = IsZero t"
  by (simp add: IsZero_def UTC_def)

lemma UTC_UTC [simp]: "UTC (UTC t) = UTC t"
  by (simp add: UTC_def)

lemma Before_UTC: "Before (UTC t) (UTC u) \<longleftrightarrow> t_ns t < t_ns u"
  by (simp add: Before_def UTC_def)

end
