(* ===== verification/Domain.thy ===== *)
theory Domain
  imports Go_Time
begin

section \<open>The domain model (\<^verbatim>\<open>internal/domain\<close>)\<close>

text \<open>
  The types of \<^verbatim>\<open>types.go\<close> and \<^verbatim>\<open>error.go\<close> as records.  A field \<open>F\<close> of a Go
  struct is a record field \<open>p_F\<close> with a prefix for the struct.  Go's string enumerations stay
  strings, because the code compares them with literals and has branches for every other value.
  A slice is \<open>slice\<close> (\<open>None\<close> is nil) where a nil slice is written as
  \<^verbatim>\<open>null\<close>, and a list where the field is omitted when empty; a map is an association
  list with distinct keys; a pointer is an option; a wrapped cause is kept as its text.  The functions \<open>X_any\<close>
  give the value that   \<^verbatim>\<open>encoding/json\<close> sees for a struct \<open>X\<close>: its fields in order, under their JSON
  names, without the empty ones tagged \<^verbatim>\<open>omitempty\<close>.
\<close>

type_synonym 'a slice = "'a list option"

definition elems :: "'a slice \<Rightarrow> 'a list" where
  "elems s = (case s of None \<Rightarrow> [] | Some xs \<Rightarrow> xs)"

lemma elems_simps [simp]: "elems None = []" "elems (Some xs) = xs"
  by (simp_all add: elems_def)

definition slice_any :: "('a \<Rightarrow> goany) \<Rightarrow> 'a slice \<Rightarrow> goany" where
  "slice_any f s = (case s of None \<Rightarrow> ANil | Some xs \<Rightarrow> ASlice (map f xs))"

definition ptr_any :: "('a \<Rightarrow> goany) \<Rightarrow> 'a option \<Rightarrow> goany" where
  "ptr_any f p = (case p of None \<Rightarrow> ANil | Some x \<Rightarrow> f x)"

definition filled :: "bytes \<Rightarrow> goany \<Rightarrow> (bytes \<times> goany) list" where
  "filled k v = [(k, v)]"

subsection \<open>String enumerations\<close>

type_synonym Phase = bytes
type_synonym DetectionStatus = bytes
type_synonym FunctionalVerdict = bytes
type_synonym CapabilityVerdict = bytes
type_synonym ReproducibilityVerdict = bytes
type_synonym CleanupVerdict = bytes
type_synonym EvidenceState = bytes
type_synonym FreshnessVerdict = bytes
type_synonym OverallVerdict = bytes
type_synonym ResourceObservedField = bytes
type_synonym ErrorCode = bytes
type_synonym Severity = bytes

definition PhasePrepare :: Phase where [go_const]: "PhasePrepare = ''prepare''"
definition PhaseSetup :: Phase where [go_const]: "PhaseSetup = ''setup''"
definition PhaseBuild :: Phase where [go_const]: "PhaseBuild = ''build''"
definition PhaseRun :: Phase where [go_const]: "PhaseRun = ''run''"
definition PhaseExercise :: Phase where [go_const]: "PhaseExercise = ''exercise''"
definition PhaseCleanup :: Phase where [go_const]: "PhaseCleanup = ''cleanup''"
definition StatusDeclared :: DetectionStatus where [go_const]: "StatusDeclared = ''declared''"
definition StatusInferred :: DetectionStatus where [go_const]: "StatusInferred = ''inferred''"
definition FunctionalPass :: FunctionalVerdict where [go_const]: "FunctionalPass = ''pass''"
definition FunctionalFail :: FunctionalVerdict where [go_const]: "FunctionalFail = ''fail''"
definition FunctionalBlocked :: FunctionalVerdict where [go_const]: "FunctionalBlocked = ''blocked''"
definition FunctionalInconclusive :: FunctionalVerdict where [go_const]: "FunctionalInconclusive = ''inconclusive''"
definition CapabilityConforming :: CapabilityVerdict where [go_const]: "CapabilityConforming = ''conforming''"
definition CapabilityNonconforming :: CapabilityVerdict where [go_const]: "CapabilityNonconforming = ''nonconforming''"
definition CapabilityIncomplete :: CapabilityVerdict where [go_const]: "CapabilityIncomplete = ''incomplete''"
definition CapabilityWarning :: CapabilityVerdict where [go_const]: "CapabilityWarning = ''warning''"
definition ReproducibilityStable :: ReproducibilityVerdict where [go_const]: "ReproducibilityStable = ''stable''"
definition ReproducibilityFlaky :: ReproducibilityVerdict where [go_const]: "ReproducibilityFlaky = ''flaky''"
definition ReproducibilityNotReproducible :: ReproducibilityVerdict where [go_const]: "ReproducibilityNotReproducible = ''not-reproducible''"
definition ReproducibilityNotTested :: ReproducibilityVerdict where [go_const]: "ReproducibilityNotTested = ''not-tested''"
definition ReproducibilityUnstable :: ReproducibilityVerdict where [go_const]: "ReproducibilityUnstable = ReproducibilityNotReproducible"
definition CleanupClean :: CleanupVerdict where [go_const]: "CleanupClean = ''clean''"
definition CleanupAllowedResidue :: CleanupVerdict where [go_const]: "CleanupAllowedResidue = ''allowed-residue''"
definition CleanupUndeclaredResidue :: CleanupVerdict where [go_const]: "CleanupUndeclaredResidue = ''undeclared-residue''"
definition CleanupNotTested :: CleanupVerdict where [go_const]: "CleanupNotTested = ''not-tested''"
definition CleanupResidue :: CleanupVerdict where [go_const]: "CleanupResidue = CleanupUndeclaredResidue"
definition CleanupInconclusive :: CleanupVerdict where [go_const]: "CleanupInconclusive = CleanupNotTested"
definition EvidenceNone :: EvidenceState where [go_const]: "EvidenceNone = ''none''"
definition EvidenceUnsigned :: EvidenceState where [go_const]: "EvidenceUnsigned = ''unsigned''"
definition EvidenceSelfSigned :: EvidenceState where [go_const]: "EvidenceSelfSigned = ''self-signed''"
definition EvidenceMaintainerCISigned :: EvidenceState where [go_const]: "EvidenceMaintainerCISigned = ''maintainer-ci-signed''"
definition EvidencePublicRunnerSigned :: EvidenceState where [go_const]: "EvidencePublicRunnerSigned = ''public-runner-signed''"
definition EvidenceEnterpriseSigned :: EvidenceState where [go_const]: "EvidenceEnterpriseSigned = ''enterprise-signed''"
definition EvidenceTampered :: EvidenceState where [go_const]: "EvidenceTampered = ''tampered''"
definition EvidenceUntrustedSigner :: EvidenceState where [go_const]: "EvidenceUntrustedSigner = ''untrusted-signer''"
definition EvidenceInvalid :: EvidenceState where [go_const]: "EvidenceInvalid = EvidenceTampered"
definition FreshnessCurrent :: FreshnessVerdict where [go_const]: "FreshnessCurrent = ''current''"
definition FreshnessSourceChanged :: FreshnessVerdict where [go_const]: "FreshnessSourceChanged = ''source-changed''"
definition FreshnessPlanChanged :: FreshnessVerdict where [go_const]: "FreshnessPlanChanged = ''plan-changed''"
definition FreshnessPolicyChanged :: FreshnessVerdict where [go_const]: "FreshnessPolicyChanged = ''policy-changed''"
definition FreshnessRunnerChanged :: FreshnessVerdict where [go_const]: "FreshnessRunnerChanged = ''runner-changed''"
definition FreshnessExpired :: FreshnessVerdict where [go_const]: "FreshnessExpired = ''expired''"
definition FreshnessStale :: FreshnessVerdict where [go_const]: "FreshnessStale = FreshnessSourceChanged"
definition OverallVerified :: OverallVerdict where [go_const]: "OverallVerified = ''verified''"
definition OverallVerifiedWithWarnings :: OverallVerdict where [go_const]: "OverallVerifiedWithWarnings = ''verified-with-warnings''"
definition OverallNonconforming :: OverallVerdict where [go_const]: "OverallNonconforming = ''nonconforming''"
definition OverallFailed :: OverallVerdict where [go_const]: "OverallFailed = ''failed''"
definition OverallBlocked :: OverallVerdict where [go_const]: "OverallBlocked = ''blocked''"
definition OverallInconclusive :: OverallVerdict where [go_const]: "OverallInconclusive = ''inconclusive''"
definition OverallStale :: OverallVerdict where [go_const]: "OverallStale = ''stale''"
definition ResourceObservedMaxTasks :: ResourceObservedField where [go_const]: "ResourceObservedMaxTasks = ''maxTasks''"
definition ResourceObservedOutputBytes :: ResourceObservedField where [go_const]: "ResourceObservedOutputBytes = ''outputBytes''"
definition ResourceObservedSandboxCPUTimeMillis :: ResourceObservedField where [go_const]: "ResourceObservedSandboxCPUTimeMillis = ''sandboxCPUTimeMillis''"
definition ResourceObservedSandboxPeakMemoryBytes :: ResourceObservedField where [go_const]: "ResourceObservedSandboxPeakMemoryBytes = ''sandboxPeakMemoryBytes''"
definition ResourceObservedWritableBytes :: ResourceObservedField where [go_const]: "ResourceObservedWritableBytes = ''writableBytes''"
definition CodeSourceNotFound :: ErrorCode where [go_const]: "CodeSourceNotFound = ''SOURCE_NOT_FOUND''"
definition CodeSourceTooLarge :: ErrorCode where [go_const]: "CodeSourceTooLarge = ''SOURCE_TOO_LARGE''"
definition CodeSourceTooManyFiles :: ErrorCode where [go_const]: "CodeSourceTooManyFiles = ''SOURCE_TOO_MANY_FILES''"
definition CodeSourcePathTraversal :: ErrorCode where [go_const]: "CodeSourcePathTraversal = ''SOURCE_PATH_TRAVERSAL''"
definition CodeSourceSymlinkEscape :: ErrorCode where [go_const]: "CodeSourceSymlinkEscape = ''SOURCE_SYMLINK_ESCAPE''"
definition CodeSourceRefUnresolved :: ErrorCode where [go_const]: "CodeSourceRefUnresolved = ''SOURCE_REF_UNRESOLVED''"
definition CodeSourceDigestMismatch :: ErrorCode where [go_const]: "CodeSourceDigestMismatch = ''SOURCE_DIGEST_MISMATCH''"
definition CodeManifestNotFound :: ErrorCode where [go_const]: "CodeManifestNotFound = ''MANIFEST_NOT_FOUND''"
definition CodeManifestInvalid :: ErrorCode where [go_const]: "CodeManifestInvalid = ''MANIFEST_INVALID''"
definition CodeManifestUnknownField :: ErrorCode where [go_const]: "CodeManifestUnknownField = ''MANIFEST_UNKNOWN_FIELD''"
definition CodeManifestLiteralSecret :: ErrorCode where [go_const]: "CodeManifestLiteralSecret = ''MANIFEST_LITERAL_SECRET''"
definition CodeManifestUnsafeShell :: ErrorCode where [go_const]: "CodeManifestUnsafeShell = ''MANIFEST_UNSAFE_SHELL''"
definition CodePlanUnresolved :: ErrorCode where [go_const]: "CodePlanUnresolved = ''PLAN_UNRESOLVED''"
definition CodePlanDrift :: ErrorCode where [go_const]: "CodePlanDrift = ''PLAN_DRIFT''"
definition CodeMutableBaseImage :: ErrorCode where [go_const]: "CodeMutableBaseImage = ''MUTABLE_BASE_IMAGE''"
definition CodeRuntimeVersionUnresolved :: ErrorCode where [go_const]: "CodeRuntimeVersionUnresolved = ''RUNTIME_VERSION_UNRESOLVED''"
definition CodePolicyBundleUnresolved :: ErrorCode where [go_const]: "CodePolicyBundleUnresolved = ''POLICY_BUNDLE_UNRESOLVED''"
definition CodeRunnerUnavailable :: ErrorCode where [go_const]: "CodeRunnerUnavailable = ''RUNNER_UNAVAILABLE''"
definition CodeRunnerFeatureUnavailable :: ErrorCode where [go_const]: "CodeRunnerFeatureUnavailable = ''RUNNER_FEATURE_UNAVAILABLE''"
definition CodeSandboxPrepareFailed :: ErrorCode where [go_const]: "CodeSandboxPrepareFailed = ''SANDBOX_PREPARE_FAILED''"
definition CodeSandboxStartFailed :: ErrorCode where [go_const]: "CodeSandboxStartFailed = ''SANDBOX_START_FAILED''"
definition CodeSandboxDestroyFailed :: ErrorCode where [go_const]: "CodeSandboxDestroyFailed = ''SANDBOX_DESTROY_FAILED''"
definition CodeResourceLimitExceeded :: ErrorCode where [go_const]: "CodeResourceLimitExceeded = ''RESOURCE_LIMIT_EXCEEDED''"
definition CodeTimeout :: ErrorCode where [go_const]: "CodeTimeout = ''TIMEOUT''"
definition CodeSetupFailed :: ErrorCode where [go_const]: "CodeSetupFailed = ''SETUP_FAILED''"
definition CodeBuildFailed :: ErrorCode where [go_const]: "CodeBuildFailed = ''BUILD_FAILED''"
definition CodeServiceStartFailed :: ErrorCode where [go_const]: "CodeServiceStartFailed = ''SERVICE_START_FAILED''"
definition CodeReadinessFailed :: ErrorCode where [go_const]: "CodeReadinessFailed = ''READINESS_FAILED''"
definition CodeJourneyAssertionFailed :: ErrorCode where [go_const]: "CodeJourneyAssertionFailed = ''JOURNEY_ASSERTION_FAILED''"
definition CodeCleanupFailed :: ErrorCode where [go_const]: "CodeCleanupFailed = ''CLEANUP_FAILED''"
definition CodeProcessLeak :: ErrorCode where [go_const]: "CodeProcessLeak = ''PROCESS_LEAK''"
definition CodeUndeclaredFilesystemWrite :: ErrorCode where [go_const]: "CodeUndeclaredFilesystemWrite = ''UNDECLARED_FILESYSTEM_WRITE''"
definition CodeForbiddenFilesystemAccess :: ErrorCode where [go_const]: "CodeForbiddenFilesystemAccess = ''FORBIDDEN_FILESYSTEM_ACCESS''"
definition CodeUndeclaredNetwork :: ErrorCode where [go_const]: "CodeUndeclaredNetwork = ''UNDECLARED_NETWORK_DESTINATION''"
definition CodeForbiddenNetworkAttempt :: ErrorCode where [go_const]: "CodeForbiddenNetworkAttempt = ''FORBIDDEN_NETWORK_ATTEMPT''"
definition CodeUndeclaredPortListen :: ErrorCode where [go_const]: "CodeUndeclaredPortListen = ''UNDECLARED_PORT_LISTEN''"
definition CodeUndeclaredProcessExec :: ErrorCode where [go_const]: "CodeUndeclaredProcessExec = ''UNDECLARED_PROCESS_EXEC''"
definition CodeCleanupResidue :: ErrorCode where [go_const]: "CodeCleanupResidue = ''CLEANUP_RESIDUE''"
definition CodeObserverStartFailed :: ErrorCode where [go_const]: "CodeObserverStartFailed = ''OBSERVER_START_FAILED''"
definition CodeObserverIncomplete :: ErrorCode where [go_const]: "CodeObserverIncomplete = ''OBSERVER_INCOMPLETE''"
definition CodeObservationSchemaInvalid :: ErrorCode where [go_const]: "CodeObservationSchemaInvalid = ''OBSERVATION_SCHEMA_INVALID''"
definition CodeNondeterministicResult :: ErrorCode where [go_const]: "CodeNondeterministicResult = ''NONDETERMINISTIC_RESULT''"
definition CodeEvidenceBuildFailed :: ErrorCode where [go_const]: "CodeEvidenceBuildFailed = ''EVIDENCE_BUILD_FAILED''"
definition CodeEvidenceDigestMismatch :: ErrorCode where [go_const]: "CodeEvidenceDigestMismatch = ''EVIDENCE_DIGEST_MISMATCH''"
definition CodeEvidencePrivacyBlocked :: ErrorCode where [go_const]: "CodeEvidencePrivacyBlocked = ''EVIDENCE_PRIVACY_BLOCKED''"
definition CodeAttestationInvalid :: ErrorCode where [go_const]: "CodeAttestationInvalid = ''ATTESTATION_INVALID''"
definition CodeAttestationUntrusted :: ErrorCode where [go_const]: "CodeAttestationUntrusted = ''ATTESTATION_UNTRUSTED''"
definition CodeEvidenceStale :: ErrorCode where [go_const]: "CodeEvidenceStale = ''EVIDENCE_STALE''"
definition CodeSigningFailed :: ErrorCode where [go_const]: "CodeSigningFailed = ''SIGNING_FAILED''"
definition CodePolicyDenied :: ErrorCode where [go_const]: "CodePolicyDenied = ''POLICY_DENIED''"
definition CodePolicyEvaluationFailed :: ErrorCode where [go_const]: "CodePolicyEvaluationFailed = ''POLICY_EVALUATION_FAILED''"
definition CodeInternal :: ErrorCode where [go_const]: "CodeInternal = ''INTERNAL_ERROR''"
definition CodeCancelled :: ErrorCode where [go_const]: "CodeCancelled = ''CANCELLED''"
definition SeverityInfo :: Severity where [go_const]: "SeverityInfo = ''info''"
definition SeverityWarning :: Severity where [go_const]: "SeverityWarning = ''warning''"
definition SeverityMedium :: Severity where [go_const]: "SeverityMedium = ''medium''"
definition SeverityHigh :: Severity where [go_const]: "SeverityHigh = ''high''"
definition SeverityCritical :: Severity where [go_const]: "SeverityCritical = ''critical''"

definition OrderedPhases :: "Phase list" where
  "OrderedPhases =
    [PhasePrepare, PhaseSetup, PhaseBuild, PhaseRun, PhaseExercise, PhaseCleanup]"

subsection \<open>Structs\<close>

record SourceRef =
  sr_Kind :: bytes
  sr_Value :: bytes
  sr_Ref :: bytes

record ResolvedSource =
  rs_Kind :: bytes
  rs_Canonical :: bytes
  rs_LocalPath :: bytes
  rs_Commit :: bytes
  rs_RetrievedVia :: bytes

record FileEntry =
  fe_Path :: bytes
  fe_Mode :: bytes
  fe_Size :: int
  fe_Digest :: bytes

record SourceSnapshot =
  snap_Identity :: bytes
  snap_Commit :: bytes
  snap_TreeDigest :: bytes
  snap_Root :: bytes
  snap_Inventory :: "FileEntry list"
  snap_TotalSize :: int
  snap_FileCount :: int
  snap_GeneratedAt :: gotime

record DetectionSignal =
  ds_Field :: bytes
  ds_Value :: goany
  ds_Source :: bytes
  ds_Method :: bytes
  ds_Confidence :: go_float
  ds_Status :: DetectionStatus

record ProjectDescriptor =
  pd_ProjectKind :: bytes
  pd_Languages :: "bytes slice"
  pd_RuntimeHints :: "bytes slice"
  pd_PackageManager :: bytes
  pd_Entrypoints :: "bytes slice"
  pd_Signals :: "DetectionSignal slice"
  pd_Warnings :: "bytes list"

record NetworkDestination =
  nd_Host :: bytes
  nd_Port :: int
  nd_Protocol :: bytes

record NetworkCapability =
  nc_Deny :: bool
  nc_Allow :: "NetworkDestination list"

record FilesystemCapability =
  fc_Read :: "bytes list"
  fc_Write :: "bytes list"
  fc_Create :: "bytes list"
  fc_Delete :: "bytes list"
  fc_Rename :: "bytes list"
  fc_Chmod :: "bytes list"
  fc_Symlink :: "bytes list"

record PortBinding =
  pb_Host :: bytes
  pb_Port :: int
  pb_Protocol :: bytes

record PortCapability =
  pc_Listen :: "PortBinding list"

record ProcessCapability =
  prc_Exec :: "bytes list"
  prc_Background :: bool
  prc_ChildProcesses :: "bool option"
  prc_Shell :: "bool option"
  prc_BackgroundProcesses :: "bool option"

record EnvironmentCapability =
  ec_Read :: "bytes list"
  ec_Write :: "bytes list"
  ec_Locale :: bytes
  ec_Timezone :: bytes

record DeclaredResourceLimits =
  drl_CPU :: goany
  drl_Memory :: bytes
  drl_Disk :: bytes
  drl_PIDs :: int
  drl_Time :: bytes
  drl_LogBytes :: "int option"

record CapabilitySet =
  cs_Network :: NetworkCapability
  cs_Filesystem :: FilesystemCapability
  cs_Ports :: PortCapability
  cs_Process :: ProcessCapability
  cs_Environment :: "EnvironmentCapability option"
  cs_Secrets :: "bytes list"
  cs_Resources :: "DeclaredResourceLimits option"
  cs_Devices :: "bool option"
  cs_HostIntegration :: "bool option"

record PlanSource =
  ps_Identity :: bytes
  ps_Commit :: bytes
  ps_TreeDigest :: bytes

record PlanSignal =
  psg_Target :: bytes
  psg_Type :: bytes
  psg_GracePeriod :: bytes

record PlanHTTPReadiness =
  phr_URL :: bytes
  phr_Status :: int
  phr_Timeout :: bytes

record PlanCommand =
  pcm_Phase :: Phase
  pcm_ID :: bytes
  pcm_Argv :: "bytes list"
  pcm_Signal :: "PlanSignal option"
  pcm_Readiness :: "PlanHTTPReadiness option"
  pcm_Timeout :: bytes
  pcm_Role :: bytes

record PlanHTTPRequest =
  phq_ID :: bytes
  phq_Method :: bytes
  phq_URL :: bytes
  phq_Headers :: "(bytes \<times> bytes) list"
  phq_Body :: "bytes option"
  phq_JSON :: bytes
  phq_Timeout :: bytes

record PlanHTTPDriverStep =
  phs_Request :: "PlanHTTPRequest option"
  phs_AssertionID :: bytes

record PlanHTTPJourney =
  phj_ServiceID :: bytes
  phj_Steps :: "PlanHTTPDriverStep slice"

record PlanHTTPHeaderAssertion =
  phh_Name :: bytes
  phh_Contains :: bytes

record PlanJSONPathAssertion =
  pjp_Path :: bytes
  pjp_Equals :: bytes

record PlanJSONSchemaRef =
  pjs_Path :: bytes
  pjs_Digest :: bytes
  pjs_Dialect :: bytes
  pjs_ValidatorVersion :: bytes

record PlanHTTPResponseAssertion =
  pha_RequestID :: bytes
  pha_Status :: "int option"
  pha_Header :: "PlanHTTPHeaderAssertion option"
  pha_BodyContains :: "bytes option"
  pha_JSONPath :: "PlanJSONPathAssertion option"
  pha_JSONSchema :: "PlanJSONSchemaRef option"

record PlanJSONFileAssertion =
  pjf_Path :: bytes
  pjf_Schema :: PlanJSONSchemaRef

record PlanAssertion =
  pa_ID :: bytes
  pa_ExitCode :: "int option"
  pa_StdoutContains :: bytes
  pa_StderrContains :: bytes
  pa_StdoutRegex :: bytes
  pa_StdoutJSONSchema :: "PlanJSONSchemaRef option"
  pa_FileExists :: bytes
  pa_Response :: "PlanHTTPResponseAssertion option"
  pa_JSONFile :: "PlanJSONFileAssertion option"

record PlanCleanup =
  pcl_ClassifierVersion :: bytes
  pcl_AllowedResidue :: "bytes slice"

record PlanEvidence =
  pe_Profile :: bytes
  pe_Include :: "bytes slice"
  pe_Exclude :: "bytes slice"

record ResourceLimits =
  rl_CPUMillis :: int
  rl_MemoryBytes :: int
  rl_DiskBytes :: int
  rl_PIDs :: int

record PlanInput =
  pi_Name :: bytes
  pi_Type :: bytes
  pi_Fixture :: bytes
  pi_MountPath :: bytes
  pi_ReadOnly :: bool

record ResolvedPlan =
  rp_SchemaVersion :: bytes
  rp_Source :: PlanSource
  rp_ManifestDigest :: bytes
  rp_Scenario :: bytes
  rp_Environment :: bytes
  rp_RuntimeAdapter :: bytes
  rp_RuntimeVersion :: bytes
  rp_BaseImageReference :: bytes
  rp_BaseImageDigest :: bytes
  rp_Resources :: ResourceLimits
  rp_Inputs :: "PlanInput slice"
  rp_AdapterVersions :: "(bytes \<times> bytes) list"
  rp_ObserverVersions :: "(bytes \<times> bytes) list"
  rp_JourneyDriver :: bytes
  rp_JourneyDriverVersion :: bytes
  rp_Commands :: "PlanCommand slice"
  rp_JourneyAssertions :: "PlanAssertion slice"
  rp_HTTPJourney :: "PlanHTTPJourney option"
  rp_Cleanup :: PlanCleanup
  rp_Evidence :: PlanEvidence
  rp_Capabilities :: "(Phase \<times> CapabilitySet) list"
  rp_RequiredRunnerFeatures :: "bytes slice"
  rp_ObserverSet :: "bytes slice"
  rp_RepeatCount :: int
  rp_SuccessThreshold :: int
  rp_PolicyBundleDigest :: bytes
  rp_PlanDigest :: bytes

record RunnerFeatures =
  rf_Backend :: bytes
  rf_Available :: bool
  rf_ControllerOS :: bytes
  rf_WorkloadOS :: bytes
  rf_Rootless :: bytes
  rf_NetworkDeny :: bool
  rf_NetworkAttemptObservation :: bytes
  rf_ProcessExecObservation :: bytes
  rf_FilesystemWriteObservation :: bytes
  rf_FilesystemReadObservation :: bytes
  rf_PortObservation :: bytes
  rf_ResourceUsage :: bytes
  rf_ResourceLimitEnforcement :: bool
  rf_EngineVersion :: bytes
  rf_Reason :: bytes

record ObservationEvent =
  oe_SchemaVersion :: bytes
  oe_Sequence :: nat
  oe_Timestamp :: gotime
  oe_Phase :: Phase
  oe_Actor :: bytes
  oe_Operation :: bytes
  oe_Resource :: bytes
  oe_Result :: bytes
  oe_Observer :: bytes
  oe_Coverage :: bytes
  oe_Confidence :: bytes
  oe_Details :: "(bytes \<times> goany) list"

record AssertionResult =
  ar_SchemaVersion :: bytes
  ar_ID :: bytes
  ar_Type :: bytes
  ar_Required :: bool
  ar_Expected :: goany
  ar_Actual :: goany
  ar_Status :: bytes
  ar_EvidenceRefs :: "bytes slice"
  ar_Message :: bytes
  ar_Repeat :: int
  ar_DurationMillis :: int

record PolicyDecision =
  pol_PolicyID :: bytes
  pol_PolicyBundleDigest :: bytes
  pol_Decision :: bytes
  pol_Severity :: Severity
  pol_Message :: bytes
  pol_EvidenceRefs :: "bytes list"

record Verdicts =
  v_Functional :: FunctionalVerdict
  v_Capability :: CapabilityVerdict
  v_Reproducibility :: ReproducibilityVerdict
  v_Cleanup :: CleanupVerdict
  v_Evidence :: EvidenceState
  v_Freshness :: FreshnessVerdict
  v_Overall :: OverallVerdict

record ObserverCoverage =
  oc_Observer :: bytes
  oc_Feature :: bytes
  oc_Coverage :: bytes
  oc_Required :: bool
  oc_Reason :: bytes

record VerificationPlanRef =
  vp_Scenario :: bytes
  vp_Environment :: bytes
  vp_PlanDigest :: bytes
  vp_PolicyBundleDigest :: bytes
  vp_RepeatCount :: int
  vp_SuccessThreshold :: int
  vp_ResolvedPlanSchemaVersion :: bytes
  vp_Evidence :: PlanEvidence

record RepeatSummary =
  rep_Requested :: int
  rep_Completed :: int
  rep_Matching :: int

record ResourceSummary =
  res_PeakMemoryBytes :: int
  res_CPUTimeMillis :: int
  res_DurationMillis :: int
  res_MaxProcesses :: int
  res_LogBytes :: int
  res_SandboxPeakMemoryBytes :: int
  res_SandboxCPUTimeMillis :: int
  res_MaxTasks :: int
  res_WritableBytes :: int
  res_OutputBytes :: int
  res_ObservedFields :: "ResourceObservedField list"

record VerificationDigests =
  vd_Observations :: bytes
  vd_Assertions :: bytes
  vd_PolicyDecisions :: bytes
  vd_Verification :: bytes

record Error =
  err_SchemaVersion :: bytes
  err_Code :: ErrorCode
  err_Phase :: Phase
  err_Severity :: Severity
  err_Message :: bytes
  err_Details :: "(bytes \<times> goany) list"
  err_EvidenceRefs :: "bytes slice"
  err_Suggestion :: bytes
  err_Retryable :: bool
  err_Cause :: "bytes option"

record VerificationResult =
  vr_SchemaVersion :: bytes
  vr_VerificationID :: bytes
  vr_RunID :: bytes
  vr_StartedAt :: gotime
  vr_CompletedAt :: gotime
  vr_Subject :: PlanSource
  vr_Plan :: VerificationPlanRef
  vr_Runner :: RunnerFeatures
  vr_Results :: Verdicts
  vr_ObserverCoverage :: "ObserverCoverage slice"
  vr_Observations :: "ObservationEvent slice"
  vr_Assertions :: "AssertionResult slice"
  vr_PolicyDecisions :: "PolicyDecision slice"
  vr_Errors :: "Error option list"
  vr_Repeats :: RepeatSummary
  vr_Resources :: ResourceSummary
  vr_Digests :: VerificationDigests

subsection \<open>Their JSON form\<close>

definition PlanSource_any :: "PlanSource \<Rightarrow> goany" where [wire]:
  "PlanSource_any x = AStruct (
    filled ''identity'' (AString (ps_Identity x)) @
    omit_if (ps_Commit x = []) ''commit'' (AString (ps_Commit x)) @
    filled ''treeDigest'' (AString (ps_TreeDigest x)))"

definition PlanEvidence_any :: "PlanEvidence \<Rightarrow> goany" where [wire]:
  "PlanEvidence_any x = AStruct (
    filled ''profile'' (AString (pe_Profile x)) @
    filled ''include'' (slice_any AString (pe_Include x)) @
    filled ''exclude'' (slice_any AString (pe_Exclude x)))"

definition RunnerFeatures_any :: "RunnerFeatures \<Rightarrow> goany" where [wire]:
  "RunnerFeatures_any x = AStruct (
    filled ''backend'' (AString (rf_Backend x)) @
    filled ''available'' (ABool (rf_Available x)) @
    filled ''controllerOS'' (AString (rf_ControllerOS x)) @
    filled ''workloadOS'' (AString (rf_WorkloadOS x)) @
    filled ''rootless'' (AString (rf_Rootless x)) @
    filled ''networkDeny'' (ABool (rf_NetworkDeny x)) @
    filled ''networkAttemptObservation'' (AString (rf_NetworkAttemptObservation x)) @
    filled ''processExecObservation'' (AString (rf_ProcessExecObservation x)) @
    filled ''filesystemWriteObservation'' (AString (rf_FilesystemWriteObservation x)) @
    filled ''filesystemReadObservation'' (AString (rf_FilesystemReadObservation x)) @
    filled ''portObservation'' (AString (rf_PortObservation x)) @
    filled ''resourceUsage'' (AString (rf_ResourceUsage x)) @
    omit_if (\<not> rf_ResourceLimitEnforcement x) ''resourceLimitEnforcement'' (ABool (rf_ResourceLimitEnforcement x)) @
    omit_if (rf_EngineVersion x = []) ''engineVersion'' (AString (rf_EngineVersion x)) @
    omit_if (rf_Reason x = []) ''reason'' (AString (rf_Reason x)))"

definition ObservationEvent_any :: "ObservationEvent \<Rightarrow> goany" where [wire]:
  "ObservationEvent_any x = AStruct (
    filled ''schemaVersion'' (AString (oe_SchemaVersion x)) @
    filled ''sequence'' (AInt GoUint64 (int (oe_Sequence x))) @
    filled ''timestamp'' (time_any (oe_Timestamp x)) @
    filled ''phase'' (AString (oe_Phase x)) @
    filled ''actor'' (AString (oe_Actor x)) @
    filled ''operation'' (AString (oe_Operation x)) @
    filled ''resource'' (AString (oe_Resource x)) @
    filled ''result'' (AString (oe_Result x)) @
    filled ''observer'' (AString (oe_Observer x)) @
    filled ''coverage'' (AString (oe_Coverage x)) @
    filled ''confidence'' (AString (oe_Confidence x)) @
    omit_if (oe_Details x = []) ''details'' (AMap (oe_Details x)))"

definition AssertionResult_any :: "AssertionResult \<Rightarrow> goany" where [wire]:
  "AssertionResult_any x = AStruct (
    filled ''schemaVersion'' (AString (ar_SchemaVersion x)) @
    filled ''assertionId'' (AString (ar_ID x)) @
    filled ''type'' (AString (ar_Type x)) @
    filled ''required'' (ABool (ar_Required x)) @
    filled ''expected'' (ar_Expected x) @
    filled ''actual'' (ar_Actual x) @
    filled ''status'' (AString (ar_Status x)) @
    filled ''evidenceRefs'' (slice_any AString (ar_EvidenceRefs x)) @
    omit_if (ar_Message x = []) ''message'' (AString (ar_Message x)) @
    omit_if (ar_Repeat x = 0) ''repeat'' (AInt GoInt (ar_Repeat x)) @
    omit_if (ar_DurationMillis x = 0) ''durationMillis'' (AInt GoInt64 (ar_DurationMillis x)))"

definition PolicyDecision_any :: "PolicyDecision \<Rightarrow> goany" where [wire]:
  "PolicyDecision_any x = AStruct (
    filled ''policyId'' (AString (pol_PolicyID x)) @
    filled ''policyBundleDigest'' (AString (pol_PolicyBundleDigest x)) @
    filled ''decision'' (AString (pol_Decision x)) @
    filled ''severity'' (AString (pol_Severity x)) @
    filled ''message'' (AString (pol_Message x)) @
    omit_if (pol_EvidenceRefs x = []) ''evidenceRefs'' (ASlice (map AString (pol_EvidenceRefs x))))"

definition Verdicts_any :: "Verdicts \<Rightarrow> goany" where [wire]:
  "Verdicts_any x = AStruct (
    filled ''functional'' (AString (v_Functional x)) @
    filled ''capability'' (AString (v_Capability x)) @
    filled ''reproducibility'' (AString (v_Reproducibility x)) @
    filled ''cleanup'' (AString (v_Cleanup x)) @
    filled ''evidence'' (AString (v_Evidence x)) @
    filled ''freshness'' (AString (v_Freshness x)) @
    filled ''overall'' (AString (v_Overall x)))"

definition ObserverCoverage_any :: "ObserverCoverage \<Rightarrow> goany" where [wire]:
  "ObserverCoverage_any x = AStruct (
    filled ''observer'' (AString (oc_Observer x)) @
    filled ''feature'' (AString (oc_Feature x)) @
    filled ''coverage'' (AString (oc_Coverage x)) @
    filled ''required'' (ABool (oc_Required x)) @
    omit_if (oc_Reason x = []) ''reason'' (AString (oc_Reason x)))"

definition VerificationPlanRef_any :: "VerificationPlanRef \<Rightarrow> goany" where [wire]:
  "VerificationPlanRef_any x = AStruct (
    filled ''scenario'' (AString (vp_Scenario x)) @
    filled ''environment'' (AString (vp_Environment x)) @
    filled ''planDigest'' (AString (vp_PlanDigest x)) @
    filled ''policyBundleDigest'' (AString (vp_PolicyBundleDigest x)) @
    filled ''repeatCount'' (AInt GoInt (vp_RepeatCount x)) @
    filled ''successThreshold'' (AInt GoInt (vp_SuccessThreshold x)) @
    filled ''resolvedPlanSchemaVersion'' (AString (vp_ResolvedPlanSchemaVersion x)) @
    filled ''evidence'' (PlanEvidence_any (vp_Evidence x)))"

definition RepeatSummary_any :: "RepeatSummary \<Rightarrow> goany" where [wire]:
  "RepeatSummary_any x = AStruct (
    filled ''requested'' (AInt GoInt (rep_Requested x)) @
    filled ''completed'' (AInt GoInt (rep_Completed x)) @
    filled ''matching'' (AInt GoInt (rep_Matching x)))"

definition ResourceSummary_any :: "ResourceSummary \<Rightarrow> goany" where [wire]:
  "ResourceSummary_any x = AStruct (
    omit_if (res_PeakMemoryBytes x = 0) ''peakMemoryBytes'' (AInt GoInt64 (res_PeakMemoryBytes x)) @
    omit_if (res_CPUTimeMillis x = 0) ''cpuTimeMillis'' (AInt GoInt64 (res_CPUTimeMillis x)) @
    filled ''durationMillis'' (AInt GoInt64 (res_DurationMillis x)) @
    omit_if (res_MaxProcesses x = 0) ''maxProcesses'' (AInt GoInt (res_MaxProcesses x)) @
    omit_if (res_LogBytes x = 0) ''logBytes'' (AInt GoInt64 (res_LogBytes x)) @
    omit_if (res_SandboxPeakMemoryBytes x = 0) ''sandboxPeakMemoryBytes'' (AInt GoInt64 (res_SandboxPeakMemoryBytes x)) @
    omit_if (res_SandboxCPUTimeMillis x = 0) ''sandboxCPUTimeMillis'' (AInt GoInt64 (res_SandboxCPUTimeMillis x)) @
    omit_if (res_MaxTasks x = 0) ''maxTasks'' (AInt GoInt (res_MaxTasks x)) @
    omit_if (res_WritableBytes x = 0) ''writableBytes'' (AInt GoInt64 (res_WritableBytes x)) @
    omit_if (res_OutputBytes x = 0) ''outputBytes'' (AInt GoInt64 (res_OutputBytes x)) @
    omit_if (res_ObservedFields x = []) ''observedFields'' (ASlice (map AString (res_ObservedFields x))))"

definition VerificationDigests_any :: "VerificationDigests \<Rightarrow> goany" where [wire]:
  "VerificationDigests_any x = AStruct (
    filled ''observations'' (AString (vd_Observations x)) @
    filled ''assertions'' (AString (vd_Assertions x)) @
    filled ''policyDecisions'' (AString (vd_PolicyDecisions x)) @
    filled ''verification'' (AString (vd_Verification x)))"

definition Error_any :: "Error \<Rightarrow> goany" where [wire]:
  "Error_any x = AStruct (
    filled ''schemaVersion'' (AString (err_SchemaVersion x)) @
    filled ''code'' (AString (err_Code x)) @
    omit_if (err_Phase x = []) ''phase'' (AString (err_Phase x)) @
    filled ''severity'' (AString (err_Severity x)) @
    filled ''message'' (AString (err_Message x)) @
    omit_if (err_Details x = []) ''details'' (AMap (err_Details x)) @
    filled ''evidenceRefs'' (slice_any AString (err_EvidenceRefs x)) @
    omit_if (err_Suggestion x = []) ''suggestion'' (AString (err_Suggestion x)) @
    filled ''retryable'' (ABool (err_Retryable x)))"

definition VerificationResult_any :: "VerificationResult \<Rightarrow> goany" where [wire]:
  "VerificationResult_any x = AStruct (
    filled ''schemaVersion'' (AString (vr_SchemaVersion x)) @
    filled ''verificationId'' (AString (vr_VerificationID x)) @
    filled ''runId'' (AString (vr_RunID x)) @
    filled ''startedAt'' (time_any (vr_StartedAt x)) @
    filled ''completedAt'' (time_any (vr_CompletedAt x)) @
    filled ''subject'' (PlanSource_any (vr_Subject x)) @
    filled ''plan'' (VerificationPlanRef_any (vr_Plan x)) @
    filled ''runner'' (RunnerFeatures_any (vr_Runner x)) @
    filled ''results'' (Verdicts_any (vr_Results x)) @
    filled ''observerCoverage'' (slice_any ObserverCoverage_any (vr_ObserverCoverage x)) @
    filled ''observations'' (slice_any ObservationEvent_any (vr_Observations x)) @
    filled ''assertions'' (slice_any AssertionResult_any (vr_Assertions x)) @
    filled ''policyDecisions'' (slice_any PolicyDecision_any (vr_PolicyDecisions x)) @
    omit_if (vr_Errors x = []) ''errors'' (ASlice (map (ptr_any Error_any) (vr_Errors x))) @
    filled ''repeats'' (RepeatSummary_any (vr_Repeats x)) @
    filled ''resources'' (ResourceSummary_any (vr_Resources x)) @
    filled ''digests'' (VerificationDigests_any (vr_Digests x)))"

subsection \<open>Errors\<close>

text \<open>\<open>Error_text\<close> is the method \<^verbatim>\<open>Error\<close> of a non-nil error.\<close>

definition Error_text :: "Error option \<Rightarrow> bytes" where
  "Error_text p =
    (case p of
       None \<Rightarrow> []
     | Some e \<Rightarrow>
         if err_Phase e \<noteq> [] then err_Code e @ '' ('' @ err_Phase e @ ''): '' @ err_Message e
         else err_Code e @ '': '' @ err_Message e)"

definition NewError :: "ErrorCode \<Rightarrow> Severity \<Rightarrow> bytes \<Rightarrow> Error" where
  "NewError code severity message =
    \<lparr>err_SchemaVersion = ''1'', err_Code = code, err_Phase = [], err_Severity = severity,
     err_Message = message, err_Details = [], err_EvidenceRefs = Some [], err_Suggestion = [],
     err_Retryable = False, err_Cause = None\<rparr>"

definition WrapError :: "ErrorCode \<Rightarrow> Severity \<Rightarrow> bytes \<Rightarrow> bytes \<Rightarrow> Error" where
  "WrapError code severity message cause =
    \<lparr>err_SchemaVersion = ''1'', err_Code = code, err_Phase = [], err_Severity = severity,
     err_Message = message, err_Details = [], err_EvidenceRefs = Some [], err_Suggestion = [],
     err_Retryable = False, err_Cause = Some cause\<rparr>"

text \<open>
  How a call can fail: with a domain error, with an error of a library, kept as its text, or with
  the run-time panic of a nil dereference.  \<^verbatim>\<open>errors.As\<close> finds the domain error; every other
  error counts as internal.
\<close>

datatype go_error = DomainError Error | PlainError bytes | NilPanic

definition ErrorCodeOf :: "go_error \<Rightarrow> ErrorCode" where
  "ErrorCodeOf e = (case e of DomainError d \<Rightarrow> err_Code d | _ \<Rightarrow> CodeInternal)"

end
