(* ===== verification/Verdict_Rules.thy ===== *)
theory Verdict_Rules
  imports Domain
begin

section \<open>Verdicts (\<^verbatim>\<open>internal/verification/verification.go\<close>)\<close>

text \<open>
  The pure rules that turn findings, assertions, repeats, runner features and resource counters
  into verdicts: one definition per function of the source.  Findings are a list of pointers, so
  a nil pointer is \<open>None\<close>; the one loop of \<^verbatim>\<open>functionalVerdict\<close> that would dereference
  it makes that function partial, and \<open>None\<close> as its result is the run-time panic.
\<close>

subsection \<open>The aggregate verdict\<close>

definition aggregate :: "Verdicts \<Rightarrow> OverallVerdict" where
  "aggregate r =
    (if v_Evidence r = EvidenceTampered \<or> v_Evidence r = EvidenceUntrustedSigner
     then OverallNonconforming
     else if v_Freshness r \<noteq> FreshnessCurrent then OverallStale
     else if v_Functional r = FunctionalBlocked then OverallBlocked
     else if v_Functional r = FunctionalInconclusive then OverallInconclusive
     else if v_Functional r = FunctionalFail then OverallFailed
     else if v_Capability r = CapabilityNonconforming \<or> v_Cleanup r = CleanupUndeclaredResidue
     then OverallNonconforming
     else if v_Capability r = CapabilityIncomplete \<or> v_Cleanup r = CleanupNotTested
        \<or> v_Reproducibility r = ReproducibilityFlaky
        \<or> v_Reproducibility r = ReproducibilityNotReproducible
     then OverallInconclusive
     else if v_Functional r = FunctionalPass
        \<and> (v_Capability r = CapabilityConforming \<or> v_Capability r = CapabilityWarning)
        \<and> (v_Cleanup r = CleanupClean \<or> v_Cleanup r = CleanupAllowedResidue)
     then if v_Capability r = CapabilityWarning
            \<or> v_Reproducibility r = ReproducibilityNotTested
            \<or> v_Evidence r = EvidenceNone \<or> v_Evidence r = EvidenceUnsigned
            \<or> v_Evidence r = EvidenceSelfSigned \<or> v_Cleanup r = CleanupAllowedResidue
          then OverallVerifiedWithWarnings
          else OverallVerified
     else OverallInconclusive)"

subsection \<open>Functional verdict\<close>

definition has_code :: "ErrorCode list \<Rightarrow> Error option list \<Rightarrow> bool" where
  "has_code codes errs \<longleftrightarrow>
    (\<exists>item \<in> set errs. case item of None \<Rightarrow> False | Some e \<Rightarrow> err_Code e \<in> set codes)"

definition blocked_codes :: "ErrorCode list" where
  "blocked_codes =
    [CodeRunnerUnavailable, CodeRunnerFeatureUnavailable, CodeSandboxPrepareFailed,
     CodeMutableBaseImage, CodeRuntimeVersionUnresolved]"

definition failed_codes :: "ErrorCode list" where
  "failed_codes =
    [CodeJourneyAssertionFailed, CodeSetupFailed, CodeBuildFailed, CodeServiceStartFailed,
     CodeReadinessFailed]"

definition inconclusive_codes :: "ErrorCode list" where
  "inconclusive_codes =
    [CodeTimeout, CodeObserverIncomplete, CodeObservationSchemaInvalid,
     CodeNondeterministicResult, CodeSourceDigestMismatch]"

text \<open>The first assertion that is not a pass decides.\<close>

fun assertion_verdict :: "AssertionResult list \<Rightarrow> FunctionalVerdict option" where
  "assertion_verdict [] = None"
| "assertion_verdict (a # as) =
    (if ar_Status a = ''fail'' \<or> ar_Status a = ''failed'' then Some FunctionalFail
     else if ar_Status a = ''blocked'' then Some FunctionalBlocked
     else if ar_Status a = ''inconclusive'' then Some FunctionalInconclusive
     else assertion_verdict as)"

text \<open>The loop without a nil check: \<open>None\<close> is the panic of \<^verbatim>\<open>item.Code\<close> on a nil item.\<close>

fun inconclusive_finding :: "Error option list \<Rightarrow> bool option" where
  "inconclusive_finding [] = Some False"
| "inconclusive_finding (None # _) = None"
| "inconclusive_finding (Some e # es) =
    (if err_Code e \<in> set inconclusive_codes then Some True else inconclusive_finding es)"

definition passing :: "AssertionResult \<Rightarrow> bool" where
  "passing a \<longleftrightarrow> ar_Status a = ''pass'' \<or> ar_Status a = ''passed''"

definition functionalVerdict ::
  "Error option list \<Rightarrow> AssertionResult list \<Rightarrow> int \<Rightarrow> FunctionalVerdict option" where
  "functionalVerdict errs assertions completed =
    (if has_code blocked_codes errs then Some FunctionalBlocked
     else if has_code failed_codes errs then Some FunctionalFail
     else case assertion_verdict assertions of
       Some v \<Rightarrow> Some v
     | None \<Rightarrow>
         (case inconclusive_finding errs of
            None \<Rightarrow> None
          | Some True \<Rightarrow> Some FunctionalInconclusive
          | Some False \<Rightarrow>
              if completed = 0 \<or> assertions = [] then Some FunctionalInconclusive
              else if \<exists>a \<in> set assertions. \<not> passing a then Some FunctionalInconclusive
              else Some FunctionalPass))"

subsection \<open>Capability, cleanup and reproducibility\<close>

definition capability_codes :: "ErrorCode list" where
  "capability_codes =
    [CodeUndeclaredFilesystemWrite, CodeForbiddenFilesystemAccess, CodeUndeclaredNetwork,
     CodeForbiddenNetworkAttempt, CodeUndeclaredPortListen, CodeUndeclaredProcessExec]"

definition capabilityVerdict :: "Error option list \<Rightarrow> bool \<Rightarrow> CapabilityVerdict" where
  "capabilityVerdict errs coverageComplete =
    (if has_code capability_codes errs then CapabilityNonconforming
     else if \<not> coverageComplete then CapabilityIncomplete
     else CapabilityConforming)"

definition known_cleanup :: "CleanupVerdict \<Rightarrow> bool" where
  "known_cleanup v \<longleftrightarrow>
    v \<in> {CleanupClean, CleanupAllowedResidue, CleanupUndeclaredResidue, CleanupNotTested}"

definition cleanupVerdict ::
  "CleanupVerdict \<Rightarrow> int \<Rightarrow> Error option list \<Rightarrow> CleanupVerdict" where
  "cleanupVerdict declared completed errs =
    (if completed = 0 then CleanupNotTested
     else let declared = (if known_cleanup declared then declared else CleanupNotTested);
              undeclared = (declared = CleanupUndeclaredResidue
                \<or> has_code [CodeCleanupResidue, CodeProcessLeak] errs);
              technicalFailure = has_code [CodeCleanupFailed, CodeSandboxDestroyFailed] errs
       in if undeclared then CleanupUndeclaredResidue
          else if technicalFailure then CleanupNotTested
          else declared)"

definition cleanup_rank :: "CleanupVerdict \<Rightarrow> nat" where
  "cleanup_rank v =
    (if v = CleanupUndeclaredResidue then 4
     else if v = CleanupNotTested then 3
     else if v = CleanupAllowedResidue then 2
     else if v = CleanupClean then 1
     else 0)"

definition aggregateCleanupVerdict ::
  "CleanupVerdict \<Rightarrow> CleanupVerdict \<Rightarrow> CleanupVerdict" where
  "aggregateCleanupVerdict left right =
    (if cleanup_rank right > cleanup_rank left then right else left)"

fun nil_index_from :: "int \<Rightarrow> Error option list \<Rightarrow> int" where
  "nil_index_from i [] = - 1"
| "nil_index_from i (None # _) = i"
| "nil_index_from i (Some _ # es) = nil_index_from (i + 1) es"

definition nilErrorIndex :: "Error option list \<Rightarrow> int" where
  "nilErrorIndex errs = nil_index_from 0 errs"

definition reproducibilityVerdict :: "int \<Rightarrow> int \<Rightarrow> int \<Rightarrow> int \<Rightarrow> ReproducibilityVerdict" where
  "reproducibilityVerdict requested completed matching threshold =
    (if requested \<le> 1 \<or> completed = 0 then ReproducibilityNotTested
     else if completed \<noteq> requested then ReproducibilityNotReproducible
     else if matching = requested then ReproducibilityStable
     else if matching < threshold then ReproducibilityNotReproducible
     else ReproducibilityFlaky)"

subsection \<open>Observer coverage and runner features\<close>

definition observerRequired :: "bytes list \<Rightarrow> bytes \<Rightarrow> bool" where
  "observerRequired observers target \<longleftrightarrow> (\<exists>observer \<in> set observers. observer = target)"

definition normalizeCoverage :: "bytes \<Rightarrow> bytes" where
  "normalizeCoverage value =
    (if value \<in> {''full'', ''high'', ''best-effort'', ''enforcement-only'', ''unavailable''}
     then value else ''unavailable'')"

definition normalizeObservationCoverage :: "bytes \<Rightarrow> bytes" where
  "normalizeObservationCoverage value =
    (if value \<in> {''full'', ''high'', ''best-effort'', ''unavailable''}
     then value else ''unavailable'')"

definition observer_coverage :: "RunnerFeatures \<Rightarrow> bytes \<Rightarrow> bytes" where
  "observer_coverage runner observer =
    (if observer = ''network-enforcement'' then
       normalizeCoverage (if rf_NetworkDeny runner then ''full'' else ''unavailable'')
     else if observer = ''filesystem-write'' then
       normalizeObservationCoverage (rf_FilesystemWriteObservation runner)
     else if observer = ''process-exec'' then
       normalizeObservationCoverage (rf_ProcessExecObservation runner)
     else if observer = ''port-listen'' then
       normalizeObservationCoverage (rf_PortObservation runner)
     else if observer = ''resource-usage'' then
       normalizeObservationCoverage (rf_ResourceUsage runner)
     else ''unavailable'')"

definition adequate :: "bytes \<Rightarrow> bool" where
  "adequate coverage \<longleftrightarrow> coverage = ''full'' \<or> coverage = ''high''"

definition coverage_item :: "RunnerFeatures \<Rightarrow> bytes \<Rightarrow> ObserverCoverage" where
  "coverage_item runner observer =
    (let coverage = observer_coverage runner observer in
     \<lparr>oc_Observer = observer, oc_Feature = observer, oc_Coverage = coverage, oc_Required = True,
      oc_Reason = (if adequate coverage then []
        else ''Required coverage is unavailable or below the v0.1 acceptance threshold.'')\<rparr>)"

definition coverageFor ::
  "bytes list \<Rightarrow> RunnerFeatures \<Rightarrow> ObserverCoverage list \<times> bool" where
  "coverageFor required runner =
    (map (coverage_item runner) required,
     \<forall>observer \<in> set required. adequate (observer_coverage runner observer))"

definition or_default :: "bytes \<Rightarrow> bytes \<Rightarrow> bytes" where
  "or_default value dflt = (if value = [] then dflt else value)"

definition normalizeRunner :: "RunnerFeatures \<Rightarrow> RunnerFeatures" where
  "normalizeRunner value = value\<lparr>
     rf_Backend := or_default (rf_Backend value) ''none'',
     rf_ControllerOS := or_default (rf_ControllerOS value) ''unknown'',
     rf_WorkloadOS := or_default (rf_WorkloadOS value) ''unknown'',
     rf_Rootless := or_default (rf_Rootless value) ''unknown'',
     rf_NetworkAttemptObservation := normalizeCoverage (rf_NetworkAttemptObservation value),
     rf_ProcessExecObservation := normalizeObservationCoverage (rf_ProcessExecObservation value),
     rf_FilesystemWriteObservation :=
       normalizeObservationCoverage (rf_FilesystemWriteObservation value),
     rf_FilesystemReadObservation :=
       normalizeObservationCoverage (rf_FilesystemReadObservation value),
     rf_PortObservation := normalizeObservationCoverage (rf_PortObservation value),
     rf_ResourceUsage := normalizeObservationCoverage (rf_ResourceUsage value)\<rparr>"

text \<open>The baseline policy depends on the plan only through its policy bundle digest.\<close>

definition policy_decision :: "bytes \<Rightarrow> bytes \<Rightarrow> bool \<Rightarrow> bytes \<Rightarrow> bytes \<Rightarrow> PolicyDecision" where
  "policy_decision bundle ident ok okMessage denyMessage =
    \<lparr>pol_PolicyID = ident, pol_PolicyBundleDigest = bundle,
     pol_Decision = (if ok then ''allow'' else ''deny''), pol_Severity = SeverityHigh,
     pol_Message = (if ok then okMessage else denyMessage), pol_EvidenceRefs = []\<rparr>"

definition baselinePolicy :: "bytes \<Rightarrow> RunnerFeatures \<Rightarrow> bool \<Rightarrow> PolicyDecision list" where
  "baselinePolicy bundle runner coverageComplete =
    [policy_decision bundle ''core.runtime-network-deny'' (rf_NetworkDeny runner)
       ''Runtime network deny is enforced.'' ''Runtime network deny is not enforced.'',
     policy_decision bundle ''core.required-observer-coverage'' coverageComplete
       ''Required observer coverage is sufficient.''
       ''Required observer coverage is incomplete.'',
     policy_decision bundle ''core.resource-limit-enforcement''
       (rf_ResourceLimitEnforcement runner)
       ''Resource limits are enforced by the runner.''
       ''Resource-limit enforcement is not reported as active.'']"

subsection \<open>Resource summaries\<close>

definition validResourceObservedField :: "ResourceObservedField \<Rightarrow> bool" where
  "validResourceObservedField value \<longleftrightarrow>
    value \<in> {ResourceObservedMaxTasks, ResourceObservedOutputBytes,
      ResourceObservedSandboxCPUTimeMillis, ResourceObservedSandboxPeakMemoryBytes,
      ResourceObservedWritableBytes}"

fun observed_fields_error :: "nat \<Rightarrow> bytes \<Rightarrow> ResourceObservedField list \<Rightarrow> bytes option" where
  "observed_fields_error index previous [] = None"
| "observed_fields_error index previous (field # rest) =
    (if \<not> validResourceObservedField field
     then Some (''observedFields['' @ dec_nat index @ '']'')
     else if index > 0 \<and> field \<le> previous then Some ''observedFields''
     else observed_fields_error (Suc index) field rest)"

fun unobserved_field ::
  "ResourceObservedField list \<Rightarrow> (ResourceObservedField \<times> int) list \<Rightarrow> bytes" where
  "unobserved_field observed [] = []"
| "unobserved_field observed ((field, value) # items) =
    (if value \<noteq> 0 \<and> field \<notin> set observed then field
     else unobserved_field observed items)"

definition invalidResourceSummaryField :: "ResourceSummary \<Rightarrow> bytes" where
  "invalidResourceSummaryField value =
    (if res_PeakMemoryBytes value < 0 then ''peakMemoryBytes''
     else if res_CPUTimeMillis value < 0 then ''cpuTimeMillis''
     else if res_DurationMillis value < 0 then ''durationMillis''
     else if res_MaxProcesses value < 0 then ''maxProcesses''
     else if res_LogBytes value < 0 then ''logBytes''
     else if res_SandboxPeakMemoryBytes value < 0 then ''sandboxPeakMemoryBytes''
     else if res_SandboxCPUTimeMillis value < 0 then ''sandboxCPUTimeMillis''
     else if res_MaxTasks value < 0 then ''maxTasks''
     else if res_WritableBytes value < 0 then ''writableBytes''
     else if res_OutputBytes value < 0 then ''outputBytes''
     else case observed_fields_error 0 [] (res_ObservedFields value) of
       Some field \<Rightarrow> field
     | None \<Rightarrow>
         unobserved_field (res_ObservedFields value)
           [(ResourceObservedMaxTasks, res_MaxTasks value),
            (ResourceObservedOutputBytes, res_OutputBytes value),
            (ResourceObservedSandboxCPUTimeMillis, res_SandboxCPUTimeMillis value),
            (ResourceObservedSandboxPeakMemoryBytes, res_SandboxPeakMemoryBytes value),
            (ResourceObservedWritableBytes, res_WritableBytes value)])"

subsection \<open>Lemmas\<close>

lemma has_code_None [simp]: "has_code cs (None # es) = has_code cs es"
  by (simp add: has_code_def)

lemma has_code_Some [simp]: "has_code cs (Some e # es) \<longleftrightarrow> err_Code e \<in> set cs \<or> has_code cs es"
  by (simp add: has_code_def)

lemma has_code_Nil [simp]: "\<not> has_code cs []"
  by (simp add: has_code_def)

lemma has_code_append: "has_code (cs @ ds) es \<longleftrightarrow> has_code cs es \<or> has_code ds es"
proof (induction es)
  case (Cons e es)
  then show ?case by (cases e) auto
qed simp

lemma inconclusive_finding_total:
  "None \<notin> set errs \<Longrightarrow> inconclusive_finding errs = Some (has_code inconclusive_codes errs)"
  by (induction errs rule: inconclusive_finding.induct) auto

lemma assertion_verdict_passing:
  "\<forall>a \<in> set as. passing a \<Longrightarrow> assertion_verdict as = None"
  by (induction as) (auto simp: passing_def)

lemma assertion_verdict_not_pass: "assertion_verdict as \<noteq> Some FunctionalPass"
  by (induction as) (auto simp: go_const)

lemma nil_index_from_neg: "0 \<le> i \<Longrightarrow> nil_index_from i errs < 0 \<longleftrightarrow> None \<notin> set errs"
  by (induction i errs rule: nil_index_from.induct) auto

lemma nilErrorIndex_neg: "nilErrorIndex errs < 0 \<longleftrightarrow> None \<notin> set errs"
  by (simp add: nilErrorIndex_def nil_index_from_neg)

lemma functionalVerdict_total:
  "None \<notin> set errs \<Longrightarrow> functionalVerdict errs as n \<noteq> None"
  by (auto simp: functionalVerdict_def inconclusive_finding_total split: option.splits bool.splits)

lemma functionalVerdict_Pass:
  assumes "None \<notin> set errs"
  shows "functionalVerdict errs as n = Some FunctionalPass \<longleftrightarrow>
    \<not> has_code blocked_codes errs \<and> \<not> has_code failed_codes errs \<and>
    \<not> has_code inconclusive_codes errs \<and> n \<noteq> 0 \<and> as \<noteq> [] \<and> (\<forall>a \<in> set as. passing a)"
proof -
  have neq: "FunctionalBlocked \<noteq> FunctionalPass" "FunctionalFail \<noteq> FunctionalPass"
    "FunctionalInconclusive \<noteq> FunctionalPass"
    by (simp_all add: go_const)
  show ?thesis
    using assms neq assertion_verdict_passing [of as] assertion_verdict_not_pass [of as]
    by (cases "assertion_verdict as")
       (auto simp: functionalVerdict_def inconclusive_finding_total split: bool.splits)
qed

lemma normalizeCoverage_idem [simp]: "normalizeCoverage (normalizeCoverage c) = normalizeCoverage c"
  by (simp add: normalizeCoverage_def)

lemma normalizeObservationCoverage_idem [simp]:
  "normalizeObservationCoverage (normalizeObservationCoverage c) = normalizeObservationCoverage c"
  by (simp add: normalizeObservationCoverage_def)

lemma or_default_idem [simp]: "or_default (or_default v d) d = or_default v d"
  by (simp add: or_default_def)

lemma normalizeRunner_idem [simp]: "normalizeRunner (normalizeRunner r) = normalizeRunner r"
  by (simp add: normalizeRunner_def)

lemma coverage_item_simps [simp]:
  "oc_Feature (coverage_item r x) = x" "oc_Required (coverage_item r x)"
  by (simp_all add: coverage_item_def Let_def)

lemma coverageFor_features: "map oc_Feature (fst (coverageFor xs r)) = xs"
  by (simp add: coverageFor_def comp_def)

lemmas cleanup_verdict_values =
  CleanupClean_def CleanupAllowedResidue_def CleanupUndeclaredResidue_def CleanupNotTested_def

lemma cleanup_rank_inj:
  "known_cleanup a \<Longrightarrow> known_cleanup b \<Longrightarrow> cleanup_rank a = cleanup_rank b \<longleftrightarrow> a = b"
  by (auto simp: known_cleanup_def cleanup_rank_def cleanup_verdict_values)

lemma cleanup_rank_aggregate [simp]:
  "cleanup_rank (aggregateCleanupVerdict a b) = max (cleanup_rank a) (cleanup_rank b)"
  by (simp add: aggregateCleanupVerdict_def)

lemma known_cleanup_aggregate [simp]:
  "known_cleanup a \<Longrightarrow> known_cleanup b \<Longrightarrow> known_cleanup (aggregateCleanupVerdict a b)"
  by (simp add: aggregateCleanupVerdict_def)

lemma known_cleanup_values [simp]:
  "known_cleanup CleanupClean" "known_cleanup CleanupAllowedResidue"
  "known_cleanup CleanupUndeclaredResidue" "known_cleanup CleanupNotTested"
  by (simp_all add: known_cleanup_def)

lemma cleanupVerdict_cases:
  "completed \<noteq> 0 \<Longrightarrow> known_cleanup d \<Longrightarrow> cleanupVerdict d completed errs =
    (if d = CleanupUndeclaredResidue \<or> has_code [CodeCleanupResidue, CodeProcessLeak] errs
     then CleanupUndeclaredResidue
     else if has_code [CodeCleanupFailed, CodeSandboxDestroyFailed] errs then CleanupNotTested
     else d)"
  by (simp add: cleanupVerdict_def)

lemma observed_fields_error_None:
  "observed_fields_error (Suc i) p fs = None \<longleftrightarrow>
    (\<forall>f \<in> set fs. validResourceObservedField f) \<and> sorted_wrt (<) (p # fs)"
proof (induction fs arbitrary: i p)
  case (Cons f fs)
  show ?case
    unfolding observed_fields_error.simps using Cons
    by (auto simp: not_le)
qed simp

lemma observed_fields_error_start:
  "observed_fields_error 0 p fs = None \<longleftrightarrow>
    (\<forall>f \<in> set fs. validResourceObservedField f) \<and> sorted_wrt (<) fs"
  by (cases fs) (auto simp: observed_fields_error_None)

lemma observed_fields_error_not_Nil: "observed_fields_error i p fs \<noteq> Some []"
  by (induction i p fs rule: observed_fields_error.induct) auto

lemma unobserved_field_Nil:
  "(\<forall>(f, v) \<in> set items. f \<noteq> []) \<Longrightarrow>
    unobserved_field fs items = [] \<longleftrightarrow> (\<forall>(f, v) \<in> set items. v \<noteq> 0 \<longrightarrow> f \<in> set fs)"
  by (induction fs items rule: unobserved_field.induct) auto

lemma aggregate_positive:
  "aggregate r \<in> {OverallVerified, OverallVerifiedWithWarnings} \<longleftrightarrow>
    v_Evidence r \<notin> {EvidenceTampered, EvidenceUntrustedSigner} \<and>
    v_Freshness r = FreshnessCurrent \<and> v_Functional r = FunctionalPass \<and>
    v_Capability r \<in> {CapabilityConforming, CapabilityWarning} \<and>
    v_Cleanup r \<in> {CleanupClean, CleanupAllowedResidue} \<and>
    v_Reproducibility r \<notin> {ReproducibilityFlaky, ReproducibilityNotReproducible}"
  by (simp add: aggregate_def go_const)

subsection \<open>Properties\<close>


text \<open>
  C10.  Without a nil finding the functional verdict is defined, and it is a pass exactly when no
  finding blocks, fails or unsettles the run, at least one repeat completed, there is at least one
  assertion, and every assertion passed.
\<close>

theorem functionalVerdict_pass_iff:
  assumes "None \<notin> set errs"
  shows "\<exists>v. functionalVerdict errs assertions completed = Some v \<and>
    (v = FunctionalPass \<longleftrightarrow>
      \<not> has_code (blocked_codes @ failed_codes @ inconclusive_codes) errs \<and> completed \<noteq> 0 \<and>
      assertions \<noteq> [] \<and> (\<forall>a \<in> set assertions. ar_Status a \<in> {''pass'', ''passed''}))"
proof -
  obtain v where v: "functionalVerdict errs assertions completed = Some v"
    using functionalVerdict_total [OF assms] by fastforce
  with functionalVerdict_Pass [OF assms, of assertions completed] show ?thesis
    by (auto simp: passing_def has_code_append)
qed

definition sample_assertion :: "bytes \<Rightarrow> AssertionResult" where
  "sample_assertion status =
    \<lparr>ar_SchemaVersion = ''1'', ar_ID = ''exit-zero'', ar_Type = ''exitCode'', ar_Required = True,
     ar_Expected = AInt GoInt 0, ar_Actual = AInt GoInt 0, ar_Status = status,
     ar_EvidenceRefs = Some [], ar_Message = [], ar_Repeat = 1, ar_DurationMillis = 5\<rparr>"

theorem functionalVerdict_pass_iff_witness:
  "functionalVerdict [Some (NewError CodeCleanupResidue SeverityHigh [])]
    [sample_assertion ''pass''] 1 = Some FunctionalPass"
proof -
  have "\<not> has_code (blocked_codes @ failed_codes @ inconclusive_codes)
      [Some (NewError CodeCleanupResidue SeverityHigh [])]"
    by (simp add: blocked_codes_def failed_codes_def inconclusive_codes_def NewError_def go_const)
  then show ?thesis
    using functionalVerdict_pass_iff [of "[Some (NewError CodeCleanupResidue SeverityHigh [])]"
        "[sample_assertion ''pass'']" 1]
    by (auto simp: sample_assertion_def)
qed

text \<open>
  C11.  A resource summary is accepted exactly when no counter is negative, the observed fields are
  known names in strictly ascending order, and every sandbox counter that is not zero is listed
  as observed.
\<close>

theorem invalidResourceSummaryField_empty_iff:
  "invalidResourceSummaryField r = [] \<longleftrightarrow>
    0 \<le> res_PeakMemoryBytes r \<and> 0 \<le> res_CPUTimeMillis r \<and> 0 \<le> res_DurationMillis r \<and>
    0 \<le> res_MaxProcesses r \<and> 0 \<le> res_LogBytes r \<and> 0 \<le> res_SandboxPeakMemoryBytes r \<and>
    0 \<le> res_SandboxCPUTimeMillis r \<and> 0 \<le> res_MaxTasks r \<and> 0 \<le> res_WritableBytes r \<and>
    0 \<le> res_OutputBytes r \<and>
    list_all validResourceObservedField (res_ObservedFields r) \<and>
    sorted_wrt (<) (res_ObservedFields r) \<and>
    (res_MaxTasks r = 0 \<or> ResourceObservedMaxTasks \<in> set (res_ObservedFields r)) \<and>
    (res_OutputBytes r = 0 \<or> ResourceObservedOutputBytes \<in> set (res_ObservedFields r)) \<and>
    (res_SandboxCPUTimeMillis r = 0 \<or>
      ResourceObservedSandboxCPUTimeMillis \<in> set (res_ObservedFields r)) \<and>
    (res_SandboxPeakMemoryBytes r = 0 \<or>
      ResourceObservedSandboxPeakMemoryBytes \<in> set (res_ObservedFields r)) \<and>
    (res_WritableBytes r = 0 \<or> ResourceObservedWritableBytes \<in> set (res_ObservedFields r))"
proof -
  let ?items = "[(ResourceObservedMaxTasks, res_MaxTasks r),
    (ResourceObservedOutputBytes, res_OutputBytes r),
    (ResourceObservedSandboxCPUTimeMillis, res_SandboxCPUTimeMillis r),
    (ResourceObservedSandboxPeakMemoryBytes, res_SandboxPeakMemoryBytes r),
    (ResourceObservedWritableBytes, res_WritableBytes r)]"
  have "\<forall>(f, v) \<in> set ?items. f \<noteq> []"
    by (simp add: go_const)
  from unobserved_field_Nil [OF this, of "res_ObservedFields r"]
  have items: "unobserved_field (res_ObservedFields r) ?items = [] \<longleftrightarrow>
      (\<forall>(f, v) \<in> set ?items. v \<noteq> 0 \<longrightarrow> f \<in> set (res_ObservedFields r))" .
  show ?thesis
    using observed_fields_error_start [of "[]" "res_ObservedFields r"]
      observed_fields_error_not_Nil [of 0 "[]" "res_ObservedFields r"]
    unfolding invalidResourceSummaryField_def
    by (cases "observed_fields_error 0 [] (res_ObservedFields r)")
       (simp_all add: items list_all_iff del: unobserved_field.simps, auto)
qed

end
