(* ===== verification/Cleanup_Evidence.thy ===== *)
theory Cleanup_Evidence
  imports Verdict_Rules
begin

section \<open>Cleanup evidence (\<^verbatim>\<open>internal/verification/verification.go\<close>)\<close>

text \<open>
  How the verification layer reads a cleanup observation: the exact identity of the event, the
  details as a closed JSON object, the counters, the boundary flags, the failure classes and the
  token, and the aggregation over the repeats.  The text of an error of \<^verbatim>\<open>encoding/json\<close>
  inside a message is the constant \<open>json_error_text\<close>; everything else of a message is exact.
  The sums of counters wrap around like Go's \<^verbatim>\<open>int\<close>.
\<close>

subsection \<open>Model\<close>

definition json_error_text :: bytes where
  "json_error_text = ''json error''"

definition cleanupObservationOperation :: bytes where [go_const]:
  "cleanupObservationOperation = ''cleanup.residue.summary''"
definition cleanupObservationObserver :: bytes where [go_const]:
  "cleanupObservationObserver = ''controller-cleanup-residue-classifier''"
definition cleanupObservationResource :: bytes where [go_const]:
  "cleanupObservationResource = ''/outputs''"
definition cleanupObservationBoundary :: bytes where [go_const]:
  "cleanupObservationBoundary =
    ''post-quiescence-post-final-observers-post-disposable-pre-repair-pre-export-pre-destroy''"
definition cleanupObservationClassifier :: bytes where [go_const]:
  "cleanupObservationClassifier = ''0.1.0''"

record cleanupObservationDetails =
  cd_AllowedPatternCount :: int
  cd_AllowedProfile :: bytes
  cd_Boundary :: bytes
  cd_ClassifierVersion :: bytes
  cd_DirectoryCount :: int
  cd_DisposableCleanupVerified :: bool
  cd_EntryCount :: int
  cd_IdentityVerified :: bool
  cd_InventoryComplete :: bool
  cd_MaxControlBytes :: int
  cd_MaxDepth :: int
  cd_MaxEntries :: int
  cd_MaxPathBytes :: int
  cd_OpaqueInventoryToken :: bytes
  cd_QuiescenceConfirmed :: bool
  cd_RegularFileCount :: int
  cd_Scope :: bytes
  cd_SpecialCount :: int
  cd_SymlinkCount :: int
  cd_TokenScheme :: bytes
  cd_UnmatchedCount :: int
  cd_Verdict :: bytes
  cd_Failure :: bytes

text \<open>The JSON fields of the struct, in declaration order, and their assembly into the record.\<close>

definition cleanup_fields :: "(bytes \<times> field_kind) list" where
  "cleanup_fields =
    [(''allowedPatternCount'', KInt), (''allowedProfile'', KString), (''boundary'', KString),
     (''classifierVersion'', KString), (''directoryCount'', KInt),
     (''disposableCleanupVerified'', KBool), (''entryCount'', KInt), (''identityVerified'', KBool),
     (''inventoryComplete'', KBool), (''maxControlBytes'', KInt), (''maxDepth'', KInt),
     (''maxEntries'', KInt), (''maxPathBytes'', KInt), (''opaqueInventoryToken'', KString),
     (''quiescenceConfirmed'', KBool), (''regularFileCount'', KInt), (''scope'', KString),
     (''specialCount'', KInt), (''symlinkCount'', KInt), (''tokenScheme'', KString),
     (''unmatchedCount'', KInt), (''verdict'', KString), (''failure'', KString)]"

definition cleanup_details_of :: "struct_env \<Rightarrow> cleanupObservationDetails" where
  "cleanup_details_of e = \<lparr>
     cd_AllowedPatternCount = int_field e ''allowedPatternCount'',
     cd_AllowedProfile = str_field e ''allowedProfile'',
     cd_Boundary = str_field e ''boundary'',
     cd_ClassifierVersion = str_field e ''classifierVersion'',
     cd_DirectoryCount = int_field e ''directoryCount'',
     cd_DisposableCleanupVerified = bool_field e ''disposableCleanupVerified'',
     cd_EntryCount = int_field e ''entryCount'',
     cd_IdentityVerified = bool_field e ''identityVerified'',
     cd_InventoryComplete = bool_field e ''inventoryComplete'',
     cd_MaxControlBytes = int_field e ''maxControlBytes'',
     cd_MaxDepth = int_field e ''maxDepth'',
     cd_MaxEntries = int_field e ''maxEntries'',
     cd_MaxPathBytes = int_field e ''maxPathBytes'',
     cd_OpaqueInventoryToken = str_field e ''opaqueInventoryToken'',
     cd_QuiescenceConfirmed = bool_field e ''quiescenceConfirmed'',
     cd_RegularFileCount = int_field e ''regularFileCount'',
     cd_Scope = str_field e ''scope'',
     cd_SpecialCount = int_field e ''specialCount'',
     cd_SymlinkCount = int_field e ''symlinkCount'',
     cd_TokenScheme = str_field e ''tokenScheme'',
     cd_UnmatchedCount = int_field e ''unmatchedCount'',
     cd_Verdict = str_field e ''verdict'',
     cd_Failure = str_field e ''failure''\<rparr>"

definition cleanup_required :: "bytes list" where
  "cleanup_required =
    [''allowedPatternCount'', ''allowedProfile'', ''boundary'', ''classifierVersion'',
     ''directoryCount'', ''disposableCleanupVerified'', ''entryCount'', ''identityVerified'',
     ''inventoryComplete'', ''maxControlBytes'', ''maxDepth'', ''maxEntries'', ''maxPathBytes'',
     ''quiescenceConfirmed'', ''regularFileCount'', ''scope'', ''specialCount'', ''symlinkCount'',
     ''unmatchedCount'', ''verdict'']"

definition doc_has_key :: "json \<Rightarrow> bytes \<Rightarrow> bool" where
  "doc_has_key doc k = (case doc of JObj ms \<Rightarrow> has_key ms k | _ \<Rightarrow> False)"

text \<open>
  Reading the details: marshalling, the map of raw fields with the presence test, the strict
  decoding into the struct, and the second read that must not find another object.
\<close>

definition second_value :: "bytes \<Rightarrow> bool" where
  "second_value rest =
    (case json_decode rest of
       Some (JObj [], _) \<Rightarrow> True
     | Some (JNull, _) \<Rightarrow> True
     | _ \<Rightarrow> False)"

definition read_cleanup_details ::
  "(bytes \<times> goany) list \<Rightarrow> (bytes, cleanupObservationDetails) result" where
  "read_cleanup_details details =
    (case go_marshal (AMap details) of
       None \<Rightarrow> Inl (''cleanup observation details: '' @ json_error_text)
     | Some raw \<Rightarrow>
         (case json_decode raw of
            None \<Rightarrow> Inl (''cleanup observation details: '' @ json_error_text)
          | Some (doc, rest) \<Rightarrow>
              (case find (\<lambda>k. \<not> doc_has_key doc k) cleanup_required of
                 Some k \<Rightarrow> Inl (''cleanup observation detail '' @ quote False k @ '' is absent'')
               | None \<Rightarrow>
                   (case decode_struct cleanup_fields doc of
                      None \<Rightarrow>
                        Inl (''cleanup observation details are not exact: '' @ json_error_text)
                    | Some env \<Rightarrow>
                        if second_value rest
                        then Inl ''cleanup observation details contain trailing data''
                        else Inr (cleanup_details_of env)))))"

definition is_hex :: "byte \<Rightarrow> bool" where
  "is_hex c \<longleftrightarrow> is_lower_hex c \<or> (65 \<le> byte_val c \<and> byte_val c \<le> 70)"

definition validOpaqueCleanupToken :: "bytes \<Rightarrow> bool" where
  "validOpaqueCleanupToken value \<longleftrightarrow>
    has_prefix value ''hmac-sha256:'' \<and>
    (let encoded = trim_prefix value ''hmac-sha256:''
     in length encoded = 64 \<and> (\<forall>c \<in> set encoded. is_hex c))"

text \<open>Failure classes of an untested cleanup and the stage each belongs to.\<close>

definition failure_stage :: "bytes \<Rightarrow> bytes option" where
  "failure_stage failure =
    (if failure \<in> {''sandbox-boundary-unavailable'', ''inventory-not-attempted'',
         ''workload-quiescence-failed'', ''immutable-container-identity-unavailable''}
     then Some ''quiescence''
     else if failure \<in> {''disposable-removal-unavailable'', ''disposable-removal-failed''}
     then Some ''disposable''
     else if failure = ''container-identity-readback-failed'' then Some ''identity''
     else if failure \<in> {''inventory-helper-unavailable'', ''control-limit'', ''dirty-stderr'',
         ''helper-failed'', ''invalid-control'', ''count-mismatch'', ''entry-limit'',
         ''invalid-entry'', ''unsorted-or-duplicate'', ''inventory-unavailable''}
     then Some ''inventory''
     else if failure \<in> {''invalid-plan-contract'', ''random-unavailable'', ''token-unavailable''}
     then Some ''classification''
     else None)"

definition stage_error :: "bytes \<Rightarrow> cleanupObservationDetails \<Rightarrow> bytes option" where
  "stage_error stage d =
    (let q = cd_QuiescenceConfirmed d; p = cd_DisposableCleanupVerified d;
         i = cd_IdentityVerified d; c = cd_InventoryComplete d
     in first_error
       [(stage = ''quiescence'' \<and> (q \<or> p \<or> i \<or> c),
         ''cleanup failure class conflicts with quiescence flags''),
        (stage = ''disposable'' \<and> (\<not> q \<or> p \<or> i \<or> c),
         ''cleanup failure class conflicts with disposable flags''),
        (stage = ''identity'' \<and> (\<not> q \<or> \<not> p \<or> i \<or> c),
         ''cleanup failure class conflicts with identity flags''),
        (stage = ''inventory'' \<and> (\<not> q \<or> \<not> p \<or> \<not> i \<or> c),
         ''cleanup failure class conflicts with inventory flags''),
        (stage = ''classification'' \<and> (\<not> q \<or> \<not> p \<or> \<not> i \<or> \<not> c),
         ''cleanup failure class conflicts with classification flags'')])"

definition validateNotTestedCleanupDetails :: "cleanupObservationDetails \<Rightarrow> bytes option" where
  "validateNotTestedCleanupDetails d =
    (let q = cd_QuiescenceConfirmed d; p = cd_DisposableCleanupVerified d;
         i = cd_IdentityVerified d; c = cd_InventoryComplete d
     in if cd_Failure d = [] then Some ''not-tested cleanup observation has no failure class''
        else if \<not> q \<and> (p \<or> i \<or> c) \<or> \<not> p \<and> (i \<or> c) \<or> \<not> i \<and> c
        then Some ''not-tested cleanup observation boundary flags are not monotonic''
        else case failure_stage (cd_Failure d) of
          None \<Rightarrow> Some ''not-tested cleanup observation failure class is unsupported''
        | Some stage \<Rightarrow> stage_error stage d)"

definition cleanup_identity_error :: "ObservationEvent \<Rightarrow> bytes option" where
  "cleanup_identity_error e = first_error
    [(oe_SchemaVersion e \<noteq> ''1'' \<or> oe_Phase e \<noteq> PhaseCleanup \<or> oe_Actor e \<noteq> ''trusted-runner''
        \<or> oe_Operation e \<noteq> cleanupObservationOperation
        \<or> oe_Resource e \<noteq> cleanupObservationResource
        \<or> oe_Observer e \<noteq> cleanupObservationObserver,
      ''cleanup observation identity is not exact''),
     (IsZero (oe_Timestamp e), ''cleanup observation timestamp is absent'')]"

definition cleanup_counts_error :: "cleanupObservationDetails \<Rightarrow> bytes option" where
  "cleanup_counts_error d = first_error
    [(\<not> known_cleanup (cd_Verdict d), ''cleanup observation verdict is unsupported''),
     (cd_ClassifierVersion d \<noteq> cleanupObservationClassifier
        \<or> cd_Boundary d \<noteq> cleanupObservationBoundary \<or> cd_Scope d \<noteq> cleanupObservationResource
        \<or> cd_MaxControlBytes d \<noteq> 524288 \<or> cd_MaxDepth d \<noteq> 64 \<or> cd_MaxEntries d \<noteq> 2048
        \<or> cd_MaxPathBytes d \<noteq> 1024,
      ''cleanup observation classifier boundary is not exact''),
     (cd_AllowedPatternCount d < 0 \<or> cd_AllowedPatternCount d > 1
        \<or> cd_AllowedPatternCount d = 0 \<and> cd_AllowedProfile d \<noteq> ''none''
        \<or> cd_AllowedPatternCount d = 1 \<and> cd_AllowedProfile d \<noteq> ''outputs-descendants'',
      ''cleanup observation allowed-residue profile is invalid''),
     (\<exists>count \<in> set [cd_EntryCount d, cd_DirectoryCount d, cd_RegularFileCount d, cd_SpecialCount d,
        cd_SymlinkCount d, cd_UnmatchedCount d]. count < 0,
      ''cleanup observation count is negative''),
     (cd_EntryCount d \<noteq> wrap64 (cd_DirectoryCount d + cd_RegularFileCount d + cd_SpecialCount d
          + cd_SymlinkCount d)
        \<or> cd_UnmatchedCount d > cd_EntryCount d \<or> cd_EntryCount d > cd_MaxEntries d,
      ''cleanup observation counts are inconsistent''),
     (cd_UnmatchedCount d \<noteq> (if cd_AllowedPatternCount d = 1
        then wrap64 (cd_SpecialCount d + cd_SymlinkCount d) else cd_EntryCount d),
      ''cleanup observation unmatched count conflicts with allowed profile''),
     (\<not> cd_InventoryComplete d \<and> (cd_EntryCount d \<noteq> 0 \<or> cd_DirectoryCount d \<noteq> 0
        \<or> cd_RegularFileCount d \<noteq> 0 \<or> cd_SpecialCount d \<noteq> 0 \<or> cd_SymlinkCount d \<noteq> 0
        \<or> cd_UnmatchedCount d \<noteq> 0 \<or> cd_OpaqueInventoryToken d \<noteq> [] \<or> cd_TokenScheme d \<noteq> []),
      ''incomplete cleanup inventory exposes impossible aggregate data'')]"

definition cleanup_boundary_error :: "cleanupObservationDetails \<Rightarrow> bytes option" where
  "cleanup_boundary_error d =
    (if cd_Verdict d = CleanupNotTested then validateNotTestedCleanupDetails d
     else first_error
       [(cd_Failure d \<noteq> [] \<or> \<not> cd_InventoryComplete d \<or> \<not> cd_QuiescenceConfirmed d
           \<or> \<not> cd_DisposableCleanupVerified d \<or> \<not> cd_IdentityVerified d,
         ''decisive cleanup observation lacks trusted boundary flags'')])"

definition cleanup_verdict_error ::
  "ObservationEvent \<Rightarrow> cleanupObservationDetails \<Rightarrow> bytes option" where
  "cleanup_verdict_error e d =
    (let v = cd_Verdict d; untested = (v = CleanupNotTested) in first_error
      [(oe_Result e \<noteq> (if untested then ''failed'' else ''succeeded'')
          \<or> oe_Coverage e \<noteq> (if untested then ''unavailable'' else ''enforcement-only'')
          \<or> oe_Confidence e \<noteq> (if untested then ''unknown'' else ''high''),
        ''cleanup observation result metadata does not match verdict''),
       (v = CleanupClean \<and> (cd_EntryCount d \<noteq> 0 \<or> cd_UnmatchedCount d \<noteq> 0),
        ''clean cleanup observation has residue''),
       (v = CleanupAllowedResidue \<and> (cd_EntryCount d = 0 \<or> cd_UnmatchedCount d \<noteq> 0
          \<or> cd_AllowedPatternCount d \<noteq> 1 \<or> cd_SymlinkCount d \<noteq> 0 \<or> cd_SpecialCount d \<noteq> 0),
        ''allowed-residue cleanup observation is inconsistent''),
       (v = CleanupUndeclaredResidue \<and> (cd_EntryCount d = 0 \<or> cd_UnmatchedCount d = 0),
        ''undeclared-residue cleanup observation is inconsistent''),
       (cd_OpaqueInventoryToken d = [] \<and> cd_TokenScheme d \<noteq> [],
        ''cleanup observation token scheme has no token''),
       (cd_OpaqueInventoryToken d \<noteq> [] \<and> (cd_TokenScheme d \<noteq> ''ephemeral-keyed-hmac-sha256''
          \<or> \<not> validOpaqueCleanupToken (cd_OpaqueInventoryToken d)),
        ''cleanup observation token is invalid''),
       (\<not> untested \<and> cd_OpaqueInventoryToken d = [],
        ''decisive cleanup observation has no opaque token'')])"

definition cleanupVerdictFromObservation ::
  "ObservationEvent \<Rightarrow> (bytes, CleanupVerdict) result" where
  "cleanupVerdictFromObservation e =
    guarded (cleanup_identity_error e)
      (rbind (read_cleanup_details (oe_Details e)) (\<lambda>d.
        guarded (cleanup_counts_error d)
          (guarded (cleanup_boundary_error d)
            (guarded (cleanup_verdict_error e d) (Inr (cd_Verdict d))))))"

fun scan_cleanup ::
  "nat \<Rightarrow> CleanupVerdict \<Rightarrow> ObservationEvent list \<Rightarrow> (bytes, nat \<times> CleanupVerdict) result" where
  "scan_cleanup found declared [] = Inr (found, declared)"
| "scan_cleanup found declared (e # es) =
    (if oe_Operation e \<noteq> cleanupObservationOperation then scan_cleanup found declared es
     else case cleanupVerdictFromObservation e of
       Inl err \<Rightarrow> Inl (''cleanup observation '' @ dec_nat (Suc found) @ '': '' @ err)
     | Inr v \<Rightarrow> scan_cleanup (Suc found) (aggregateCleanupVerdict declared v) es)"

definition cleanupVerdictFromObservations ::
  "ObservationEvent list \<Rightarrow> int \<Rightarrow> (bytes, CleanupVerdict) result" where
  "cleanupVerdictFromObservations observations completed =
    (if completed < 0 then Inl ''completed repeat count is negative''
     else rbind (scan_cleanup 0 CleanupClean observations) (\<lambda>(found, declared).
       if int found \<noteq> completed
       then Inl (''cleanup observation count '' @ dec_nat found
         @ '' does not match completed repeat count '' @ dec_int completed)
       else if completed = 0 then Inr CleanupNotTested
       else Inr declared))"

subsection \<open>Lemmas\<close>

lemma second_value_Nil [simp]: "\<not> second_value []"
  by (simp add: second_value_def json_decode_def)

definition field_env :: "(bytes \<times> goany) list \<Rightarrow> struct_env" where
  "field_env ms = (\<lambda>n. case map_of ms n of None \<Rightarrow> zero_env cleanup_fields n | Some v \<Rightarrow> scalar_value v)"

lemma read_cleanup_flat:
  assumes "flat_fields cleanup_fields ms" and "set cleanup_required \<subseteq> set (map fst ms)"
  shows "read_cleanup_details ms = Inr (cleanup_details_of (field_env ms))"
proof -
  obtain raw ps where r: "go_marshal (AMap ms) = Some raw" "json_decode raw = Some (JObj ps, [])"
    "set (map fst ps) = set (map fst ms)" "decode_struct cleanup_fields (JObj ps) = Some (field_env ms)"
    using read_flat_object [OF assms(1)] unfolding field_env_def by blast
  have "doc_has_key (JObj ps) k" if "k \<in> set cleanup_required" for k
    using assms(2) r(3) that by (auto simp: doc_has_key_def has_key_def simp del: set_map)
  then have "find (\<lambda>k. \<not> doc_has_key (JObj ps) k) cleanup_required = None"
    by (simp add: find_None_iff)
  with r show ?thesis by (simp add: read_cleanup_details_def)
qed

text \<open>The details of a record as a map, and their round trip.\<close>

definition details_map :: "cleanupObservationDetails \<Rightarrow> (bytes \<times> goany) list" where
  "details_map d =
    [(''allowedPatternCount'', AInt GoInt (cd_AllowedPatternCount d)),
     (''allowedProfile'', AString (cd_AllowedProfile d)),
     (''boundary'', AString (cd_Boundary d)),
     (''classifierVersion'', AString (cd_ClassifierVersion d)),
     (''directoryCount'', AInt GoInt (cd_DirectoryCount d)),
     (''disposableCleanupVerified'', ABool (cd_DisposableCleanupVerified d)),
     (''entryCount'', AInt GoInt (cd_EntryCount d)),
     (''identityVerified'', ABool (cd_IdentityVerified d)),
     (''inventoryComplete'', ABool (cd_InventoryComplete d)),
     (''maxControlBytes'', AInt GoInt (cd_MaxControlBytes d)),
     (''maxDepth'', AInt GoInt (cd_MaxDepth d)),
     (''maxEntries'', AInt GoInt (cd_MaxEntries d)),
     (''maxPathBytes'', AInt GoInt (cd_MaxPathBytes d)),
     (''quiescenceConfirmed'', ABool (cd_QuiescenceConfirmed d)),
     (''regularFileCount'', AInt GoInt (cd_RegularFileCount d)),
     (''scope'', AString (cd_Scope d)),
     (''specialCount'', AInt GoInt (cd_SpecialCount d)),
     (''symlinkCount'', AInt GoInt (cd_SymlinkCount d)),
     (''unmatchedCount'', AInt GoInt (cd_UnmatchedCount d)),
     (''verdict'', AString (cd_Verdict d))] @
    omit_if (cd_OpaqueInventoryToken d = []) ''opaqueInventoryToken''
      (AString (cd_OpaqueInventoryToken d)) @
    omit_if (cd_TokenScheme d = []) ''tokenScheme'' (AString (cd_TokenScheme d)) @
    omit_if (cd_Failure d = []) ''failure'' (AString (cd_Failure d))"

definition details_ok :: "cleanupObservationDetails \<Rightarrow> bool" where
  "details_ok d \<longleftrightarrow>
    list_all int64_range [cd_AllowedPatternCount d, cd_DirectoryCount d, cd_EntryCount d,
      cd_MaxControlBytes d, cd_MaxDepth d, cd_MaxEntries d, cd_MaxPathBytes d,
      cd_RegularFileCount d, cd_SpecialCount d, cd_SymlinkCount d, cd_UnmatchedCount d] \<and>
    list_all valid_utf8 [cd_AllowedProfile d, cd_Boundary d, cd_ClassifierVersion d, cd_Scope d,
      cd_Verdict d, cd_OpaqueInventoryToken d, cd_TokenScheme d, cd_Failure d]"

lemma cleanup_fields_ascii: "\<forall>(k, v) \<in> set cleanup_fields. \<forall>c \<in> set k. byte_val c < 128"
  by (simp add: cleanup_fields_def)

lemma details_map_flat:
  assumes "details_ok d"
  shows "flat_fields cleanup_fields (details_map d)"
proof -
  have "distinct (map fst (details_map d))"
    by (simp add: details_map_def omit_if_def)
  moreover have "\<forall>(k, v) \<in> set (details_map d). scalar_ok (map_of cleanup_fields k) v"
    using assms
    by (simp add: details_map_def omit_if_def cleanup_fields_def details_ok_def del: valid_utf8.simps)
  ultimately show ?thesis
    using cleanup_fields_ascii unfolding flat_fields_def by blast
qed

lemma details_map_required: "set cleanup_required \<subseteq> set (map fst (details_map d))"
  by (simp add: cleanup_required_def details_map_def)

lemma details_map_env: "cleanup_details_of (field_env (details_map d)) = d"
  by (simp add: cleanup_details_of_def field_env_def details_map_def omit_if_def struct_field_defs
      zero_env_def cleanup_fields_def zero_value_def)

lemma read_details_map: "details_ok d \<Longrightarrow> read_cleanup_details (details_map d) = Inr d"
  using read_cleanup_flat [OF details_map_flat details_map_required] by (simp add: details_map_env)

lemma cleanup_observation_Inr:
  "cleanupVerdictFromObservation e = Inr v \<longleftrightarrow>
    cleanup_identity_error e = None \<and>
    (\<exists>d. read_cleanup_details (oe_Details e) = Inr d \<and> cleanup_counts_error d = None \<and>
      cleanup_boundary_error d = None \<and> cleanup_verdict_error e d = None \<and> v = cd_Verdict d)"
  by (auto simp: cleanupVerdictFromObservation_def guarded_Inr_iff rbind_Inr_iff)

lemma cleanup_observation_known: "cleanupVerdictFromObservation e = Inr v \<Longrightarrow> known_cleanup v"
  by (auto simp: cleanup_observation_Inr cleanup_counts_error_def split: if_splits)

text \<open>The verdict that the counters of a complete inventory call for.\<close>

definition counted_verdict :: "cleanupObservationDetails \<Rightarrow> CleanupVerdict" where
  "counted_verdict d =
    (if cd_EntryCount d = 0 then CleanupClean
     else if cd_UnmatchedCount d = 0 then CleanupAllowedResidue
     else CleanupUndeclaredResidue)"

definition boundary_flags :: "cleanupObservationDetails \<Rightarrow> bool list" where
  "boundary_flags d = [cd_QuiescenceConfirmed d, cd_DisposableCleanupVerified d,
     cd_IdentityVerified d, cd_InventoryComplete d]"

lemma decisive_verdict:
  assumes "cleanup_counts_error d = None" "cleanup_boundary_error d = None"
    "cleanup_verdict_error e d = None" "cd_Verdict d \<noteq> CleanupNotTested"
  shows "cd_Verdict d = counted_verdict d \<and> boundary_flags d = [True, True, True, True] \<and>
    validOpaqueCleanupToken (cd_OpaqueInventoryToken d)"
proof -
  have k: "known_cleanup (cd_Verdict d)"
    using assms(1) by (simp add: cleanup_counts_error_def split: if_splits)
  have b: "boundary_flags d = [True, True, True, True]"
    using assms(2,4) by (simp add: cleanup_boundary_error_def boundary_flags_def split: if_splits)
  have "cd_Verdict d = counted_verdict d"
    using assms(3,4) k
    by (auto simp: cleanup_verdict_error_def counted_verdict_def known_cleanup_def Let_def
        split: if_splits)
  moreover have "validOpaqueCleanupToken (cd_OpaqueInventoryToken d)"
    using assms(3,4) by (simp add: cleanup_verdict_error_def Let_def split: if_splits)
  ultimately show ?thesis using b by blast
qed

definition stage_level :: "bytes \<Rightarrow> nat" where
  "stage_level stage =
    (if stage = ''quiescence'' then 0 else if stage = ''disposable'' then 1
     else if stage = ''identity'' then 2 else if stage = ''inventory'' then 3 else 4)"

lemma stage_values:
  "failure_stage f = Some s \<Longrightarrow>
    s \<in> {''quiescence'', ''disposable'', ''identity'', ''inventory'', ''classification''}"
  unfolding failure_stage_def by (simp split: if_splits) 

lemma stage_error_flags:
  assumes "s \<in> {''quiescence'', ''disposable'', ''identity'', ''inventory'', ''classification''}"
  shows "stage_error s d = None \<longleftrightarrow>
    boundary_flags d = replicate (stage_level s) True @ replicate (4 - stage_level s) False"
  using assms
  by (auto simp: stage_error_def boundary_flags_def stage_level_def Let_def eval_nat_numeral)

lemma untested_flags:
  assumes "validateNotTestedCleanupDetails d = None"
  obtains s where "failure_stage (cd_Failure d) = Some s"
    "boundary_flags d = replicate (stage_level s) True @ replicate (4 - stage_level s) False"
proof -
  obtain s where s: "failure_stage (cd_Failure d) = Some s" "stage_error s d = None"
    using assms by (auto simp: validateNotTestedCleanupDetails_def Let_def split: if_splits option.splits)
  with stage_error_flags [OF stage_values [OF s(1)]] that show thesis by blast
qed

text \<open>Aggregation: the accepted verdicts, their number and their maximum.\<close>

definition cleanup_events :: "ObservationEvent list \<Rightarrow> ObservationEvent list" where
  "cleanup_events es = filter (\<lambda>e. oe_Operation e = cleanupObservationOperation) es"

lemma scan_cleanup_Inr:
  "scan_cleanup n d es = Inr (m, v) \<longleftrightarrow>
    (\<exists>vs. map cleanupVerdictFromObservation (cleanup_events es) = map Inr vs \<and>
      m = n + length vs \<and> v = foldl aggregateCleanupVerdict d vs)"
proof (induction es arbitrary: n d)
  case Nil
  then show ?case by (auto simp: cleanup_events_def)
next
  case (Cons e es)
  show ?case
  proof (cases "oe_Operation e = cleanupObservationOperation")
    case False
    with Cons show ?thesis by (simp add: cleanup_events_def)
  next
    case True
    then have ev: "cleanup_events (e # es) = e # cleanup_events es"
      by (simp add: cleanup_events_def)
    show ?thesis
    proof (cases "cleanupVerdictFromObservation e")
      case (Inl err)
      then have "map cleanupVerdictFromObservation (e # cleanup_events es) \<noteq> map Inr vs" for vs
        by (cases vs) auto
      with True Inl ev show ?thesis by simp
    next
      case (Inr w)
      have "scan_cleanup n d (e # es) = scan_cleanup (Suc n) (aggregateCleanupVerdict d w) es"
        using True Inr by simp
      with Cons [of "Suc n" "aggregateCleanupVerdict d w"] show ?thesis
        unfolding ev ex_map_Inr_Cons [of cleanupVerdictFromObservation, OF Inr]
        by (simp del: scan_cleanup.simps)
    qed
  qed
qed

lemma cleanup_observations_scan:
  "cleanupVerdictFromObservations es n = Inr v \<longleftrightarrow>
    (\<exists>m d. scan_cleanup 0 CleanupClean es = Inr (m, d) \<and> int m = n \<and>
      v = (if m = 0 then CleanupNotTested else d))"
proof (cases "scan_cleanup 0 CleanupClean es")
  case (Inl err)
  then show ?thesis by (simp add: cleanupVerdictFromObservations_def)
next
  case (Inr p)
  obtain m d where p: "p = (m, d)" by force
  have "cleanupVerdictFromObservations es n = Inr v \<longleftrightarrow>
      int m = n \<and> v = (if m = 0 then CleanupNotTested else d)"
    unfolding cleanupVerdictFromObservations_def Inr p rbind_simps prod.case
    by (cases "int m = n") auto
  then show ?thesis
    unfolding Inr p by simp
qed

lemma foldl_aggregate_rank:
  "cleanup_rank (foldl aggregateCleanupVerdict d vs) =
    foldr max (map cleanup_rank vs) (cleanup_rank d)"
proof (induction vs arbitrary: d)
  case (Cons v vs)
  have "foldr max xs (max a b) = max b (foldr max xs a)" for xs and a b :: nat
    by (induction xs) auto
  with Cons show ?case by (simp add: max.commute)
qed simp

lemma foldl_aggregate_known:
  "known_cleanup d \<Longrightarrow> \<forall>v \<in> set vs. known_cleanup v \<Longrightarrow>
    known_cleanup (foldl aggregateCleanupVerdict d vs)"
  by (induction vs arbitrary: d) auto

lemma foldl_aggregate_member:
  "foldl aggregateCleanupVerdict d vs \<in> insert d (set vs)"
  by (induction vs arbitrary: d) (auto simp: aggregateCleanupVerdict_def)

lemma foldr_max_ge: "x \<in> set (map f vs) \<Longrightarrow> (x::nat) \<le> foldr max (map f vs) z"
  by (induction vs) auto

lemma foldl_aggregate_ge:
  "w \<in> set vs \<Longrightarrow> cleanup_rank w \<le> cleanup_rank (foldl aggregateCleanupVerdict d vs)"
  unfolding foldl_aggregate_rank by (rule foldr_max_ge) simp

lemma foldl_aggregate_in:
  assumes "vs \<noteq> []" "\<forall>w \<in> set vs. known_cleanup w"
  shows "foldl aggregateCleanupVerdict CleanupClean vs \<in> set vs" (is "?f \<in> _")
proof (cases "?f = CleanupClean")
  case True
  obtain w where w: "w \<in> set vs" using assms(1) by (cases vs) auto
  have "1 \<le> cleanup_rank w" "cleanup_rank CleanupClean = 1"
    using assms(2) w by (auto simp: known_cleanup_def cleanup_rank_def cleanup_verdict_values)
  moreover have "cleanup_rank w \<le> cleanup_rank CleanupClean"
    using foldl_aggregate_ge [OF w, of CleanupClean] True by simp
  ultimately have "w = CleanupClean"
    using cleanup_rank_inj [of w CleanupClean] assms(2) w by simp
  with True w show ?thesis by simp
next
  case False
  then show ?thesis using foldl_aggregate_member [of CleanupClean vs] by blast
qed

lemma foldl_aggregate_gravest:
  assumes "vs \<noteq> []" "\<forall>w \<in> set vs. known_cleanup w"
  shows "v = foldl aggregateCleanupVerdict CleanupClean vs \<longleftrightarrow>
    v \<in> set vs \<and> (\<forall>w \<in> set vs. cleanup_rank w \<le> cleanup_rank v)"
  using foldl_aggregate_in [OF assms] foldl_aggregate_ge [of _ vs CleanupClean] assms(2)
    cleanup_rank_inj by (metis le_antisym)

lemma accepted_known:
  assumes "map cleanupVerdictFromObservation es = map Inr vs" "w \<in> set vs"
  shows "known_cleanup w"
proof -
  have "Inr w \<in> set (map cleanupVerdictFromObservation es)" unfolding assms(1) using assms(2) by simp
  then obtain e where "cleanupVerdictFromObservation e = Inr w" by auto
  then show ?thesis by (rule cleanup_observation_known)
qed

subsection \<open>Sample observations\<close>

definition sample_token :: bytes where
  "sample_token = ''hmac-sha256:'' @ replicate 64 (CHR ''a'')"

definition sample_details :: "CleanupVerdict \<Rightarrow> int \<Rightarrow> int \<Rightarrow> int \<Rightarrow> cleanupObservationDetails" where
  "sample_details v dirs files special = \<lparr>
     cd_AllowedPatternCount = 0, cd_AllowedProfile = ''none'',
     cd_Boundary = cleanupObservationBoundary, cd_ClassifierVersion = cleanupObservationClassifier,
     cd_DirectoryCount = dirs, cd_DisposableCleanupVerified = True,
     cd_EntryCount = wrap64 (dirs + files + special), cd_IdentityVerified = True,
     cd_InventoryComplete = True, cd_MaxControlBytes = 524288, cd_MaxDepth = 64,
     cd_MaxEntries = 2048, cd_MaxPathBytes = 1024, cd_OpaqueInventoryToken = sample_token,
     cd_QuiescenceConfirmed = True, cd_RegularFileCount = files,
     cd_Scope = cleanupObservationResource, cd_SpecialCount = special, cd_SymlinkCount = 0,
     cd_TokenScheme = ''ephemeral-keyed-hmac-sha256'',
     cd_UnmatchedCount = wrap64 (dirs + files + special), cd_Verdict = v, cd_Failure = []\<rparr>"

definition untested_details :: "bytes \<Rightarrow> cleanupObservationDetails" where
  "untested_details failure = (sample_details CleanupNotTested 0 0 0)\<lparr>
     cd_OpaqueInventoryToken := [], cd_TokenScheme := [], cd_InventoryComplete := False,
     cd_IdentityVerified := False, cd_Failure := failure\<rparr>"

definition sample_event :: "cleanupObservationDetails \<Rightarrow> ObservationEvent" where
  "sample_event d = (let u = (cd_Verdict d = CleanupNotTested) in \<lparr>
     oe_SchemaVersion = ''1'', oe_Sequence = 1,
     oe_Timestamp = \<lparr>t_ns = 1, t_off = 0, t_mono = None\<rparr>,
     oe_Phase = PhaseCleanup, oe_Actor = ''trusted-runner'',
     oe_Operation = cleanupObservationOperation, oe_Resource = cleanupObservationResource,
     oe_Result = (if u then ''failed'' else ''succeeded''),
     oe_Observer = cleanupObservationObserver,
     oe_Coverage = (if u then ''unavailable'' else ''enforcement-only''),
     oe_Confidence = (if u then ''unknown'' else ''high''), oe_Details = details_map d\<rparr>)"

lemma sample_token_ok [simp]: "validOpaqueCleanupToken sample_token" "sample_token \<noteq> []"
  "valid_utf8 sample_token"
proof -
  show "validOpaqueCleanupToken sample_token"
    unfolding validOpaqueCleanupToken_def sample_token_def trim_prefix_append
    by (simp add: is_hex_def is_lower_hex_def has_prefix_def)
  show "valid_utf8 sample_token" by (rule valid_utf8_ascii) (auto simp: sample_token_def)
qed (simp add: sample_token_def)

lemma sample_details_ok:
  assumes "int64_range dirs" "int64_range files" "int64_range special" "known_cleanup v"
  shows "details_ok (sample_details v dirs files special)"
proof -
  have "list_all int64_range [0, 524288, 64, 2048, 1024]" by (simp add: int64_range_def)
  with assms show ?thesis
    by (auto simp: details_ok_def sample_details_def wrap64_range known_cleanup_def go_const
        valid_utf8_ascii simp del: valid_utf8.simps)
qed

lemma sample_event_identity: "cleanup_identity_error (sample_event d) = None"
  by (simp add: cleanup_identity_error_def sample_event_def IsZero_def Let_def)

lemma sample_event_verdict:
  "details_ok d \<Longrightarrow> cleanup_counts_error d = None \<Longrightarrow> cleanup_boundary_error d = None \<Longrightarrow>
    cleanup_verdict_error (sample_event d) d = None \<Longrightarrow>
    cleanupVerdictFromObservation (sample_event d) = Inr (cd_Verdict d)"
  using read_details_map [of d]
  by (simp add: cleanup_observation_Inr sample_event_identity)
    (simp add: sample_event_def Let_def)

subsection \<open>Properties\<close>

text \<open>
  C12.  An accepted cleanup observation with a decisive verdict carries a complete inventory with
  every boundary flag set and a keyed token, and its verdict is the one its counters call for:
  clean without entries, allowed residue when every entry matched, undeclared residue otherwise.
\<close>

theorem cleanup_verdict_determined:
  assumes "cleanupVerdictFromObservation e = Inr v" and "v \<noteq> CleanupNotTested"
  shows "\<exists>d. read_cleanup_details (oe_Details e) = Inr d \<and> v = counted_verdict d \<and>
    boundary_flags d = [True, True, True, True] \<and>
    validOpaqueCleanupToken (cd_OpaqueInventoryToken d)"
  using assms decisive_verdict unfolding cleanup_observation_Inr by blast

lemma sample_residue_accepted:
  "cleanupVerdictFromObservation (sample_event (sample_details CleanupUndeclaredResidue 1 2 0))
    = Inr CleanupUndeclaredResidue"
proof -
  let ?d = "sample_details CleanupUndeclaredResidue 1 2 0"
  have "details_ok ?d" by (rule sample_details_ok) (simp_all add: int64_range_def)
  moreover have "cleanup_counts_error ?d = None"
    by (simp add: cleanup_counts_error_def sample_details_def wrap64_def)
  moreover have "cleanup_boundary_error ?d = None"
    by (simp add: cleanup_boundary_error_def sample_details_def go_const)
  moreover have "cleanup_verdict_error (sample_event ?d) ?d = None"
    by (simp add: cleanup_verdict_error_def sample_details_def sample_event_def wrap64_def Let_def
        go_const)
  ultimately have "cleanupVerdictFromObservation (sample_event ?d) = Inr (cd_Verdict ?d)"
    by (rule sample_event_verdict)
  then show ?thesis by (simp add: sample_details_def)
qed

theorem cleanup_verdict_determined_witness:
  "\<exists>d. read_cleanup_details (details_map (sample_details CleanupUndeclaredResidue 1 2 0)) = Inr d \<and>
    CleanupUndeclaredResidue = counted_verdict d \<and> boundary_flags d = [True, True, True, True] \<and>
    validOpaqueCleanupToken (cd_OpaqueInventoryToken d)"
proof -
  have "CleanupUndeclaredResidue \<noteq> CleanupNotTested" by (simp add: go_const)
  from cleanup_verdict_determined [OF sample_residue_accepted this]
  show ?thesis by (simp add: sample_event_def Let_def)
qed

text \<open>
  C13.  An accepted observation that could not test the cleanup names a known failure class, and
  its boundary flags are exactly the stages completed before the stage of that class.
\<close>

theorem cleanup_untested_stage:
  assumes "cleanupVerdictFromObservation e = Inr CleanupNotTested"
  shows "\<exists>d s. read_cleanup_details (oe_Details e) = Inr d \<and>
    failure_stage (cd_Failure d) = Some s \<and>
    boundary_flags d = replicate (stage_level s) True @ replicate (4 - stage_level s) False"
proof -
  obtain d where d: "read_cleanup_details (oe_Details e) = Inr d"
      "validateNotTestedCleanupDetails d = None"
    using assms by (auto simp: cleanup_observation_Inr cleanup_boundary_error_def)
  from untested_flags [OF d(2)] d(1) show ?thesis by blast
qed

lemma untested_sample_accepted:
  "cleanupVerdictFromObservation
    (sample_event (untested_details ''container-identity-readback-failed'')) = Inr CleanupNotTested"
proof -
  let ?d = "untested_details ''container-identity-readback-failed''"
  have "details_ok (sample_details CleanupNotTested 0 0 0)"
    by (rule sample_details_ok) (simp_all add: int64_range_def)
  then have "details_ok ?d"
    by (simp add: details_ok_def untested_details_def valid_utf8_ascii del: valid_utf8.simps)
  moreover have "cleanup_counts_error ?d = None"
    by (simp add: cleanup_counts_error_def untested_details_def sample_details_def wrap64_def)
  moreover have "cleanup_boundary_error ?d = None"
    by (simp add: cleanup_boundary_error_def untested_details_def sample_details_def
        validateNotTestedCleanupDetails_def failure_stage_def stage_error_def)
  moreover have "cleanup_verdict_error (sample_event ?d) ?d = None"
    by (simp add: cleanup_verdict_error_def untested_details_def sample_details_def
        sample_event_def go_const)
  ultimately have "cleanupVerdictFromObservation (sample_event ?d) = Inr (cd_Verdict ?d)"
    by (rule sample_event_verdict)
  then show ?thesis by (simp add: untested_details_def sample_details_def)
qed

theorem cleanup_untested_stage_witness:
  "\<exists>d s. read_cleanup_details
      (oe_Details (sample_event (untested_details ''container-identity-readback-failed''))) = Inr d \<and>
    failure_stage (cd_Failure d) = Some s \<and>
    boundary_flags d = replicate (stage_level s) True @ replicate (4 - stage_level s) False"
  by (rule cleanup_untested_stage [OF untested_sample_accepted])

text \<open>
  C14.  The verdict over the repeats is accepted exactly when there is one accepted observation per
  completed repeat; it is then the gravest of their verdicts, and not tested when no repeat
  completed.
\<close>

theorem cleanup_observations_accepted_iff:
  "cleanupVerdictFromObservations es n = Inr v \<longleftrightarrow>
    (\<exists>vs. map cleanupVerdictFromObservation (cleanup_events es) = map Inr vs \<and>
      int (length vs) = n \<and>
      (if vs = [] then v = CleanupNotTested
       else v \<in> set vs \<and> (\<forall>w \<in> set vs. cleanup_rank w \<le> cleanup_rank v)))"
proof -
  let ?vs = "\<lambda>vs. map cleanupVerdictFromObservation (cleanup_events es) = map Inr vs"
  have "cleanupVerdictFromObservations es n = Inr v \<longleftrightarrow>
      (\<exists>m d. scan_cleanup 0 CleanupClean es = Inr (m, d) \<and> int m = n \<and>
        v = (if m = 0 then CleanupNotTested else d))"
    by (rule cleanup_observations_scan)
  also have "\<dots> \<longleftrightarrow> (\<exists>vs. ?vs vs \<and> int (length vs) = n \<and>
      v = (if vs = [] then CleanupNotTested else foldl aggregateCleanupVerdict CleanupClean vs))"
    unfolding scan_cleanup_Inr by (simp only: add_0) (metis length_0_conv)
  also have "\<dots> \<longleftrightarrow> (\<exists>vs. ?vs vs \<and> int (length vs) = n \<and>
      (if vs = [] then v = CleanupNotTested
       else v \<in> set vs \<and> (\<forall>w \<in> set vs. cleanup_rank w \<le> cleanup_rank v)))"
  proof (rule ex_cong1)
    fix vs
    show "?vs vs \<and> int (length vs) = n \<and>
        v = (if vs = [] then CleanupNotTested else foldl aggregateCleanupVerdict CleanupClean vs) \<longleftrightarrow>
      ?vs vs \<and> int (length vs) = n \<and> (if vs = [] then v = CleanupNotTested
        else v \<in> set vs \<and> (\<forall>w \<in> set vs. cleanup_rank w \<le> cleanup_rank v))"
    proof (cases "?vs vs")
      case True
      then show ?thesis
        using foldl_aggregate_gravest [of vs v] accepted_known [OF True] by (cases "vs = []") simp_all
    qed simp
  qed
  finally show ?thesis .
qed

theorem cleanup_observations_accepted_iff_witness:
  "cleanupVerdictFromObservations
    [sample_event (sample_details CleanupUndeclaredResidue 1 2 0)] 1 = Inr CleanupUndeclaredResidue"
proof -
  let ?e = "sample_event (sample_details CleanupUndeclaredResidue 1 2 0)"
  have "cleanup_events [?e] = [?e]"
    by (simp add: cleanup_events_def sample_event_def Let_def)
  with cleanup_observations_accepted_iff [of "[?e]" 1 CleanupUndeclaredResidue]
  show ?thesis using sample_residue_accepted
    by (auto intro!: exI [of _ "[CleanupUndeclaredResidue]"])
qed

text \<open>
  C16.  Defect of the counter check: the sum of the kinds is computed in 64-bit arithmetic and
  wraps around, so an observation that counts directories, files and special files is accepted
  as clean when the three counts add up to two to the power of 64.
\<close>

theorem cleanup_clean_with_wrapped_counts:
  "cleanupVerdictFromObservation
      (sample_event (sample_details CleanupClean (2 ^ 63 - 1) (2 ^ 63 - 1) 2)) = Inr CleanupClean"
proof -
  let ?d = "sample_details CleanupClean (2 ^ 63 - 1) (2 ^ 63 - 1) 2"
  have "details_ok ?d" by (rule sample_details_ok) (simp_all add: int64_range_def)
  moreover have "cleanup_counts_error ?d = None"
    by (simp add: cleanup_counts_error_def sample_details_def wrap64_def)
  moreover have "cleanup_boundary_error ?d = None"
    by (simp add: cleanup_boundary_error_def sample_details_def go_const)
  moreover have "cleanup_verdict_error (sample_event ?d) ?d = None"
    by (simp add: cleanup_verdict_error_def sample_details_def sample_event_def wrap64_def Let_def
        go_const)
  ultimately have "cleanupVerdictFromObservation (sample_event ?d) = Inr (cd_Verdict ?d)"
    by (rule sample_event_verdict)
  then show ?thesis by (simp add: sample_details_def)
qed

end
