(* ===== verification/Port_Evidence.thy ===== *)
theory Port_Evidence
  imports Verdict_Rules
begin

section \<open>Port-listener evidence (\<^verbatim>\<open>internal/verification/verification.go\<close>)\<close>

text \<open>
  The checks of the peer TCP listener summaries and of the one aggregate finding they may call
  for.  Detail values are dynamic (\<open>goany\<close>), and \<open>boundedPortInteger\<close> accepts every numeric
  type of Go: a float through its exact decimal value, a \<^verbatim>\<open>json.Number\<close> through the
  nearest binary64 number.  A \<^verbatim>\<open>json.Number\<close> is taken to be a literal of the JSON grammar,
  as every decoder produces it.
\<close>

subsection \<open>Numbers\<close>

text \<open>The integer a finite decimal denotes, if it is one.\<close>

definition decimal_int :: "bool \<Rightarrow> nat \<Rightarrow> int \<Rightarrow> int option" where
  "decimal_int neg m e =
    (let s = (if neg then - 1 else 1) in
     if e \<ge> 0 then Some (s * int (m * 10 ^ nat e))
     else if m mod 10 ^ nat (- e) = 0 then Some (s * int (m div 10 ^ nat (- e)))
     else None)"

text \<open>Sign, digits and exponent of a JSON number literal.\<close>

definition literal_parts :: "bytes \<Rightarrow> bool \<times> nat \<times> int" where
  "literal_parts s =
    (let neg = (take 1 s = ''-'');
         u = (if neg then drop 1 s else s);
         ip = takeWhile is_digit u;
         r = dropWhile is_digit u;
         fp = (if take 1 r = ''.'' then takeWhile is_digit (drop 1 r) else []);
         r' = (if take 1 r = ''.'' then dropWhile is_digit (drop 1 r) else r);
         x = drop 1 r';
         xn = (take 1 x = ''-'');
         xd = (if xn \<or> take 1 x = ''+'' then drop 1 x else x);
         ex = (if r' = [] then 0 else if xn then - int (digits_val xd) else int (digits_val xd))
     in (neg, digits_val (ip @ fp), ex - int (length fp)))"

text \<open>
  Whether the nearest binary64 number (ties to even) of a decimal is the given integer of at most
  twelve bits: the decimal lies within half a unit in the last place, and a tie goes to the
  integer, whose significand is even; near zero the bound is half the smallest subnormal.
\<close>

definition scaled :: "nat \<Rightarrow> int \<Rightarrow> nat \<Rightarrow> nat \<Rightarrow> nat \<times> nat" where
  "scaled m e x y = (if e \<ge> 0 then (m * 10 ^ nat e * x, y) else (m * x, y * 10 ^ nat (- e)))"

fun ilog2 :: "nat \<Rightarrow> nat" where
  "ilog2 n = (if n < 2 then 0 else Suc (ilog2 (n div 2)))"

declare ilog2.simps [simp del]

definition nearest_int :: "bool \<Rightarrow> nat \<Rightarrow> int \<Rightarrow> int \<Rightarrow> bool" where
  "nearest_int neg m e n =
    (if n = 0 then (case scaled m e (2 ^ 1075) 1 of (a, b) \<Rightarrow> a \<le> b)
     else neg = (n < 0) \<and>
       (let a = nat \<bar>n\<bar>;
            k = ilog2 a;
            lo = (if a = 2 ^ k then 2 ^ k else 2 ^ Suc k)
        in (case scaled m e (2 ^ 54) (a * 2 ^ 54 + 2 ^ Suc k) of (x, y) \<Rightarrow> x \<le> y)
         \<and> (case scaled m e (2 ^ 54) (a * 2 ^ 54 - lo) of (x, y) \<Rightarrow> y \<le> x)))"

definition boundedPortInteger :: "goany \<Rightarrow> int \<Rightarrow> int \<Rightarrow> int option" where
  "boundedPortInteger value minimum maximum =
    (let within = (\<lambda>n. if minimum \<le> n \<and> n \<le> maximum then Some n else None) in
     case value of
       AInt _ n \<Rightarrow> within n
     | AFloat32 (FDec neg m e) \<Rightarrow> Option.bind (decimal_int neg m e) within
     | AFloat64 (FDec neg m e) \<Rightarrow> Option.bind (decimal_int neg m e) within
     | ANumber s \<Rightarrow>
         if valid_number s then
           (case literal_parts s of (neg, m, e) \<Rightarrow>
              find (nearest_int neg m e) [minimum..maximum])
         else None
     | _ \<Rightarrow> None)"

subsection \<open>Model\<close>

definition portListenerUntestedDetailKeys :: "bytes list" where
  "portListenerUntestedDetailKeys =
    [''observerPlacement'', ''sharesTargetPIDNamespace'', ''sharesTargetMountNamespace'',
     ''sharesTargetIPCNamespace'', ''sharesTargetCgroup'', ''processAttribution'',
     ''lifetimeSemantics'', ''kernelEventCoverage'', ''shortLivedListenerGap'', ''udpUnavailable'',
     ''publicEvidence'', ''evidenceBasis'', ''comparisonResult'', ''sampleLimit'',
     ''intervalMillis'', ''maxAllowedGapMillis'', ''identityVerified'',
     ''namespaceIsolationVerified'', ''workloadQuiescenceVerified'', ''peerRemoveVerified'',
     ''canonicalDigestSemantics'']"

definition portListenerCompleteDetailKeys :: "bytes list" where
  "portListenerCompleteDetailKeys = portListenerUntestedDetailKeys @
    [''observerAdapter'', ''declaredEndpointCount'', ''baselineEndpointCount'',
     ''sampledEndpointCount'', ''undeclaredEndpointCount'', ''sampleCount'',
     ''maxSampleGapMillis'', ''transitionCount'', ''canonicalSampleDigest'']"

definition exactDetailKeys :: "(bytes \<times> goany) list \<Rightarrow> bytes list \<Rightarrow> bool" where
  "exactDetailKeys details keys \<longleftrightarrow>
    length details = length keys \<and> (\<forall>key \<in> set keys. has_key details key)"

definition validPortDigest :: "goany \<Rightarrow> bool" where
  "validPortDigest value =
    (case as_string value of
       None \<Rightarrow> False
     | Some digest \<Rightarrow> length digest = 71 \<and> has_prefix digest ''sha256:''
         \<and> (\<forall>c \<in> set (drop 7 digest). is_lower_hex c))"

definition validPortFailure :: "goany \<Rightarrow> bool" where
  "validPortFailure value =
    (value = ANil \<or>
     (case as_string value of
        None \<Rightarrow> False
      | Some failure \<Rightarrow> failure \<in> {''backend-not-live-qualified'', ''unsupported-http-profile'',
          ''immutable-container-identity-unavailable'', ''ready-transport-failed'',
          ''final-transport-failed'', ''workload-quiescence-failed'', ''observer-not-started'',
          ''peer-remove-failed''}))"

definition validPortListenerStaticDetails :: "(bytes \<times> goany) list \<Rightarrow> bool" where
  "validPortListenerStaticDetails details \<longleftrightarrow>
    detail details ''observerPlacement'' = AString ''peer-container-shared-network-namespace'' \<and>
    detail details ''sharesTargetPIDNamespace'' = ABool False \<and>
    detail details ''sharesTargetMountNamespace'' = ABool False \<and>
    detail details ''sharesTargetIPCNamespace'' = ABool False \<and>
    detail details ''sharesTargetCgroup'' = ABool False \<and>
    detail details ''processAttribution'' = AString ''unavailable'' \<and>
    detail details ''lifetimeSemantics'' = AString ''sample-window-only'' \<and>
    detail details ''kernelEventCoverage'' = AString ''unavailable'' \<and>
    detail details ''shortLivedListenerGap'' = ABool True \<and>
    detail details ''udpUnavailable'' = ABool True \<and>
    detail details ''publicEvidence'' = AString ''aggregate-only'' \<and>
    detail details ''evidenceBasis'' = AString ''aggregate-only'' \<and>
    detail details ''canonicalDigestSemantics'' =
      AString ''helper-commitment-not-controller-recomputed'' \<and>
    boundedPortInteger (detail details ''sampleLimit'') 1200 1200 \<noteq> None \<and>
    boundedPortInteger (detail details ''intervalMillis'') 100 100 \<noteq> None \<and>
    boundedPortInteger (detail details ''maxAllowedGapMillis'') 1000 1000 \<noteq> None \<and>
    (\<forall>key \<in> set [''identityVerified'', ''namespaceIsolationVerified'',
        ''workloadQuiescenceVerified'', ''peerRemoveVerified''].
      as_bool (detail details key) \<noteq> None)"

definition complete_summary_ok :: "ObservationEvent \<Rightarrow> bool" where
  "complete_summary_ok e \<longleftrightarrow> (let d = oe_Details e in
    exactDetailKeys d portListenerCompleteDetailKeys \<and> oe_Result e = ''observed'' \<and>
    oe_Coverage e = ''best-effort'' \<and> oe_Confidence e = ''high'' \<and>
    (detail d ''observerAdapter'' = AString ''node-proc-net-tcp-linux'' \<or>
     detail d ''observerAdapter'' = AString ''python-proc-net-tcp-linux'') \<and>
    detail d ''identityVerified'' = ABool True \<and>
    detail d ''namespaceIsolationVerified'' = ABool True \<and>
    detail d ''workloadQuiescenceVerified'' = ABool True \<and>
    detail d ''peerRemoveVerified'' = ABool True \<and>
    validPortDigest (detail d ''canonicalSampleDigest''))"

text \<open>
  The counters of a complete summary; the result is the undeclared count.  The bounds exclude any
  overflow of \<^verbatim>\<open>declared+undeclared\<close>.
\<close>

definition summary_counts :: "bytes \<Rightarrow> (bytes \<times> goany) list \<Rightarrow> int option" where
  "summary_counts comparison d =
    (case (boundedPortInteger (detail d ''baselineEndpointCount'') 0 0,
           boundedPortInteger (detail d ''declaredEndpointCount'') 1 1,
           boundedPortInteger (detail d ''sampledEndpointCount'') 1 16,
           boundedPortInteger (detail d ''undeclaredEndpointCount'') 0 15) of
       (Some baseline, Some declared, Some sampled, Some undeclared) \<Rightarrow>
         if boundedPortInteger (detail d ''sampleCount'') 3 1200 = None
            \<or> boundedPortInteger (detail d ''maxSampleGapMillis'') 0 1000 = None
            \<or> boundedPortInteger (detail d ''transitionCount'') 2 4096 = None
            \<or> baseline \<noteq> 0 \<or> sampled \<noteq> declared + undeclared
            \<or> comparison = ''nonconforming-listeners'' \<and> undeclared = 0
            \<or> comparison = ''no-undeclared-observed'' \<and> undeclared \<noteq> 0
         then None else Some undeclared
     | _ \<Rightarrow> None)"

definition validatePortListenerSummary :: "ObservationEvent \<Rightarrow> (bytes, bool \<times> int) result" where
  "validatePortListenerSummary e =
    (let d = oe_Details e in
     if oe_SchemaVersion e \<noteq> ''1'' \<or> IsZero (oe_Timestamp e) \<or> oe_Phase e \<noteq> PhaseCleanup
        \<or> oe_Actor e \<noteq> ''trusted-runner'' \<or> oe_Resource e \<noteq> ''tcp-listeners''
        \<or> oe_Observer e \<noteq> ''docker-peer-port-listener-trace''
        \<or> \<not> validPortListenerStaticDetails d
     then Inl ''port listener summary metadata is invalid''
     else case as_string (detail d ''comparisonResult'') of
       None \<Rightarrow> Inl ''port listener comparison result is invalid''
     | Some comparison \<Rightarrow>
         if comparison = ''nonconforming-listeners'' \<or> comparison = ''no-undeclared-observed'' then
           (if \<not> complete_summary_ok e then Inl ''complete port listener summary is invalid''
            else case summary_counts comparison d of
              None \<Rightarrow> Inl ''port listener aggregate counts are invalid''
            | Some undeclared \<Rightarrow> Inr (comparison = ''nonconforming-listeners'', undeclared))
         else if comparison = ''not-tested'' then
           (if \<not> (exactDetailKeys d portListenerUntestedDetailKeys
                \<or> exactDetailKeys d (portListenerUntestedDetailKeys @ [''failure'']))
              \<or> oe_Result e \<noteq> ''unavailable'' \<or> oe_Coverage e \<noteq> ''unavailable''
              \<or> oe_Confidence e \<noteq> ''unknown'' \<or> \<not> validPortFailure (detail d ''failure'')
            then Inl ''not-tested port listener summary is invalid''
            else Inr (False, 0))
         else Inl ''port listener comparison result is unsupported'')"

definition validUndeclaredPortFinding :: "Error option \<Rightarrow> (bytes, int) result" where
  "validUndeclaredPortFinding item =
    (case item of
       None \<Rightarrow> Inl ''port listener finding is invalid''
     | Some e \<Rightarrow>
         if err_SchemaVersion e \<noteq> ''1'' \<or> err_Code e \<noteq> CodeUndeclaredPortListen
            \<or> err_Phase e \<noteq> [] \<or> err_Severity e \<noteq> SeverityHigh
            \<or> err_Message e \<noteq> ''Bounded peer TCP samples observed one or more listeners outside the declared service endpoint.''
            \<or> err_Cause e \<noteq> None \<or> elems (err_EvidenceRefs e) \<noteq> [] \<or> err_Suggestion e \<noteq> []
            \<or> err_Retryable e \<or> length (err_Details e) \<noteq> 3
            \<or> detail (err_Details e) ''observer'' \<noteq> AString ''docker-peer-port-listener-trace''
            \<or> detail (err_Details e) ''evidenceBasis'' \<noteq> AString ''aggregate-only''
         then Inl ''port listener finding is invalid''
         else case boundedPortInteger (detail (err_Details e) ''undeclaredEndpointCount'') 1 15 of
           None \<Rightarrow> Inl ''port listener finding count is invalid''
         | Some count \<Rightarrow> Inr count)"

text \<open>The loop over the observations: the number of summaries and the count of a positive one.\<close>

fun scan_port_summaries ::
  "bool \<Rightarrow> nat \<Rightarrow> int option \<Rightarrow> ObservationEvent list \<Rightarrow> (bytes, nat \<times> int option) result" where
  "scan_port_summaries required n positive [] = Inr (n, positive)"
| "scan_port_summaries required n positive (e # es) =
    (if oe_Operation e \<noteq> ''port.listener-trace.summary''
     then scan_port_summaries required n positive es
     else if \<not> required then Inl ''port listener summary is not required by the plan''
     else case validatePortListenerSummary e of
       Inl err \<Rightarrow> Inl err
     | Inr (pos, count) \<Rightarrow>
         if \<not> pos then scan_port_summaries required (Suc n) positive es
         else if positive \<noteq> None \<and> positive \<noteq> Some count
         then Inl ''positive port listener summaries disagree on undeclared endpoint count''
         else scan_port_summaries required (Suc n) (Some count) es)"

definition port_findings :: "Error option list \<Rightarrow> Error option list" where
  "port_findings errs =
    filter (\<lambda>item. case item of None \<Rightarrow> False | Some e \<Rightarrow> err_Code e = CodeUndeclaredPortListen) errs"

definition validatePortListenerEvidence ::
  "bool \<Rightarrow> int \<Rightarrow> ObservationEvent list \<Rightarrow> Error option list \<Rightarrow> bytes option" where
  "validatePortListenerEvidence required completed observations errs =
    (if completed < 0 then Some ''port listener repeat count is invalid''
     else case scan_port_summaries required 0 None observations of
       Inl err \<Rightarrow> Some err
     | Inr (n, positive) \<Rightarrow>
         if required \<and> int n \<noteq> completed
         then Some ''port listener summary count does not match completed repeats''
         else let findings = port_findings errs in
           if \<not> required \<and> findings \<noteq> []
           then Some ''port listener finding is not required by the plan''
           else case positive of
             None \<Rightarrow>
               if findings \<noteq> [] then Some ''port listener finding has no positive summary'' else None
           | Some positiveCount \<Rightarrow>
               if length findings \<noteq> 1
               then Some ''positive port listener summaries require one aggregate finding''
               else case validUndeclaredPortFinding (hd findings) of
                 Inl err \<Rightarrow> Some err
               | Inr count \<Rightarrow>
                   if count \<noteq> positiveCount
                   then Some ''port listener finding does not match positive summaries''
                   else None)"

subsection \<open>Lemmas\<close>

definition port_events :: "ObservationEvent list \<Rightarrow> ObservationEvent list" where
  "port_events es = filter (\<lambda>e. oe_Operation e = ''port.listener-trace.summary'') es"

definition positives :: "(bool \<times> int) list \<Rightarrow> int list" where
  "positives rs = map snd (filter fst rs)"

lemma positives_simps [simp]:
  "positives [] = []"
  "positives ((b, c) # rs) = (if b then c # positives rs else positives rs)"
  by (simp_all add: positives_def)

lemma set_option_single: "set_option q = insert c A \<longleftrightarrow> q = Some c \<and> A \<subseteq> {c}"
  by (cases q) auto

lemma scan_port_not_required:
  "scan_port_summaries False n p es = Inr r \<longleftrightarrow> port_events es = [] \<and> r = (n, p)"
  by (induction es) (auto simp: port_events_def)

lemma scan_port_required:
  "scan_port_summaries True n p es = Inr (m, q) \<longleftrightarrow>
    (\<exists>rs. map validatePortListenerSummary (port_events es) = map Inr rs \<and>
      m = n + length rs \<and> set_option q = set_option p \<union> set (positives rs))"
proof (induction es arbitrary: n p)
  case Nil
  show ?case by (cases p; cases q) (auto simp: port_events_def)
next
  case (Cons e es)
  show ?case
  proof (cases "oe_Operation e = ''port.listener-trace.summary''")
    case False
    with Cons [of n p] show ?thesis by (simp add: port_events_def)
  next
    case True
    then have ev: "port_events (e # es) = e # port_events es" by (simp add: port_events_def)
    show ?thesis
    proof (cases "validatePortListenerSummary e")
      case (Inl err)
      then have "map validatePortListenerSummary (e # port_events es) \<noteq> map Inr rs" for rs
        by (cases rs) auto
      with True Inl ev show ?thesis by simp
    next
      case (Inr r)
      obtain b c where r: "r = (b, c)" by force
      define p' where "p' = (if b then Some c else p)"
      define ok where "ok \<longleftrightarrow> \<not> b \<or> p = None \<or> p = Some c"
      have scan: "scan_port_summaries True n p (e # es) = Inr (m, q) \<longleftrightarrow>
          ok \<and> scan_port_summaries True (Suc n) p' es = Inr (m, q)"
        using True Inr r by (auto simp: p'_def ok_def)
      have sets: "ok \<and> set_option q = set_option p' \<union> S \<longleftrightarrow>
          set_option q = set_option p \<union> (set (positives [r]) \<union> S)" for S
        unfolding p'_def ok_def r by (cases p; cases b) (auto simp: set_option_single)
      have pos: "set (positives (r # rs)) = set (positives [r]) \<union> set (positives rs)" for rs
        by (simp add: r)
      have step: "ok \<and> M \<and> m = Suc n + length rs \<and> set_option q = set_option p' \<union> set (positives rs) \<longleftrightarrow>
          M \<and> m = n + length (r # rs) \<and> set_option q = set_option p \<union> set (positives (r # rs))" for M rs
        using sets [of "set (positives rs)"] unfolding pos [of rs] by auto
      have "(\<exists>rs. map validatePortListenerSummary (port_events es) = map Inr rs \<and>
          m = n + length (r # rs) \<and> set_option q = set_option p \<union> set (positives (r # rs))) \<longleftrightarrow>
        (\<exists>rs. ok \<and> map validatePortListenerSummary (port_events es) = map Inr rs \<and>
          m = Suc n + length rs \<and> set_option q = set_option p' \<union> set (positives rs))"
        by (rule ex_cong1) (rule step [symmetric])
      then show ?thesis
        unfolding ev ex_map_Inr_Cons [of validatePortListenerSummary, OF Inr] scan Cons
        by (simp only: ex_simps)
    qed
  qed
qed

subsection \<open>Properties\<close>

text \<open>
  C15.  Listener evidence is accepted exactly in these cases.  When the plan does not require the
  observer, there is neither a summary nor a finding.  When it does, there is one valid summary
  per completed repeat; if none is positive there is no finding, and otherwise there is exactly
  one finding, it is well-formed, and every positive summary reports the count it states.
\<close>

theorem port_evidence_accepted_iff:
  "validatePortListenerEvidence required completed obs errs = None \<longleftrightarrow>
    0 \<le> completed \<and>
    (if required then
       \<exists>rs. map validatePortListenerSummary (port_events obs) = map Inr rs \<and>
         int (length rs) = completed \<and>
         (if positives rs = [] then port_findings errs = []
          else \<exists>f c. port_findings errs = [f] \<and> validUndeclaredPortFinding f = Inr c \<and>
            set (positives rs) = {c})
     else port_events obs = [] \<and> port_findings errs = [])"
proof (cases required)
  case False
  show ?thesis
  proof (cases "port_events obs = []")
    case True
    then have "scan_port_summaries False 0 None obs = Inr (0, None)"
      by (simp add: scan_port_not_required)
    with False True show ?thesis by (simp add: validatePortListenerEvidence_def Let_def)
  next
    case some: False
    then obtain err where "scan_port_summaries False 0 None obs = Inl err"
      using scan_port_not_required [of 0 None obs] by (metis sum.exhaust)
    with False some show ?thesis by (simp add: validatePortListenerEvidence_def)
  qed
next
  case True
  have inner: "(\<exists>q. set_option q = set (positives rs) \<and>
        (case q of None \<Rightarrow> port_findings errs = []
         | Some c \<Rightarrow> \<exists>f. port_findings errs = [f] \<and> validUndeclaredPortFinding f = Inr c)) \<longleftrightarrow>
      (if positives rs = [] then port_findings errs = []
       else \<exists>f c. port_findings errs = [f] \<and> validUndeclaredPortFinding f = Inr c \<and>
            set (positives rs) = {c})" for rs
    unfolding split_option_ex by (cases "positives rs = []") auto
  have "validatePortListenerEvidence True completed obs errs = None \<longleftrightarrow> 0 \<le> completed \<and>
    (\<exists>n q. scan_port_summaries True 0 None obs = Inr (n, q) \<and> int n = completed \<and>
      (case q of None \<Rightarrow> port_findings errs = []
       | Some c \<Rightarrow> \<exists>f. port_findings errs = [f] \<and> validUndeclaredPortFinding f = Inr c))"
  proof (cases "scan_port_summaries True 0 None obs")
    case (Inl err)
    then show ?thesis by (simp add: validatePortListenerEvidence_def)
  next
    case (Inr p)
    obtain n q where p: "p = (n, q)" by force
    show ?thesis
      unfolding validatePortListenerEvidence_def Inr p sum.case prod.case Let_def
      by (cases "int n = completed"; cases q)
         (auto simp: length_Suc_conv split: sum.splits if_splits)
  qed
  also have "\<dots> \<longleftrightarrow> 0 \<le> completed \<and>
    (\<exists>rs. map validatePortListenerSummary (port_events obs) = map Inr rs \<and>
      int (length rs) = completed \<and>
      (\<exists>q. set_option q = set (positives rs) \<and>
        (case q of None \<Rightarrow> port_findings errs = []
         | Some c \<Rightarrow> \<exists>f. port_findings errs = [f] \<and> validUndeclaredPortFinding f = Inr c)))"
    unfolding scan_port_required by (simp only: option.set Un_empty_left add_0) blast
  finally show ?thesis using True by (simp only: inner if_True)
qed

end
