(* ===== verification/Verification.thy ===== *)
theory Verification
  imports Canonical_Json Cleanup_Evidence Port_Evidence
begin

section \<open>Building and re-checking a verification result\<close>

text \<open>
  \<open>Build\<close> assembles a verification result from the evidence of a run and binds it with digests;
  \<open>VerifyIntegrity\<close> recomputes every verdict and digest of a stored result.  What the code takes
  from its surroundings is the argument \<open>env\<close>: the bytes of the random source (\<open>None\<close> is a
  failing read) and the readings of the clock, one for each call site.
\<close>

subsection \<open>Model\<close>

record build_env =
  be_random :: "nat \<Rightarrow> bytes option"
  be_now :: "nat \<Rightarrow> gotime"

record Input =
  in_RunID :: bytes
  in_VerificationID :: bytes
  in_Plan :: ResolvedPlan
  in_Runner :: RunnerFeatures
  in_StartedAt :: gotime
  in_CompletedAt :: gotime
  in_Observations :: "ObservationEvent slice"
  in_Assertions :: "AssertionResult slice"
  in_Errors :: "Error option list"
  in_Requested :: int
  in_Completed :: int
  in_Matching :: int
  in_SuccessThreshold :: int
  in_Cleanup :: CleanupVerdict
  in_Resources :: ResourceSummary

text \<open>
  The layout \<^verbatim>\<open>20060102t150405000000000\<close> has no fraction mark, so its last nine zeros are
  literal text.
\<close>

definition fallback_stamp :: "gotime \<Rightarrow> bytes" where
  "fallback_stamp t =
    (let c = civil_of (UTC t) in
     pad_int 4 (c_year c) @ pad 2 (c_month c) @ pad 2 (c_day c) @ ''t'' @ pad 2 (c_hour c) @
     pad 2 (c_min c) @ pad 2 (c_sec c) @ ''000000000'')"

definition newOpaqueID :: "build_env \<Rightarrow> nat \<Rightarrow> bytes \<Rightarrow> bytes" where
  "newOpaqueID env site prefix =
    (case be_random env site of
       None \<Rightarrow> prefix @ ''_'' @ fallback_stamp (be_now env site)
     | Some random \<Rightarrow> prefix @ ''_'' @ hex_encode random)"

definition nonNilObservations :: "ObservationEvent slice \<Rightarrow> ObservationEvent slice" where
  "nonNilObservations values = (case values of None \<Rightarrow> Some [] | Some xs \<Rightarrow> Some xs)"

definition normalize_assertion :: "nat \<Rightarrow> AssertionResult \<Rightarrow> AssertionResult" where
  "normalize_assertion index a = a\<lparr>
     ar_SchemaVersion := or_default (ar_SchemaVersion a) ''1'',
     ar_ID := or_default (ar_ID a) (''assertion-'' @ dec_nat (Suc index)),
     ar_Required := True,
     ar_EvidenceRefs := (case ar_EvidenceRefs a of None \<Rightarrow> Some [] | Some xs \<Rightarrow> Some xs),
     ar_Status := (if ar_Status a = ''pass'' then ''passed''
       else if ar_Status a = ''fail'' then ''failed'' else ar_Status a)\<rparr>"

definition nonNilAssertions :: "AssertionResult slice \<Rightarrow> AssertionResult slice" where
  "nonNilAssertions values =
    (case values of
       None \<Rightarrow> Some []
     | Some xs \<Rightarrow> Some (map (\<lambda>(i, a). normalize_assertion i a) (List.enumerate 0 xs)))"

definition sameStrings :: "bytes list \<Rightarrow> bytes list \<Rightarrow> bool" where
  "sameStrings left right \<longleftrightarrow>
    length left = length right \<and> (\<forall>index < length left. left ! index = right ! index)"

definition validVerificationEvidence :: "PlanEvidence \<Rightarrow> bool" where
  "validVerificationEvidence value \<longleftrightarrow>
    pe_Profile value = ''minimal-public'' \<and>
    sameStrings (elems (pe_Exclude value)) [''raw-stderr'', ''raw-stdout'', ''raw-syscall-trace''] \<and>
    (sameStrings (elems (pe_Include value)) [''normalized-observations'', ''verification-summary''] \<or>
     sameStrings (elems (pe_Include value))
       [''normalized-observations'', ''sbom'', ''verification-summary''])"

definition integrityError :: "bytes \<Rightarrow> (bytes \<times> goany) list \<Rightarrow> go_error" where
  "integrityError message details =
    DomainError ((NewError CodeEvidenceDigestMismatch SeverityCritical message)\<lparr>
      err_Details := details\<rparr>)"

definition schemaError :: "bytes \<Rightarrow> (bytes \<times> goany) list \<Rightarrow> go_error" where
  "schemaError message details =
    DomainError ((NewError CodeObservationSchemaInvalid SeverityHigh message)\<lparr>
      err_Details := details\<rparr>)"

definition canonical_text :: "canonical_error \<Rightarrow> bytes" where
  "canonical_text e =
    (case e of
       MarshalError \<Rightarrow> ''marshal canonical JSON: '' @ json_error_text
     | DecodeError \<Rightarrow> ''decode canonical JSON: '' @ json_error_text
     | KeyNotASCII \<Rightarrow> ''canonical JSON object key is not ASCII'')"

definition digest_of :: "goany \<Rightarrow> (go_error, bytes) result" where
  "digest_of v = (case Digest v of Inl e \<Rightarrow> Inl (PlainError (canonical_text e)) | Inr d \<Rightarrow> Inr d)"

text \<open>The protected content: the decoded result without the digest of itself.\<close>

definition delete_key :: "bytes \<Rightarrow> (bytes \<times> json) list \<Rightarrow> (bytes \<times> json) list" where
  "delete_key k ms = filter (\<lambda>(n, v). n \<noteq> k) ms"

definition without_verification :: "json \<Rightarrow> json" where
  "without_verification j =
    (case j of
       JObj ms \<Rightarrow> JObj (map (\<lambda>(k, v).
         (k, case (k = ''digests'', v) of
               (True, JObj ds) \<Rightarrow> JObj (delete_key ''verification'' ds)
             | _ \<Rightarrow> v)) ms)
     | _ \<Rightarrow> j)"

definition semantic_document :: "VerificationResult \<Rightarrow> (go_error, json) result" where
  "semantic_document r =
    (case go_marshal (VerificationResult_any r) of
       None \<Rightarrow> Inl (PlainError json_error_text)
     | Some raw \<Rightarrow>
         (case json_decode raw of
            None \<Rightarrow> Inl (PlainError json_error_text)
          | Some (doc, _) \<Rightarrow> Inr (without_verification (as_any doc))))"

definition verificationDigest :: "VerificationResult \<Rightarrow> (go_error, bytes) result" where
  "verificationDigest r = rbind (semantic_document r) (\<lambda>doc. digest_of (any_of doc))"

subsubsection \<open>Build\<close>

definition normalize_input :: "build_env \<Rightarrow> Input \<Rightarrow> Input" where
  "normalize_input env i =
    (let requested = (if in_Requested i \<le> 0 then 1 else in_Requested i);
         threshold = (if in_SuccessThreshold i \<le> 0 \<or> in_SuccessThreshold i > requested
           then requested else in_SuccessThreshold i);
         plan = in_Plan i;
         repeats = (if rp_RepeatCount plan \<le> 0 then requested else rp_RepeatCount plan);
         planThreshold = (if rp_SuccessThreshold plan \<le> 0 \<or> rp_SuccessThreshold plan > repeats
           then threshold else rp_SuccessThreshold plan)
     in i\<lparr>
       in_RunID := (if in_RunID i = [] then newOpaqueID env 0 ''run'' else in_RunID i),
       in_VerificationID :=
         (if in_VerificationID i = [] then newOpaqueID env 1 ''vrf'' else in_VerificationID i),
       in_StartedAt := (if IsZero (in_StartedAt i) then UTC (be_now env 2) else in_StartedAt i),
       in_CompletedAt :=
         (if IsZero (in_CompletedAt i) then UTC (be_now env 3) else in_CompletedAt i),
       in_Requested := requested,
       in_SuccessThreshold := threshold,
       in_Plan := plan\<lparr>rp_RepeatCount := repeats, rp_SuccessThreshold := planThreshold\<rparr>,
       in_Runner := normalizeRunner (in_Runner i)\<rparr>)"

definition plan_ref :: "ResolvedPlan \<Rightarrow> VerificationPlanRef" where
  "plan_ref plan = \<lparr>
     vp_Scenario = rp_Scenario plan, vp_Environment = rp_Environment plan,
     vp_PlanDigest = rp_PlanDigest plan, vp_PolicyBundleDigest = rp_PolicyBundleDigest plan,
     vp_RepeatCount = rp_RepeatCount plan, vp_SuccessThreshold = rp_SuccessThreshold plan,
     vp_ResolvedPlanSchemaVersion = rp_SchemaVersion plan,
     vp_Evidence = \<lparr>pe_Profile = pe_Profile (rp_Evidence plan),
       pe_Include = Some (elems (pe_Include (rp_Evidence plan))),
       pe_Exclude = Some (elems (pe_Exclude (rp_Evidence plan)))\<rparr>\<rparr>"

definition build_verdicts ::
  "FunctionalVerdict \<Rightarrow> CapabilityVerdict \<Rightarrow> ReproducibilityVerdict \<Rightarrow> CleanupVerdict \<Rightarrow> Verdicts" where
  "build_verdicts functional capability reproducibility cleanup =
    (let v = \<lparr>v_Functional = functional, v_Capability = capability,
       v_Reproducibility = reproducibility, v_Cleanup = cleanup, v_Evidence = EvidenceUnsigned,
       v_Freshness = FreshnessCurrent, v_Overall = []\<rparr>
     in v\<lparr>v_Overall := aggregate v\<rparr>)"

definition build_result :: "Input \<Rightarrow> ObserverCoverage list \<Rightarrow> bool \<Rightarrow> Verdicts \<Rightarrow> VerificationResult" where
  "build_result i coverage coverageComplete verdicts =
    (let resources = in_Resources i;
         resources' = (if res_DurationMillis resources = 0
           then resources\<lparr>res_DurationMillis :=
             Milliseconds (Sub (in_CompletedAt i) (in_StartedAt i))\<rparr>
           else resources)
     in \<lparr>vr_SchemaVersion = ''1'', vr_VerificationID = in_VerificationID i, vr_RunID = in_RunID i,
       vr_StartedAt = UTC (in_StartedAt i), vr_CompletedAt = UTC (in_CompletedAt i),
       vr_Subject = rp_Source (in_Plan i), vr_Plan = plan_ref (in_Plan i),
       vr_Runner = in_Runner i, vr_Results = verdicts, vr_ObserverCoverage = Some coverage,
       vr_Observations = nonNilObservations (in_Observations i),
       vr_Assertions = nonNilAssertions (in_Assertions i),
       vr_PolicyDecisions = Some (baselinePolicy (rp_PolicyBundleDigest (in_Plan i)) (in_Runner i)
         coverageComplete),
       vr_Errors = in_Errors i,
       vr_Repeats = \<lparr>rep_Requested = in_Requested i, rep_Completed = in_Completed i,
         rep_Matching = in_Matching i\<rparr>,
       vr_Resources = resources',
       vr_Digests = \<lparr>vd_Observations = [], vd_Assertions = [], vd_PolicyDecisions = [],
         vd_Verification = []\<rparr>\<rparr>)"

definition add_digests :: "VerificationResult \<Rightarrow> (go_error, VerificationResult) result" where
  "add_digests r =
    rbind (digest_of (slice_any ObservationEvent_any (vr_Observations r))) (\<lambda>o_digest.
    rbind (digest_of (slice_any AssertionResult_any (vr_Assertions r))) (\<lambda>a_digest.
    rbind (digest_of (slice_any PolicyDecision_any (vr_PolicyDecisions r))) (\<lambda>p_digest.
      let r' = r\<lparr>vr_Digests := (vr_Digests r)\<lparr>vd_Observations := o_digest,
        vd_Assertions := a_digest, vd_PolicyDecisions := p_digest\<rparr>\<rparr>
      in rbind (verificationDigest r') (\<lambda>v_digest.
        Inr (r'\<lparr>vr_Digests := (vr_Digests r')\<lparr>vd_Verification := v_digest\<rparr>\<rparr>)))))"

definition finish_build :: "VerificationResult \<Rightarrow> (go_error, VerificationResult) result" where
  "finish_build r =
    (let field = invalidResourceSummaryField (vr_Resources r) in
     if field \<noteq> []
     then Inl (schemaError ''Resource usage evidence does not match the bounded contract.''
       [(''field'', AString field)])
     else add_digests r)"

definition Build :: "build_env \<Rightarrow> Input \<Rightarrow> (go_error, VerificationResult) result" where
  "Build env input0 =
    (let i = normalize_input env input0;
         errs = in_Errors i;
         obs = elems (in_Observations i);
         observers = elems (rp_ObserverSet (in_Plan i)) in
     if nilErrorIndex errs \<ge> 0
     then Inl (schemaError ''Verification findings contain a null item.''
       [(''index'', AInt GoInt (nilErrorIndex errs))])
     else case coverageFor observers (in_Runner i) of (coverage, coverageComplete) \<Rightarrow>
       (case functionalVerdict errs (elems (in_Assertions i)) (in_Completed i) of
          None \<Rightarrow> Inl NilPanic
        | Some functional \<Rightarrow>
            (case cleanupVerdictFromObservations obs (in_Completed i) of
               Inl err \<Rightarrow> Inl (DomainError (WrapError CodeObservationSchemaInvalid SeverityHigh
                 ''Cleanup observations do not satisfy the authoritative evidence contract.'' err))
             | Inr observedCleanup \<Rightarrow>
                 let cleanup = cleanupVerdict observedCleanup (in_Completed i) errs in
                 if in_Cleanup i \<noteq> cleanup
                 then Inl (schemaError
                   ''Caller cleanup verdict does not match cleanup observations and findings.''
                   [(''caller'', AString (in_Cleanup i)), (''observed'', AString cleanup)])
                 else case validatePortListenerEvidence (observerRequired observers ''port-listen'')
                     (in_Completed i) obs errs of
                   Some err \<Rightarrow> Inl (DomainError (WrapError CodeObservationSchemaInvalid SeverityHigh
                     ''Peer TCP listener evidence does not satisfy the authoritative public contract.''
                     err))
                 | None \<Rightarrow>
                     finish_build (build_result i coverage coverageComplete
                       (build_verdicts functional (capabilityVerdict errs coverageComplete)
                         (reproducibilityVerdict (in_Requested i) (in_Completed i) (in_Matching i)
                           (in_SuccessThreshold i)) cleanup)))))"

subsubsection \<open>VerifyIntegrity\<close>

fun check_collections :: "(bytes \<times> goany \<times> bytes) list \<Rightarrow> go_error option" where
  "check_collections [] = None"
| "check_collections ((name, value, expected) # checks) =
    (case Digest value of
       Inl _ \<Rightarrow> Some (integrityError ''Verification component digest could not be recomputed.''
         [(''component'', AString name)])
     | Inr actual \<Rightarrow>
         if actual \<noteq> expected
         then Some (integrityError ''Verification component digest does not match its content.''
           [(''component'', AString name), (''expected'', AString expected),
            (''actual'', AString actual)])
         else check_collections checks)"

definition result_collections :: "VerificationResult \<Rightarrow> (bytes \<times> goany \<times> bytes) list" where
  "result_collections r =
    [(''observations'', slice_any ObservationEvent_any (vr_Observations r),
      vd_Observations (vr_Digests r)),
     (''assertions'', slice_any AssertionResult_any (vr_Assertions r),
      vd_Assertions (vr_Digests r)),
     (''policyDecisions'', slice_any PolicyDecision_any (vr_PolicyDecisions r),
      vd_PolicyDecisions (vr_Digests r))]"

definition header_error :: "VerificationResult \<Rightarrow> go_error option" where
  "header_error r = first_error
    [(vr_SchemaVersion r \<noteq> ''1'' \<or> vr_RunID r = [] \<or> vr_VerificationID r = []
        \<or> IsZero (vr_StartedAt r) \<or> Before (vr_CompletedAt r) (vr_StartedAt r),
      integrityError ''Verification artifact identity or timestamps are invalid.'' []),
     (v_Evidence (vr_Results r) \<noteq> EvidenceUnsigned,
      integrityError ''Signed or alternate evidence states are unsupported until signature trust verification is implemented.''
        [(''evidence'', AString (v_Evidence (vr_Results r)))]),
     (v_Freshness (vr_Results r) \<noteq> FreshnessCurrent,
      integrityError ''Stored freshness overrides are unsupported; freshness must be evaluated against current inputs.''
        [(''freshness'', AString (v_Freshness (vr_Results r)))]),
     (nilErrorIndex (vr_Errors r) \<ge> 0,
      integrityError ''Verification findings contain a null item.''
        [(''index'', AInt GoInt (nilErrorIndex (vr_Errors r)))]),
     (normalizeRunner (vr_Runner r) \<noteq> vr_Runner r,
      integrityError ''Runner feature coverage is not normalized.'' []),
     (invalidResourceSummaryField (vr_Resources r) \<noteq> [],
      integrityError ''Resource usage evidence does not match the bounded contract.''
        [(''field'', AString (invalidResourceSummaryField (vr_Resources r)))])]"

definition binding_error :: "VerificationResult \<Rightarrow> go_error option" where
  "binding_error r = first_error
    [(vp_RepeatCount (vr_Plan r) \<noteq> rep_Requested (vr_Repeats r)
        \<or> vp_SuccessThreshold (vr_Plan r) \<le> 0
        \<or> vp_SuccessThreshold (vr_Plan r) > vp_RepeatCount (vr_Plan r),
      integrityError ''Verification repeat policy is not bound consistently.'' []),
     (vp_ResolvedPlanSchemaVersion (vr_Plan r) \<noteq> ''4''
        \<or> \<not> validVerificationEvidence (vp_Evidence (vr_Plan r)),
      integrityError ''Verification evidence selection is not bound consistently.'' [])]"

definition coverage_error :: "VerificationResult \<Rightarrow> ObserverCoverage list \<Rightarrow> go_error option" where
  "coverage_error r expected =
    (case Digest (ASlice (map ObserverCoverage_any expected)) of
       Inl _ \<Rightarrow> Some (integrityError ''Observer coverage could not be recomputed.'' [])
     | Inr expectedDigest \<Rightarrow>
         if Digest (slice_any ObserverCoverage_any (vr_ObserverCoverage r)) \<noteq> Inr expectedDigest
         then Some (integrityError ''Observer coverage does not match runner features.'' [])
         else None)"

definition policy_error :: "VerificationResult \<Rightarrow> bool \<Rightarrow> go_error option" where
  "policy_error r coverageComplete =
    (case Digest (ASlice (map PolicyDecision_any
         (baselinePolicy (vp_PolicyBundleDigest (vr_Plan r)) (vr_Runner r) coverageComplete))) of
       Inl _ \<Rightarrow> Some (integrityError ''Policy decisions could not be recomputed.'' [])
     | Inr expectedDigest \<Rightarrow>
         if Digest (slice_any PolicyDecision_any (vr_PolicyDecisions r)) \<noteq> Inr expectedDigest
         then Some (integrityError
           ''Stored policy decisions do not match the baseline policy.'' [])
         else None)"

definition go_error_text :: "go_error \<Rightarrow> bytes" where
  "go_error_text e =
    (case e of DomainError d \<Rightarrow> Error_text (Some d) | PlainError t \<Rightarrow> t | NilPanic \<Rightarrow> [])"

definition digest_error :: "VerificationResult \<Rightarrow> go_error option" where
  "digest_error r =
    (case verificationDigest r of
       Inl err \<Rightarrow> Some (DomainError (WrapError CodeEvidenceDigestMismatch SeverityHigh
         ''Verification digest could not be recomputed.'' (go_error_text err)))
     | Inr actual \<Rightarrow>
         if actual \<noteq> vd_Verification (vr_Digests r)
         then Some (DomainError ((NewError CodeEvidenceDigestMismatch SeverityCritical
           ''Verification artifact digest does not match its protected content.'')\<lparr>err_Details :=
             [(''expected'', AString (vd_Verification (vr_Digests r))),
              (''actual'', AString actual)]\<rparr>))
         else None)"

definition expected_verdicts ::
  "VerificationResult \<Rightarrow> FunctionalVerdict \<Rightarrow> bool \<Rightarrow> CleanupVerdict \<Rightarrow> Verdicts" where
  "expected_verdicts r functional coverageComplete observedCleanup =
    build_verdicts functional (capabilityVerdict (vr_Errors r) coverageComplete)
      (reproducibilityVerdict (rep_Requested (vr_Repeats r)) (rep_Completed (vr_Repeats r))
        (rep_Matching (vr_Repeats r)) (vp_SuccessThreshold (vr_Plan r)))
      (cleanupVerdict observedCleanup (rep_Completed (vr_Repeats r)) (vr_Errors r))"

definition or_else :: "'a option \<Rightarrow> 'a option \<Rightarrow> 'a option" where
  "or_else a b = (case a of Some x \<Rightarrow> Some x | None \<Rightarrow> b)"

definition verdict_error :: "VerificationResult \<Rightarrow> go_error option" where
  "verdict_error r =
    (let completed = rep_Completed (vr_Repeats r);
         observations = elems (vr_Observations r);
         observers = map oc_Feature (elems (vr_ObserverCoverage r)) in
     case functionalVerdict (vr_Errors r) (elems (vr_Assertions r)) completed of
       None \<Rightarrow> Some NilPanic
     | Some functional \<Rightarrow>
         if \<exists>c \<in> set (elems (vr_ObserverCoverage r)). \<not> oc_Required c
         then Some (integrityError
           ''Unsupported optional observer coverage was found in an authoritative artifact.'' [])
         else case coverageFor observers (vr_Runner r) of (expected, coverageComplete) \<Rightarrow>
           or_else (coverage_error r expected)
             (if validatePortListenerEvidence (observerRequired observers ''port-listen'') completed
                  observations (vr_Errors r) \<noteq> None
              then Some (integrityError
                ''Peer TCP listener evidence does not satisfy the authoritative public contract.'' [])
              else case cleanupVerdictFromObservations observations completed of
                Inl err \<Rightarrow> Some (integrityError
                  ''Cleanup observations do not satisfy the authoritative evidence contract.''
                  [(''reason'', AString err)])
              | Inr observedCleanup \<Rightarrow>
                  let expectedVerdicts = expected_verdicts r functional coverageComplete observedCleanup
                  in if vr_Results r \<noteq> expectedVerdicts
                     then Some (integrityError
                       ''Stored verdicts do not match assertions, findings, coverage, and repeat policy.''
                       [(''expected'', Verdicts_any expectedVerdicts),
                        (''actual'', Verdicts_any (vr_Results r))])
                     else policy_error r coverageComplete))"

definition VerifyIntegrity :: "VerificationResult \<Rightarrow> go_error option" where
  "VerifyIntegrity r =
    or_else (header_error r)
      (or_else (check_collections (result_collections r))
        (or_else (binding_error r)
          (or_else (verdict_error r) (digest_error r))))"

subsection \<open>The digest of a result does not cover itself\<close>

lemma those_append:
  "those (xs @ ys) = (case those xs of None \<Rightarrow> None | Some a \<Rightarrow> map_option ((@) a) (those ys))"
proof (induction xs)
  case (Cons x xs)
  then show ?case by (cases x; cases "those ys") (simp_all split: option.splits)
next
  case Nil
  show ?case by (cases "those ys") simp_all
qed

lemma go_map_snoc: "go_map (xs @ [(k, v)]) = map_put k v (go_map xs)"
  by (simp add: go_map_def)

lemma map_map_put:
  "map (\<lambda>(k, v). (k, g k v)) (map_put k v m) = map_put k (g k v) (map (\<lambda>(k, v). (k, g k v)) m)"
  by (induction k v m rule: map_put.induct) auto

lemma delete_map_put: "delete_key k (map_put k v m) = delete_key k m"
  by (induction k v m rule: map_put.induct) (auto simp: delete_key_def)

definition result_fields :: "VerificationResult \<Rightarrow> (bytes \<times> goany) list" where
  "result_fields x =
    filled ''schemaVersion'' (AString (vr_SchemaVersion x)) @
    filled ''verificationId'' (AString (vr_VerificationID x)) @
    filled ''runId'' (AString (vr_RunID x)) @
    filled ''startedAt'' (time_any (vr_StartedAt x)) @
    filled ''completedAt'' (time_any (vr_CompletedAt x)) @
    filled ''subject'' (PlanSource_any (vr_Subject x)) @
    filled ''plan'' (VerificationPlanRef_any (vr_Plan x)) @
    filled ''runner'' (RunnerFeatures_any (vr_Runner x)) @
    filled ''results'' (Verdicts_any (vr_Results x)) @
    filled ''observerCoverage'' (slice_any ObserverCoverage_any (vr_ObserverCoverage x)) @
    filled ''observations'' (slice_any ObservationEvent_any (vr_Observations x)) @
    filled ''assertions'' (slice_any AssertionResult_any (vr_Assertions x)) @
    filled ''policyDecisions'' (slice_any PolicyDecision_any (vr_PolicyDecisions x)) @
    omit_if (vr_Errors x = []) ''errors'' (ASlice (map (ptr_any Error_any) (vr_Errors x))) @
    filled ''repeats'' (RepeatSummary_any (vr_Repeats x)) @
    filled ''resources'' (ResourceSummary_any (vr_Resources x))"

lemma VerificationResult_any_split:
  "VerificationResult_any x =
    AStruct (result_fields x @ [(''digests'', VerificationDigests_any (vr_Digests x))])"
  by (simp add: VerificationResult_any_def result_fields_def filled_def)

definition protected_digests :: "VerificationDigests \<Rightarrow> (bytes \<times> json) list" where
  "protected_digests d =
    [(''observations'', JStr (vd_Observations d)), (''assertions'', JStr (vd_Assertions d)),
     (''policyDecisions'', JStr (vd_PolicyDecisions d))]"

lemma digests_tree:
  "go_tree (VerificationDigests_any d) =
    Some (JObj (protected_digests d @ [(''verification'', JStr (vd_Verification d))]))"
  by (simp add: VerificationDigests_any_def filled_def protected_digests_def)

lemma result_tree:
  "go_tree (VerificationResult_any x) =
    (case those (map (\<lambda>(k, v). map_option (\<lambda>j. (k, j)) (go_tree v)) (result_fields x)) of
       None \<Rightarrow> None
     | Some ps \<Rightarrow> Some (JObj (ps @ [(''digests'',
         JObj (protected_digests (vr_Digests x) @
           [(''verification'', JStr (vd_Verification (vr_Digests x)))]))])))"
  unfolding VerificationResult_any_split
  by (simp add: those_append digests_tree del: go_tree.simps(1,2,3,4,5,6,7,8,9) split: option.splits)

lemma without_verification_put:
  "without_verification (as_any (san (JObj (ps @ [(''digests'',
      JObj (ds @ [(''verification'', JStr x)]))])))) =
   without_verification (as_any (san (JObj (ps @ [(''digests'',
      JObj (ds @ [(''verification'', JStr y)]))]))))"
  by (simp add: go_map_snoc without_verification_def map_map_put delete_map_put sanitize_ascii
      del: sanitize.simps)

definition semantic_tree :: "json \<Rightarrow> (go_error, json) result" where
  "semantic_tree t =
    (if json_depth t \<le> max_nesting then Inr (without_verification (as_any (san t)))
     else Inl (PlainError json_error_text))"

lemma semantic_document_tree:
  "semantic_document r =
    (case go_tree (VerificationResult_any r) of
       None \<Rightarrow> Inl (PlainError json_error_text)
     | Some t \<Rightarrow> semantic_tree t)"
  by (cases "go_tree (VerificationResult_any r)")
     (simp_all add: semantic_document_def go_marshal_def semantic_tree_def go_tree_numbers
       decode_encode_iff del: go_tree.simps)

lemma foldr_max_snoc: "foldr max (xs @ [x]) (0::nat) = max x (foldr max xs 0)"
  by (induction xs) auto

lemma semantic_document_digest:
  "semantic_document (r\<lparr>vr_Digests := (vr_Digests r)\<lparr>vd_Verification := x\<rparr>\<rparr>) = semantic_document r"
proof -
  have "result_fields (r\<lparr>vr_Digests := d\<rparr>) = result_fields r" for d
    by (simp add: result_fields_def)
  moreover have "protected_digests (d\<lparr>vd_Verification := x\<rparr>) = protected_digests d" for d
    by (simp add: protected_digests_def)
  moreover have "semantic_tree (JObj (ps @ [(''digests'', JObj (ds @ [(''verification'', JStr a)]))])) =
      semantic_tree (JObj (ps @ [(''digests'', JObj (ds @ [(''verification'', JStr b)]))]))" for ps ds a b
    using without_verification_put [of ps ds a b]
    by (simp add: semantic_tree_def foldr_max_snoc del: san.simps as_any.simps)
  ultimately show ?thesis
    unfolding semantic_document_tree result_tree
    by (simp split: option.splits)
qed

lemma verificationDigest_self:
  "verificationDigest (r\<lparr>vr_Digests := (vr_Digests r)\<lparr>vd_Verification := x\<rparr>\<rparr>) = verificationDigest r"
  by (simp add: verificationDigest_def semantic_document_digest)

subsection \<open>What \<open>Build\<close> returns\<close>

lemma newOpaqueID_not_Nil: "newOpaqueID env n p \<noteq> []"
  by (simp add: newOpaqueID_def split: option.splits)

lemma or_else_None [simp]: "or_else a b = None \<longleftrightarrow> a = None \<and> b = None"
  by (simp add: or_else_def split: option.splits)

definition norm_status :: "bytes \<Rightarrow> bytes" where
  "norm_status s = (if s = ''pass'' then ''passed'' else if s = ''fail'' then ''failed'' else s)"

lemma nonNil_status:
  "map ar_Status (elems (nonNilAssertions as)) = map norm_status (map ar_Status (elems as))"
proof -
  have "map (ar_Status \<circ> (\<lambda>(i, a). normalize_assertion i a)) (List.enumerate n xs) =
    map (norm_status \<circ> ar_Status) xs" for n xs
    by (induction xs arbitrary: n) (simp_all add: normalize_assertion_def norm_status_def)
  then show ?thesis by (simp add: nonNilAssertions_def split: option.splits)
qed

fun status_verdict :: "bytes list \<Rightarrow> FunctionalVerdict option" where
  "status_verdict [] = None"
| "status_verdict (s # ss) =
    (if s = ''fail'' \<or> s = ''failed'' then Some FunctionalFail
     else if s = ''blocked'' then Some FunctionalBlocked
     else if s = ''inconclusive'' then Some FunctionalInconclusive
     else status_verdict ss)"

lemma assertion_verdict_status: "assertion_verdict as = status_verdict (map ar_Status as)"
  by (induction as) simp_all

lemma status_verdict_norm: "status_verdict (map norm_status ss) = status_verdict ss"
  by (induction ss) (simp_all add: norm_status_def)

lemma passing_status:
  "(\<exists>a \<in> set as. \<not> passing a) \<longleftrightarrow> (\<exists>s \<in> set (map ar_Status as). s \<notin> {''pass'', ''passed''})"
  by (auto simp: passing_def)

lemma norm_status_passing: "norm_status s \<in> {''pass'', ''passed''} \<longleftrightarrow> s \<in> {''pass'', ''passed''}"
  by (simp add: norm_status_def)

lemma functionalVerdict_status:
  assumes "map ar_Status bs = map norm_status (map ar_Status as)"
  shows "functionalVerdict errs bs n = functionalVerdict errs as n"
proof -
  have len: "bs = [] \<longleftrightarrow> as = []" using assms by (metis list.map_disc_iff)
  have "(\<exists>a \<in> set bs. \<not> passing a) \<longleftrightarrow> (\<exists>a \<in> set as. \<not> passing a)"
    unfolding passing_status assms by (simp only: set_map bex_simps norm_status_passing)
  then show ?thesis
    unfolding functionalVerdict_def assertion_verdict_status assms status_verdict_norm len
    by (simp only:)
qed

lemma functionalVerdict_nonNil:
  "functionalVerdict errs (elems (nonNilAssertions as)) n = functionalVerdict errs (elems as) n"
  by (rule functionalVerdict_status) (rule nonNil_status)

lemma digest_of_Inr [simp]: "digest_of v = Inr d \<longleftrightarrow> Digest v = Inr d"
  by (auto simp: digest_of_def split: sum.splits)

lemma elems_nonNilObservations [simp]: "elems (nonNilObservations xs) = elems xs"
  by (simp add: nonNilObservations_def split: option.splits)

lemma sameStrings_eq: "sameStrings xs ys \<longleftrightarrow> xs = ys"
  by (auto simp: sameStrings_def list_eq_iff_nth_eq)

lemma add_digests_Inr:
  assumes "add_digests r = Inr q"
  obtains o_d a_d p_d v_d where
    "Digest (slice_any ObservationEvent_any (vr_Observations r)) = Inr o_d"
    "Digest (slice_any AssertionResult_any (vr_Assertions r)) = Inr a_d"
    "Digest (slice_any PolicyDecision_any (vr_PolicyDecisions r)) = Inr p_d"
    "verificationDigest q = Inr v_d"
    "q = r\<lparr>vr_Digests := \<lparr>vd_Observations = o_d, vd_Assertions = a_d, vd_PolicyDecisions = p_d,
      vd_Verification = v_d\<rparr>\<rparr>"
proof -
  obtain o_d a_d p_d v_d where d:
    "Digest (slice_any ObservationEvent_any (vr_Observations r)) = Inr o_d"
    "Digest (slice_any AssertionResult_any (vr_Assertions r)) = Inr a_d"
    "Digest (slice_any PolicyDecision_any (vr_PolicyDecisions r)) = Inr p_d"
    "verificationDigest (r\<lparr>vr_Digests := (vr_Digests r)\<lparr>vd_Observations := o_d,
      vd_Assertions := a_d, vd_PolicyDecisions := p_d\<rparr>\<rparr>) = Inr v_d"
    "q = r\<lparr>vr_Digests := (vr_Digests r)\<lparr>vd_Observations := o_d, vd_Assertions := a_d,
      vd_PolicyDecisions := p_d, vd_Verification := v_d\<rparr>\<rparr>"
    using assms by (auto simp: add_digests_def rbind_Inr_iff Let_def)
  have "verificationDigest q = Inr v_d"
    using verificationDigest_self [where r = "r\<lparr>vr_Digests := (vr_Digests r)\<lparr>vd_Observations := o_d,
      vd_Assertions := a_d, vd_PolicyDecisions := p_d\<rparr>\<rparr>" and x = v_d] d(4,5) by simp
  moreover have "q = r\<lparr>vr_Digests := \<lparr>vd_Observations = o_d, vd_Assertions = a_d,
      vd_PolicyDecisions = p_d, vd_Verification = v_d\<rparr>\<rparr>"
    by (simp add: d(5))
  ultimately show thesis using that d(1,2,3) by blast
qed

subsection \<open>Results that have a digest\<close>

lemma coverage_digest: "\<exists>d. Digest (ASlice (map ObserverCoverage_any cs)) = Inr d"
proof (rule plain_digest)
  show "plain (ASlice (map ObserverCoverage_any cs))"
    by (simp add: ObserverCoverage_any_def filled_def omit_if_def ascii_text_def)
  have "any_depth (ObserverCoverage_any c) \<le> 1" for c
    by (simp add: ObserverCoverage_any_def filled_def omit_if_def)
  then have "foldr max (map any_depth (map ObserverCoverage_any cs)) 0 \<le> 1"
    by (intro foldr_max_least) auto
  then show "any_depth (ASlice (map ObserverCoverage_any cs)) \<le> max_nesting"
    by (simp add: max_nesting_def)
qed

lemma canonical_delete:
  "canonical_json (JObj ds) \<Longrightarrow> canonical_json (JObj (delete_key k ds))"
  by (auto simp: delete_key_def sorted_wrt_map sorted_wrt_filter)

lemma depth_delete:
  "foldr max (map (\<lambda>(k, v). json_depth v) (delete_key k ds)) 0
    \<le> foldr max (map (\<lambda>(k, v). json_depth v) ds) 0"
  by (induction ds) (auto simp: delete_key_def)

definition strip_digest :: "bytes \<Rightarrow> json \<Rightarrow> json" where
  "strip_digest k v = (case (k = ''digests'', v) of
     (True, JObj ds) \<Rightarrow> JObj (delete_key ''verification'' ds) | _ \<Rightarrow> v)"

lemma strip_digest_cases:
  obtains "strip_digest k v = v"
  | ds where "v = JObj ds" "strip_digest k v = JObj (delete_key ''verification'' ds)"
  by (cases v; cases "k = ''digests''") (simp_all add: strip_digest_def)

lemma strip_digest_ok:
  "canonical_json v \<Longrightarrow> canonical_json (strip_digest k v)"
  "validateASCIIObjectKeys v \<Longrightarrow> validateASCIIObjectKeys (strip_digest k v)"
  "json_depth (strip_digest k v) \<le> json_depth v"
proof -
  show "canonical_json v \<Longrightarrow> canonical_json (strip_digest k v)"
    by (rule strip_digest_cases [of k v]) (simp_all only: canonical_delete)
  show "validateASCIIObjectKeys v \<Longrightarrow> validateASCIIObjectKeys (strip_digest k v)"
    by (rule strip_digest_cases [of k v]) (auto simp: delete_key_def)
  show "json_depth (strip_digest k v) \<le> json_depth v"
    by (rule strip_digest_cases [of k v]) (simp_all add: depth_delete)
qed

lemma without_verification_JObj:
  "without_verification (JObj ms) = JObj (map (\<lambda>(k, v). (k, strip_digest k v)) ms)"
  by (simp add: without_verification_def strip_digest_def)

lemma without_verification_other: "(\<And>ms. j \<noteq> JObj ms) \<Longrightarrow> without_verification j = j"
  by (cases j) (auto simp: without_verification_def)

lemma without_verification_canonical:
  assumes "canonical_json j"
  shows "canonical_json (without_verification j)"
proof (cases "\<exists>ms. j = JObj ms")
  case True
  then obtain ms where j: "j = JObj ms" by blast
  have "map fst (map (\<lambda>(k, v). (k, strip_digest k v)) ms) = map fst ms"
    by (induction ms) auto
  with assms show ?thesis
    using strip_digest_ok(1) by (auto simp: j without_verification_JObj simp del: map_map)
qed (use assms without_verification_other in auto)

lemma without_verification_ascii:
  "validateASCIIObjectKeys j \<Longrightarrow> validateASCIIObjectKeys (without_verification j)"
  using strip_digest_ok(2) without_verification_other [of j]
  by (cases j) (auto simp: without_verification_JObj)

lemma without_verification_depth: "json_depth (without_verification j) \<le> json_depth j"
proof (cases "\<exists>ms. j = JObj ms")
  case True
  then obtain ms where j: "j = JObj ms" by blast
  have "foldr max (map (\<lambda>(k, v). json_depth v) (map (\<lambda>(k, v). (k, strip_digest k v)) ms)) 0
      \<le> foldr max (map (\<lambda>(k, v). json_depth v) ms) 0"
    unfolding map_map by (rule foldr_max_mono) (auto simp: strip_digest_ok(3))
  then show ?thesis unfolding j without_verification_JObj json_depth.simps by linarith
qed (use without_verification_other in auto)

lemma plain_verificationDigest:
  assumes "plain (VerificationResult_any r)" "any_depth (VerificationResult_any r) \<le> max_nesting"
  shows "\<exists>d. verificationDigest r = Inr d"
proof -
  obtain t where t: "go_tree (VerificationResult_any r) = Some t" "ascii_tree t"
    "json_depth t \<le> max_nesting"
    using plain_tree [OF assms(1)] assms(2) le_trans by blast
  have "canonical_json (as_any (san t)) \<and> json_depth (as_any (san t)) \<le> max_nesting"
    using json_decode_ok decode_encode [OF go_tree_numbers [OF t(1)] t(3)] by blast
  then have "Marshal (any_of (without_verification (as_any (san t)))) =
      Inr (json_encode False (without_verification (as_any (san t))))"
    using without_verification_canonical without_verification_ascii without_verification_depth
      validate_ascii_tree [OF t(2)] le_trans by (intro Marshal_canonical) blast+
  then show ?thesis
    using t by (simp add: verificationDigest_def semantic_document_tree semantic_tree_def Digest_def)
qed

subsection \<open>\<open>Build\<close> against \<open>VerifyIntegrity\<close>\<close>

lemma Build_Inr:
  assumes "Build env i = Inr r"
  obtains n coverage complete functional observed where
    "n = normalize_input env i" "None \<notin> set (in_Errors n)"
    "coverageFor (elems (rp_ObserverSet (in_Plan n))) (in_Runner n) = (coverage, complete)"
    "functionalVerdict (in_Errors n) (elems (in_Assertions n)) (in_Completed n) = Some functional"
    "cleanupVerdictFromObservations (elems (in_Observations n)) (in_Completed n) = Inr observed"
    "validatePortListenerEvidence (observerRequired (elems (rp_ObserverSet (in_Plan n))) ''port-listen'')
      (in_Completed n) (elems (in_Observations n)) (in_Errors n) = None"
    "finish_build (build_result n coverage complete
      (build_verdicts functional (capabilityVerdict (in_Errors n) complete)
        (reproducibilityVerdict (in_Requested n) (in_Completed n) (in_Matching n)
          (in_SuccessThreshold n)) (cleanupVerdict observed (in_Completed n) (in_Errors n)))) = Inr r"
proof -
  define n where "n = normalize_input env i"
  obtain coverage complete where c:
    "coverageFor (elems (rp_ObserverSet (in_Plan n))) (in_Runner n) = (coverage, complete)"
    by force
  have nil: "\<not> nilErrorIndex (in_Errors n) \<ge> 0"
    using assms by (auto simp: Build_def n_def [symmetric] Let_def)
  then have none: "None \<notin> set (in_Errors n)" by (simp add: nilErrorIndex_neg not_le)
  from functionalVerdict_total [OF this] obtain functional where f:
    "functionalVerdict (in_Errors n) (elems (in_Assertions n)) (in_Completed n) = Some functional"
    by blast
  obtain observed where o:
    "cleanupVerdictFromObservations (elems (in_Observations n)) (in_Completed n) = Inr observed"
    using assms nil c f
    by (cases "cleanupVerdictFromObservations (elems (in_Observations n)) (in_Completed n)")
       (simp_all add: Build_def n_def [symmetric] Let_def)
  have p: "validatePortListenerEvidence (observerRequired (elems (rp_ObserverSet (in_Plan n))) ''port-listen'')
      (in_Completed n) (elems (in_Observations n)) (in_Errors n) = None"
    using assms nil c f o
    by (simp add: Build_def n_def [symmetric] Let_def split: if_splits option.splits)
  show thesis
    using assms nil c f o p
    by (intro that [OF n_def none c f o p])
       (simp add: Build_def n_def [symmetric] Let_def split: if_splits)
qed

lemma finish_build_Inr:
  "finish_build r = Inr q \<longleftrightarrow> invalidResourceSummaryField (vr_Resources r) = [] \<and> add_digests r = Inr q"
  by (auto simp: finish_build_def Let_def)

lemma build_result_simps [simp]:
  "vr_SchemaVersion (build_result n c b v) = ''1''"
  "vr_RunID (build_result n c b v) = in_RunID n"
  "vr_VerificationID (build_result n c b v) = in_VerificationID n"
  "vr_StartedAt (build_result n c b v) = UTC (in_StartedAt n)"
  "vr_CompletedAt (build_result n c b v) = UTC (in_CompletedAt n)"
  "vr_Plan (build_result n c b v) = plan_ref (in_Plan n)"
  "vr_Runner (build_result n c b v) = in_Runner n"
  "vr_Results (build_result n c b v) = v"
  "vr_ObserverCoverage (build_result n c b v) = Some c"
  "vr_Observations (build_result n c b v) = nonNilObservations (in_Observations n)"
  "vr_Assertions (build_result n c b v) = nonNilAssertions (in_Assertions n)"
  "vr_PolicyDecisions (build_result n c b v) =
    Some (baselinePolicy (rp_PolicyBundleDigest (in_Plan n)) (in_Runner n) b)"
  "vr_Errors (build_result n c b v) = in_Errors n"
  "rep_Requested (vr_Repeats (build_result n c b v)) = in_Requested n"
  "rep_Completed (vr_Repeats (build_result n c b v)) = in_Completed n"
  "rep_Matching (vr_Repeats (build_result n c b v)) = in_Matching n"
  by (simp_all add: build_result_def Let_def)

lemma build_verdicts_simps [simp]:
  "v_Functional (build_verdicts f c p k) = f" "v_Capability (build_verdicts f c p k) = c"
  "v_Reproducibility (build_verdicts f c p k) = p" "v_Cleanup (build_verdicts f c p k) = k"
  "v_Evidence (build_verdicts f c p k) = EvidenceUnsigned"
  "v_Freshness (build_verdicts f c p k) = FreshnessCurrent"
  by (simp_all add: build_verdicts_def Let_def)

text \<open>The bindings between plan and run that the checker asks for and \<open>Build\<close> does not enforce.\<close>

definition bound_input :: "Input \<Rightarrow> bool" where
  "bound_input i \<longleftrightarrow>
    rp_SchemaVersion (in_Plan i) = ''4'' \<and> validVerificationEvidence (rp_Evidence (in_Plan i)) \<and>
    rp_RepeatCount (in_Plan i) = in_Requested i \<and>
    rp_SuccessThreshold (in_Plan i) = in_SuccessThreshold i \<and>
    0 < in_SuccessThreshold i \<and> in_SuccessThreshold i \<le> in_Requested i \<and>
    \<not> IsZero (in_StartedAt i) \<and> \<not> IsZero (in_CompletedAt i) \<and>
    t_ns (in_StartedAt i) \<le> t_ns (in_CompletedAt i)"

lemma normalize_bound:
  assumes "bound_input i"
  shows "in_Plan (normalize_input env i) = in_Plan i"
    "in_Requested (normalize_input env i) = in_Requested i"
    "in_SuccessThreshold (normalize_input env i) = in_SuccessThreshold i"
    "in_StartedAt (normalize_input env i) = in_StartedAt i"
    "in_CompletedAt (normalize_input env i) = in_CompletedAt i"
  using assms by (auto simp: bound_input_def normalize_input_def Let_def)

lemma normalize_input_simps [simp]:
  "in_RunID (normalize_input env i) \<noteq> []" "in_VerificationID (normalize_input env i) \<noteq> []"
  "normalizeRunner (in_Runner (normalize_input env i)) = in_Runner (normalize_input env i)"
  by (simp_all add: normalize_input_def Let_def newOpaqueID_not_Nil)

lemma header_ok:
  assumes "bound_input i" "n = normalize_input env i" "None \<notin> set (in_Errors n)"
    "r = (build_result n c b (build_verdicts f cap p k))\<lparr>vr_Digests := d\<rparr>"
    "invalidResourceSummaryField (vr_Resources r) = []"
  shows "header_error r = None" "binding_error r = None"
proof -
  have "\<not> nilErrorIndex (in_Errors n) \<ge> 0"
    using assms(3) by (simp add: nilErrorIndex_neg not_le)
  with assms show "header_error r = None"
    using normalize_bound [OF assms(1), of env]
    by (simp add: header_error_def Before_UTC bound_input_def)
  show "binding_error r = None"
    using assms(1,2,4) normalize_bound [OF assms(1), of env]
    by (simp add: binding_error_def plan_ref_def bound_input_def validVerificationEvidence_def)
qed

lemma verdicts_ok:
  assumes "n = normalize_input env i" "bound_input i"
    "coverageFor (elems (rp_ObserverSet (in_Plan n))) (in_Runner n) = (c, b)"
    "functionalVerdict (in_Errors n) (elems (in_Assertions n)) (in_Completed n) = Some f"
    "cleanupVerdictFromObservations (elems (in_Observations n)) (in_Completed n) = Inr k"
    "validatePortListenerEvidence (observerRequired (elems (rp_ObserverSet (in_Plan n))) ''port-listen'')
      (in_Completed n) (elems (in_Observations n)) (in_Errors n) = None"
    "r = (build_result n c b (build_verdicts f (capabilityVerdict (in_Errors n) b)
        (reproducibilityVerdict (in_Requested n) (in_Completed n) (in_Matching n)
          (in_SuccessThreshold n)) (cleanupVerdict k (in_Completed n) (in_Errors n))))\<lparr>vr_Digests := d\<rparr>"
    "Digest (slice_any PolicyDecision_any (vr_PolicyDecisions r)) = Inr p_d"
  shows "verdict_error r = None"
proof -
  have feat: "map oc_Feature c = elems (rp_ObserverSet (in_Plan n))"
    using coverageFor_features [of "elems (rp_ObserverSet (in_Plan n))" "in_Runner n"] assms(3) by simp
  have req: "\<not> (\<exists>x \<in> set c. \<not> oc_Required x)"
    using assms(3) by (auto simp: coverageFor_def)
  obtain cd where cd: "Digest (ASlice (map ObserverCoverage_any c)) = Inr cd"
    using coverage_digest by blast
  have cov: "coverage_error r c = None"
    using assms(7) cd by (simp add: coverage_error_def slice_any_def)
  have pol: "policy_error r b = None"
    using assms(7,8) by (simp add: policy_error_def slice_any_def plan_ref_def)
  have thr: "vp_SuccessThreshold (vr_Plan r) = in_SuccessThreshold n"
    using assms(1,2,7) normalize_bound [OF assms(2), of env] by (simp add: plan_ref_def bound_input_def)
  show ?thesis
    using assms(3-6) feat req cov pol thr functionalVerdict_nonNil
    by (simp add: verdict_error_def assms(7) expected_verdicts_def Let_def)
qed

lemma Build_passes:
  assumes b: "Build env i = Inr r" and bound: "bound_input i"
  shows "VerifyIntegrity r = None"
proof -
  from b obtain n c b f k where n: "n = normalize_input env i" "None \<notin> set (in_Errors n)"
    and cov: "coverageFor (elems (rp_ObserverSet (in_Plan n))) (in_Runner n) = (c, b)"
    and fnl: "functionalVerdict (in_Errors n) (elems (in_Assertions n)) (in_Completed n) = Some f"
    and cl: "cleanupVerdictFromObservations (elems (in_Observations n)) (in_Completed n) = Inr k"
    and port: "validatePortListenerEvidence (observerRequired (elems (rp_ObserverSet (in_Plan n))) ''port-listen'')
      (in_Completed n) (elems (in_Observations n)) (in_Errors n) = None"
    and fin: "finish_build (build_result n c b (build_verdicts f (capabilityVerdict (in_Errors n) b)
        (reproducibilityVerdict (in_Requested n) (in_Completed n) (in_Matching n)
          (in_SuccessThreshold n)) (cleanupVerdict k (in_Completed n) (in_Errors n)))) = Inr r"
    by (rule Build_Inr)
  let ?q = "build_result n c b (build_verdicts f (capabilityVerdict (in_Errors n) b)
        (reproducibilityVerdict (in_Requested n) (in_Completed n) (in_Matching n)
          (in_SuccessThreshold n)) (cleanupVerdict k (in_Completed n) (in_Errors n)))"
  from fin have res: "invalidResourceSummaryField (vr_Resources ?q) = []" and "add_digests ?q = Inr r"
    by (simp_all add: finish_build_Inr)
  from add_digests_Inr [OF this(2)] obtain o_d a_d p_d v_d where d:
    "Digest (slice_any ObservationEvent_any (vr_Observations ?q)) = Inr o_d"
    "Digest (slice_any AssertionResult_any (vr_Assertions ?q)) = Inr a_d"
    "Digest (slice_any PolicyDecision_any (vr_PolicyDecisions ?q)) = Inr p_d"
    "verificationDigest r = Inr v_d"
    "r = ?q\<lparr>vr_Digests := \<lparr>vd_Observations = o_d, vd_Assertions = a_d, vd_PolicyDecisions = p_d,
      vd_Verification = v_d\<rparr>\<rparr>"
    by blast
  have "header_error r = None" "binding_error r = None"
    using header_ok [OF bound n d(5)] res d(5) by simp_all
  moreover have "verdict_error r = None"
    using d(3) by (intro verdicts_ok [OF n(1) bound cov fnl cl port d(5)]) (simp add: d(5))
  moreover have "check_collections (result_collections r) = None"
    using d(1-3) by (simp add: d(5) result_collections_def)
  moreover have "digest_error r = None"
    using d(4) by (simp add: digest_error_def) (simp add: d(5))
  ultimately show ?thesis by (simp add: VerifyIntegrity_def)
qed

subsection \<open>What \<open>VerifyIntegrity\<close> accepts\<close>

definition recorded_observers :: "VerificationResult \<Rightarrow> bytes list" where
  "recorded_observers r = map oc_Feature (elems (vr_ObserverCoverage r))"

lemma header_accepts:
  assumes "header_error r = None"
  shows "None \<notin> set (vr_Errors r)" "normalizeRunner (vr_Runner r) = vr_Runner r"
    "\<not> Before (vr_CompletedAt r) (vr_StartedAt r)"
  using assms
  by (auto simp: header_error_def nilErrorIndex_neg [symmetric] not_le split: if_splits)

lemma verdict_accepts:
  assumes "verdict_error r = None"
  obtains f k where
    "functionalVerdict (vr_Errors r) (elems (vr_Assertions r)) (rep_Completed (vr_Repeats r)) = Some f"
    "cleanupVerdictFromObservations (elems (vr_Observations r)) (rep_Completed (vr_Repeats r)) = Inr k"
    "validatePortListenerEvidence (observerRequired (recorded_observers r) ''port-listen'')
      (rep_Completed (vr_Repeats r)) (elems (vr_Observations r)) (vr_Errors r) = None"
    "vr_Results r = expected_verdicts r f (snd (coverageFor (recorded_observers r) (vr_Runner r))) k"
proof -
  obtain c b where cov: "coverageFor (recorded_observers r) (vr_Runner r) = (c, b)" by force
  obtain f where f:
    "functionalVerdict (vr_Errors r) (elems (vr_Assertions r)) (rep_Completed (vr_Repeats r)) = Some f"
    using assms
    by (cases "functionalVerdict (vr_Errors r) (elems (vr_Assertions r)) (rep_Completed (vr_Repeats r))")
       (simp_all add: verdict_error_def Let_def)
  obtain k where k:
    "cleanupVerdictFromObservations (elems (vr_Observations r)) (rep_Completed (vr_Repeats r)) = Inr k"
    using assms f cov unfolding recorded_observers_def
    by (cases "cleanupVerdictFromObservations (elems (vr_Observations r)) (rep_Completed (vr_Repeats r))")
       (simp_all add: verdict_error_def Let_def split: if_splits)
  show thesis
    using assms f k cov unfolding recorded_observers_def
    by (intro that [OF f k])
       (simp_all add: verdict_error_def recorded_observers_def Let_def split: if_splits)
qed

lemma VerifyIntegrity_None:
  "VerifyIntegrity r = None \<longleftrightarrow> header_error r = None \<and> check_collections (result_collections r) = None \<and>
    binding_error r = None \<and> verdict_error r = None \<and> digest_error r = None"
  by (auto simp: VerifyIntegrity_def)

lemma digest_accepts: "digest_error r = None \<Longrightarrow> verificationDigest r = Inr (vd_Verification (vr_Digests r))"
  by (auto simp: digest_error_def split: sum.splits if_splits)

lemma verificationDigest_Inr:
  "verificationDigest r = Inr d \<longleftrightarrow>
    (\<exists>doc. semantic_document r = Inr doc \<and> Digest (any_of doc) = Inr d)"
  by (simp add: verificationDigest_def rbind_Inr_iff)

lemma cleanup_positive:
  assumes "cleanupVerdictFromObservations es n = Inr k"
    "cleanupVerdict k n errs \<in> {CleanupClean, CleanupAllowedResidue}"
  shows "n \<noteq> 0 \<and> cleanupVerdict k n errs = k \<and>
    \<not> has_code [CodeCleanupResidue, CodeProcessLeak, CodeCleanupFailed, CodeSandboxDestroyFailed] errs"
proof -
  have n: "n \<noteq> 0" using assms(2) by (auto simp: cleanupVerdict_def go_const)
  have known: "known_cleanup k"
  proof -
    obtain m d where m: "scan_cleanup 0 CleanupClean es = Inr (m, d)" "k = (if m = 0 then CleanupNotTested else d)"
      using assms(1) unfolding cleanup_observations_scan by blast
    then obtain vs where vs: "map cleanupVerdictFromObservation (cleanup_events es) = map Inr vs"
      "d = foldl aggregateCleanupVerdict CleanupClean vs"
      unfolding scan_cleanup_Inr by blast
    then have "known_cleanup d" using accepted_known foldl_aggregate_known by simp
    with m(2) show ?thesis by simp
  qed
  have split: "has_code [CodeCleanupResidue, CodeProcessLeak, CodeCleanupFailed, CodeSandboxDestroyFailed] errs
      \<longleftrightarrow> has_code [CodeCleanupResidue, CodeProcessLeak] errs \<or>
        has_code [CodeCleanupFailed, CodeSandboxDestroyFailed] errs"
    using has_code_append [of "[CodeCleanupResidue, CodeProcessLeak]" "[CodeCleanupFailed, CodeSandboxDestroyFailed]" errs]
    by simp
  have distinct: "CleanupUndeclaredResidue \<notin> {CleanupClean, CleanupAllowedResidue}"
    "CleanupNotTested \<notin> {CleanupClean, CleanupAllowedResidue}"
    by (simp_all add: go_const)
  show ?thesis
    using assms(2) n distinct unfolding cleanupVerdict_cases [OF n known] split
    by (auto split: if_splits)
qed

end
