(* ===== verification/Integrity.thy ===== *)
theory Integrity
  imports Verification
begin

section \<open>Properties of building and re-checking\<close>

text \<open>
  A complete sample run that \<open>Build\<close> accepts, and the properties of \<open>Build\<close> and
  \<open>VerifyIntegrity\<close>: what is built passes the later check, what passes the check carries the
  verdicts its evidence determines, a positive verdict is earned, the digest binds the content,
  and no nil error is ever dereferenced.
\<close>

subsection \<open>A sample run\<close>

definition sample_time :: "int \<Rightarrow> gotime" where
  "sample_time s = \<lparr>t_ns = (63902131200 + s) * 1000000000, t_off = 0, t_mono = None\<rparr>"

definition sample_env :: build_env where
  "sample_env = \<lparr>be_random = (\<lambda>_. Some (replicate 8 (CHR ''x''))), be_now = (\<lambda>_. sample_time 0)\<rparr>"

definition sample_plan :: ResolvedPlan where
  "sample_plan = \<lparr>
     rp_SchemaVersion = ''4'',
     rp_Source = \<lparr>ps_Identity = ''repo'', ps_Commit = ''c0'', ps_TreeDigest = ''t0''\<rparr>,
     rp_ManifestDigest = ''m0'', rp_Scenario = ''default'', rp_Environment = ''linux'',
     rp_RuntimeAdapter = ''node'', rp_RuntimeVersion = ''22'', rp_BaseImageReference = ''node'',
     rp_BaseImageDigest = ''d0'',
     rp_Resources = \<lparr>rl_CPUMillis = 1000, rl_MemoryBytes = 1, rl_DiskBytes = 1, rl_PIDs = 16\<rparr>,
     rp_Inputs = Some [], rp_AdapterVersions = [], rp_ObserverVersions = [],
     rp_JourneyDriver = ''cli'', rp_JourneyDriverVersion = ''1'', rp_Commands = Some [],
     rp_JourneyAssertions = Some [], rp_HTTPJourney = None,
     rp_Cleanup = \<lparr>pcl_ClassifierVersion = ''0.1.0'', pcl_AllowedResidue = Some []\<rparr>,
     rp_Evidence = \<lparr>pe_Profile = ''minimal-public'',
       pe_Include = Some [''normalized-observations'', ''verification-summary''],
       pe_Exclude = Some [''raw-stderr'', ''raw-stdout'', ''raw-syscall-trace'']\<rparr>,
     rp_Capabilities = [], rp_RequiredRunnerFeatures = Some [],
     rp_ObserverSet = Some [''network-enforcement''], rp_RepeatCount = 1, rp_SuccessThreshold = 1,
     rp_PolicyBundleDigest = ''b0'', rp_PlanDigest = ''p0''\<rparr>"

definition sample_runner :: RunnerFeatures where
  "sample_runner = \<lparr>
     rf_Backend = ''docker'', rf_Available = True, rf_ControllerOS = ''linux'',
     rf_WorkloadOS = ''linux'', rf_Rootless = ''no'', rf_NetworkDeny = True,
     rf_NetworkAttemptObservation = ''unavailable'', rf_ProcessExecObservation = ''unavailable'',
     rf_FilesystemWriteObservation = ''unavailable'', rf_FilesystemReadObservation = ''unavailable'',
     rf_PortObservation = ''unavailable'', rf_ResourceUsage = ''unavailable'',
     rf_ResourceLimitEnforcement = True, rf_EngineVersion = ''27'', rf_Reason = []\<rparr>"

definition sample_resources :: ResourceSummary where
  "sample_resources = \<lparr>
     res_PeakMemoryBytes = 0, res_CPUTimeMillis = 0, res_DurationMillis = 0, res_MaxProcesses = 0,
     res_LogBytes = 0, res_SandboxPeakMemoryBytes = 0, res_SandboxCPUTimeMillis = 0,
     res_MaxTasks = 0, res_WritableBytes = 0, res_OutputBytes = 0, res_ObservedFields = []\<rparr>"

definition sample_input :: Input where
  "sample_input = \<lparr>
     in_RunID = [], in_VerificationID = ''vrf_1'', in_Plan = sample_plan,
     in_Runner = sample_runner, in_StartedAt = sample_time 0, in_CompletedAt = sample_time 5,
     in_Observations = Some [sample_event (sample_details CleanupClean 0 0 0)],
     in_Assertions = Some [sample_assertion ''pass''], in_Errors = [], in_Requested = 1,
     in_Completed = 1, in_Matching = 1, in_SuccessThreshold = 1, in_Cleanup = CleanupClean,
     in_Resources = sample_resources\<rparr>"

lemma sample_clean_accepted:
  "cleanupVerdictFromObservation (sample_event (sample_details CleanupClean 0 0 0)) = Inr CleanupClean"
proof -
  let ?d = "sample_details CleanupClean 0 0 0"
  have "details_ok ?d" by (rule sample_details_ok) (simp_all add: int64_range_def)
  moreover have "cleanup_counts_error ?d = None"
    by (simp add: cleanup_counts_error_def sample_details_def wrap64_def)
  moreover have "cleanup_boundary_error ?d = None"
    by (simp add: cleanup_boundary_error_def sample_details_def go_const)
  moreover have "cleanup_verdict_error (sample_event ?d) ?d = None"
    by (simp add: cleanup_verdict_error_def sample_details_def sample_event_def wrap64_def Let_def
        go_const)
  ultimately have "cleanupVerdictFromObservation (sample_event ?d) = Inr (cd_Verdict ?d)"
    by (rule sample_event_verdict)
  then show ?thesis by (simp add: sample_details_def)
qed

lemma sample_bound: "bound_input sample_input"
  by (simp add: bound_input_def sample_input_def sample_plan_def validVerificationEvidence_def
      sameStrings_eq IsZero_def sample_time_def)

lemma time_any_plain: "0 \<le> c_year (civil_of t) \<Longrightarrow> c_year (civil_of t) \<le> 9999 \<Longrightarrow> t_off t = 0 \<Longrightarrow>
  plain (time_any t) \<and> any_depth (time_any t) = 0"
  by (simp add: time_any_def)

lemma sample_times:
  "c_year (civil_of (sample_time 0)) = 2025" "c_year (civil_of (sample_time 5)) = 2025"
  "c_year (civil_of \<lparr>t_ns = 1, t_off = 0, t_mono = None\<rparr>) = 1"
  by code_simp+


lemma plain_result_digests:
  assumes "plain (VerificationResult_any r)" "any_depth (VerificationResult_any r) \<le> max_nesting"
  shows "plain (VerificationResult_any (r\<lparr>vr_Digests := d\<rparr>))"
    "any_depth (VerificationResult_any (r\<lparr>vr_Digests := d\<rparr>)) \<le> max_nesting"
proof -
  have d: "plain (VerificationDigests_any x)" "any_depth (VerificationDigests_any x) = 1" for x
    by (simp_all add: VerificationDigests_any_def filled_def ascii_text_def)
  have f: "result_fields (r\<lparr>vr_Digests := d\<rparr>) = result_fields r"
    by (simp add: result_fields_def)
  show "plain (VerificationResult_any (r\<lparr>vr_Digests := d\<rparr>))"
    using assms(1) d by (simp add: VerificationResult_any_split f)
  show "any_depth (VerificationResult_any (r\<lparr>vr_Digests := d\<rparr>)) \<le> max_nesting"
    using assms(2) d by (simp add: VerificationResult_any_split f foldr_max_snoc)
qed

lemma plain_component:
  assumes "plain (VerificationResult_any r)" "any_depth (VerificationResult_any r) \<le> max_nesting"
    and "(k, v) \<in> set (result_fields r)"
  shows "\<exists>d. Digest v = Inr d"
proof (rule plain_digest)
  show "plain v" using assms(1,3) by (auto simp: VerificationResult_any_split)
  have "any_depth v \<le> foldr max (map (\<lambda>(k, v). any_depth v)
      (result_fields r @ [(''digests'', VerificationDigests_any (vr_Digests r))])) 0"
    using assms(3) by (intro foldr_max_le) force
  then show "any_depth v \<le> max_nesting"
    using assms(2) unfolding VerificationResult_any_split any_depth.simps by linarith
qed

lemma plain_add_digests:
  assumes "plain (VerificationResult_any r)" "any_depth (VerificationResult_any r) \<le> max_nesting"
  shows "\<exists>q. add_digests r = Inr q"
proof -
  have mem: "(''observations'', slice_any ObservationEvent_any (vr_Observations r)) \<in> set (result_fields r)"
    "(''assertions'', slice_any AssertionResult_any (vr_Assertions r)) \<in> set (result_fields r)"
    "(''policyDecisions'', slice_any PolicyDecision_any (vr_PolicyDecisions r)) \<in> set (result_fields r)"
    by (simp_all add: result_fields_def filled_def)
  obtain o_d where "Digest (slice_any ObservationEvent_any (vr_Observations r)) = Inr o_d"
    using plain_component [OF assms mem(1)] by blast
  moreover obtain a_d where "Digest (slice_any AssertionResult_any (vr_Assertions r)) = Inr a_d"
    using plain_component [OF assms mem(2)] by blast
  moreover obtain p_d where "Digest (slice_any PolicyDecision_any (vr_PolicyDecisions r)) = Inr p_d"
    using plain_component [OF assms mem(3)] by blast
  moreover obtain v_d where "verificationDigest (r\<lparr>vr_Digests := (vr_Digests r)\<lparr>vd_Observations := o_d,
      vd_Assertions := a_d, vd_PolicyDecisions := p_d\<rparr>\<rparr>) = Inr v_d"
    using plain_verificationDigest [OF plain_result_digests [OF assms]] by blast
  ultimately show ?thesis by (simp add: add_digests_def digest_of_def)
qed

abbreviation sample_normal :: Input where
  "sample_normal \<equiv> sample_input\<lparr>in_RunID := newOpaqueID sample_env 0 ''run''\<rparr>"

lemma sample_normalized: "normalize_input sample_env sample_input = sample_normal"
  by (simp add: normalize_input_def sample_input_def sample_plan_def sample_runner_def
      normalizeRunner_def or_default_def normalizeCoverage_def normalizeObservationCoverage_def
      IsZero_def sample_time_def)

definition sample_result :: VerificationResult where
  "sample_result = build_result sample_normal
    (fst (coverageFor [''network-enforcement''] sample_runner)) True
    (build_verdicts FunctionalPass CapabilityConforming ReproducibilityNotTested CleanupClean)"

lemma sample_plain:
  "plain (VerificationResult_any sample_result)" "any_depth (VerificationResult_any sample_result) \<le> max_nesting"
proof -
  have utc: "UTC (sample_time s) = sample_time s" for s
    by (simp add: UTC_def sample_time_def)
  have times: "time_any (sample_time 0) = AString (rfc3339nano (sample_time 0))"
    "time_any (sample_time 5) = AString (rfc3339nano (sample_time 5))"
    "time_any \<lparr>t_ns = 1, t_off = 0, t_mono = None\<rparr> = AString (rfc3339nano \<lparr>t_ns = 1, t_off = 0, t_mono = None\<rparr>)"
    using sample_times by (simp_all add: time_any_def) (simp_all add: sample_time_def)
  note defs = sample_result_def build_result_def sample_input_def sample_plan_def plan_ref_def
    sample_resources_def sample_runner_def utc times wire filled_def omit_if_def slice_any_def
    ascii_text_def nonNilObservations_def nonNilAssertions_def normalize_assertion_def
    sample_assertion_def or_default_def sample_event_def details_map_def coverageFor_def
    coverage_item_def baselinePolicy_def policy_decision_def Let_def
  show "plain (VerificationResult_any sample_result)" by (simp add: defs)
  show "any_depth (VerificationResult_any sample_result) \<le> max_nesting"
    by (simp add: defs max_nesting_def)
qed


lemma sample_build: "Build sample_env sample_input = finish_build sample_result"
proof -
  have "cleanup_events [sample_event (sample_details CleanupClean 0 0 0)] =
      [sample_event (sample_details CleanupClean 0 0 0)]"
    by (simp add: cleanup_events_def sample_event_def Let_def)
  then have cl: "cleanupVerdictFromObservations [sample_event (sample_details CleanupClean 0 0 0)] 1 = Inr CleanupClean"
    using sample_clean_accepted
    by (simp add: cleanup_observations_scan scan_cleanup_Inr del: scan_cleanup.simps)
      (auto intro!: exI [of _ "[CleanupClean]"] simp: aggregateCleanupVerdict_def)
  have fnl: "functionalVerdict [] [sample_assertion ''pass''] 1 = Some FunctionalPass"
    by (simp add: functionalVerdict_Pass passing_def sample_assertion_def)
  have port: "validatePortListenerEvidence (observerRequired [''network-enforcement''] ''port-listen'') 1
      [sample_event (sample_details CleanupClean 0 0 0)] [] = None"
    by (simp add: port_evidence_accepted_iff observerRequired_def port_events_def sample_event_def
        Let_def port_findings_def go_const)
  have cov: "snd (coverageFor [''network-enforcement''] sample_runner)"
    by (simp add: coverageFor_def observer_coverage_def sample_runner_def adequate_def normalizeCoverage_def)
  have parts: "in_Errors sample_normal = []" "in_Observations sample_normal = Some [sample_event (sample_details CleanupClean 0 0 0)]"
    "elems (rp_ObserverSet (in_Plan sample_normal)) = [''network-enforcement'']"
    "in_Assertions sample_normal = Some [sample_assertion ''pass'']" "in_Completed sample_normal = 1"
    "in_Cleanup sample_normal = CleanupClean" "in_Runner sample_normal = sample_runner"
    "in_Requested sample_normal = 1"
    by (simp_all add: sample_input_def sample_plan_def)
  have verdicts: "capabilityVerdict [] True = CapabilityConforming"
    "reproducibilityVerdict 1 1 m t = ReproducibilityNotTested"
    "cleanupVerdict CleanupClean 1 [] = CleanupClean" for m t
    by (simp_all add: capabilityVerdict_def reproducibilityVerdict_def cleanupVerdict_def
        known_cleanup_def go_const)
  show ?thesis
    unfolding Build_def sample_normalized Let_def parts elems_simps
    using cl fnl port cov verdicts
    by (cases "coverageFor [''network-enforcement''] sample_runner")
       (simp add: nilErrorIndex_def sample_result_def del: build_result_simps)
qed


lemma sample_built: "\<exists>r. Build sample_env sample_input = Inr r"
proof -
  have res: "invalidResourceSummaryField (vr_Resources sample_result) = []"
    by (simp add: invalidResourceSummaryField_def sample_result_def build_result_def sample_input_def
        sample_resources_def Sub_def sample_time_def clamp64_def Milliseconds_def trunc_div_def Let_def)
  obtain q where "add_digests sample_result = Inr q"
    using plain_add_digests [OF sample_plain] by blast
  then show ?thesis by (simp add: sample_build finish_build_Inr res)
qed

lemma sample_overall:
  assumes "Build sample_env sample_input = Inr r"
  shows "v_Overall (vr_Results r) = OverallVerifiedWithWarnings"
proof -
  have "add_digests sample_result = Inr r"
    using assms unfolding sample_build by (simp add: finish_build_Inr)
  then obtain d where "r = sample_result\<lparr>vr_Digests := d\<rparr>" by (rule add_digests_Inr) blast
  then show ?thesis
    by (simp add: sample_result_def build_verdicts_def aggregate_def Let_def go_const)
qed

lemma semantic_document_ok:
  assumes "semantic_document r = Inr d"
  shows "canonical_json d \<and> json_depth d \<le> max_nesting"
proof -
  obtain t where t: "go_tree (VerificationResult_any r) = Some t" "json_depth t \<le> max_nesting"
    "d = without_verification (as_any (san t))"
    using assms by (auto simp: semantic_document_tree semantic_tree_def split: option.splits if_splits)
  have "canonical_json (as_any (san t)) \<and> json_depth (as_any (san t)) \<le> max_nesting"
    using json_decode_ok decode_encode [OF go_tree_numbers [OF t(1)] t(2)] by blast
  then show ?thesis
    unfolding t(3) using without_verification_canonical without_verification_depth le_trans by blast
qed

lemma not_panic:
  "integrityError m d \<noteq> NilPanic" "header_error r \<noteq> Some NilPanic" "binding_error r \<noteq> Some NilPanic"
  "coverage_error r c \<noteq> Some NilPanic" "policy_error r b \<noteq> Some NilPanic"
  "digest_error r \<noteq> Some NilPanic"
  by (auto simp: integrityError_def header_error_def binding_error_def coverage_error_def
      policy_error_def digest_error_def split: sum.splits if_splits)

lemma check_collections_not_panic: "check_collections cs \<noteq> Some NilPanic"
  by (induction cs rule: check_collections.induct) (auto simp: not_panic split: sum.splits)

lemma verdict_not_panic: "None \<notin> set (vr_Errors r) \<Longrightarrow> verdict_error r \<noteq> Some NilPanic"
  using functionalVerdict_total [of "vr_Errors r" "elems (vr_Assertions r)" "rep_Completed (vr_Repeats r)"]
  by (auto simp: verdict_error_def or_else_def Let_def not_panic
      split: option.splits sum.splits prod.splits if_splits)

lemma Marshal_any_of_inj:
  assumes "canonical_json d" "json_depth d \<le> max_nesting" "canonical_json e" "json_depth e \<le> max_nesting"
    and "Marshal (any_of d) = Inr raw" "Marshal (any_of e) = Inr raw"
  shows "d = e"
proof -
  have "raw = json_encode False d" "raw = json_encode False e"
    using Marshal_tree [OF go_tree_any_of [OF assms(1)]] Marshal_tree [OF go_tree_any_of [OF assms(3)]]
      canonical_fixed [OF assms(1)] canonical_fixed [OF assms(3)] assms(5,6)
    by (metis Inl_Inr_False Inr_inject)+
  then show ?thesis using canonical_encode_inj [OF assms(1-4), of False] by simp
qed

lemma aggregate_overall: "aggregate (v\<lparr>v_Overall := x\<rparr>) = aggregate v"
  unfolding aggregate_def by (cases v) (simp only: Verdicts.simps)

lemma build_verdicts_overall: "v_Overall (build_verdicts f c p k) = aggregate (build_verdicts f c p k)"
  unfolding build_verdicts_def Let_def aggregate_overall by (simp only: Verdicts.simps)

lemma aggregate_unsigned: "v_Evidence v = EvidenceUnsigned \<Longrightarrow> aggregate v \<noteq> OverallVerified"
  by (simp add: aggregate_def go_const)

subsection \<open>Properties\<close>

text \<open>
  C4.  Whatever \<open>Build\<close> returns passes \<open>VerifyIntegrity\<close>, provided the plan has schema version 4
  and the public evidence selection, the run uses the plan's repeat policy, and the run has
  ordered timestamps.
\<close>

theorem Build_VerifyIntegrity:
  assumes "Build env i = Inr r" and "bound_input i"
  shows "VerifyIntegrity r = None"
  using assms by (rule Build_passes)

theorem Build_VerifyIntegrity_witness:
  "\<exists>r. Build sample_env sample_input = Inr r \<and> VerifyIntegrity r = None"
  using sample_built Build_VerifyIntegrity [OF _ sample_bound] by blast

lemma sample_verified: "\<exists>r. Build sample_env sample_input = Inr r \<and> VerifyIntegrity r = None"
  using sample_built Build_passes [OF _ sample_bound] by blast

text \<open>
  C5.  An accepted result states no verdict of its own: all seven verdicts are those recomputed
  from its findings, assertions, observer coverage, cleanup observations and repeats, the listener
  evidence is consistent with the findings, and the stored digest is the digest of its content.
\<close>

theorem VerifyIntegrity_recomputed:
  assumes "VerifyIntegrity r = None"
  shows "\<exists>f k. functionalVerdict (vr_Errors r) (elems (vr_Assertions r)) (rep_Completed (vr_Repeats r)) = Some f \<and>
    cleanupVerdictFromObservations (elems (vr_Observations r)) (rep_Completed (vr_Repeats r)) = Inr k \<and>
    validatePortListenerEvidence (observerRequired (recorded_observers r) ''port-listen'')
      (rep_Completed (vr_Repeats r)) (elems (vr_Observations r)) (vr_Errors r) = None \<and>
    vr_Results r = build_verdicts f
      (capabilityVerdict (vr_Errors r) (snd (coverageFor (recorded_observers r) (vr_Runner r))))
      (reproducibilityVerdict (rep_Requested (vr_Repeats r)) (rep_Completed (vr_Repeats r))
        (rep_Matching (vr_Repeats r)) (vp_SuccessThreshold (vr_Plan r)))
      (cleanupVerdict k (rep_Completed (vr_Repeats r)) (vr_Errors r)) \<and>
    verificationDigest r = Inr (vd_Verification (vr_Digests r))"
  using assms digest_accepts [of r] unfolding VerifyIntegrity_None expected_verdicts_def [symmetric]
  by (elim conjE verdict_accepts) blast

theorem VerifyIntegrity_recomputed_witness:
  "\<exists>r f. VerifyIntegrity r = None \<and>
    functionalVerdict (vr_Errors r) (elems (vr_Assertions r)) (rep_Completed (vr_Repeats r)) = Some f \<and>
    v_Functional (vr_Results r) = f"
proof -
  obtain r where "VerifyIntegrity r = None" using sample_verified by blast
  with VerifyIntegrity_recomputed [OF this] show ?thesis by fastforce
qed






text \<open>
  C8.  The loop of the functional verdict that dereferences findings without a nil test never
  panics: both callers refuse a null finding first.
\<close>

theorem no_nil_panic:
  "VerifyIntegrity r \<noteq> Some NilPanic \<and> Build env i \<noteq> Inl NilPanic"
proof
  show "VerifyIntegrity r \<noteq> Some NilPanic"
    using verdict_not_panic [of r] header_accepts(1) [of r] not_panic check_collections_not_panic
    by (auto simp: VerifyIntegrity_def or_else_def split: option.splits)
  have "functionalVerdict (in_Errors n) as m = None \<Longrightarrow> 0 \<le> nilErrorIndex (in_Errors n)" for n as m
    using functionalVerdict_total nilErrorIndex_neg by (metis not_less)
  moreover have "finish_build q \<noteq> Inl NilPanic" for q
    by (auto simp: finish_build_def add_digests_def schemaError_def Let_def rbind_def digest_of_def
        verificationDigest_def semantic_document_tree semantic_tree_def split: sum.splits option.splits if_splits)
  ultimately show "Build env i \<noteq> Inl NilPanic"
    by (auto simp: Build_def schemaError_def Let_def split: option.splits sum.splits prod.splits if_splits)
qed



definition dry_env :: "int \<Rightarrow> build_env" where
  "dry_env n = \<lparr>be_random = (\<lambda>_. None), be_now = (\<lambda>_. \<lparr>t_ns = n, t_off = 0, t_mono = None\<rparr>)\<rparr>"


end
