(* ===== verification/Go_Path.thy ===== *)
theory Go_Path
  imports Prelude
begin

section \<open>Slash-separated paths (\<^verbatim>\<open>path\<close> and \<^verbatim>\<open>path/filepath\<close> on Unix)\<close>

text \<open>
  The lexical path functions of the Go standard library the program uses.  A path is processed
  as the list of its components; \<open>abs_path\<close> renders a list of ordinary names as an absolute
  path, and the lemmas show that every cleaned absolute path has this form.
\<close>

subsection \<open>Model\<close>

fun split_slash :: "bytes \<Rightarrow> bytes list" where
  "split_slash [] = [[]]"
| "split_slash (c # s) =
    (if c = CHR ''/'' then [] # split_slash s
     else case split_slash s of [] \<Rightarrow> [[c]] | x # xs \<Rightarrow> (c # x) # xs)"

fun join_slash :: "bytes list \<Rightarrow> bytes" where
  "join_slash [] = []"
| "join_slash [x] = x"
| "join_slash (x # y # xs) = x @ CHR ''/'' # join_slash (y # xs)"

definition IsAbs :: "bytes \<Rightarrow> bool" where
  "IsAbs p \<longleftrightarrow> take 1 p = ''/''"

definition clean_push :: "bool \<Rightarrow> bytes list \<Rightarrow> bytes \<Rightarrow> bytes list" where
  "clean_push rooted out c =
    (if c = [] \<or> c = ''.'' then out
     else if c = ''..'' then
       (if out \<noteq> [] \<and> last out \<noteq> ''..'' then butlast out else if rooted then out else out @ [c])
     else out @ [c])"

definition clean_comps :: "bool \<Rightarrow> bytes list \<Rightarrow> bytes list" where
  "clean_comps rooted cs = foldl (clean_push rooted) [] cs"

definition Clean :: "bytes \<Rightarrow> bytes" where
  "Clean p =
    (if IsAbs p then CHR ''/'' # join_slash (clean_comps True (split_slash p))
     else let cs = clean_comps False (split_slash p) in if cs = [] then ''.'' else join_slash cs)"

fun Join :: "bytes list \<Rightarrow> bytes" where
  "Join [] = []"
| "Join (e # es) = (if e = [] then Join es else Clean (join_slash (e # es)))"

definition Dir :: "bytes \<Rightarrow> bytes" where
  "Dir p = Clean (rev (dropWhile (\<lambda>c. c \<noteq> CHR ''/'') (rev p)))"

definition path_comps :: "bytes \<Rightarrow> bytes list" where
  "path_comps p = filter (\<lambda>c. c \<noteq> []) (split_slash p)"

fun strip_common :: "bytes list \<Rightarrow> bytes list \<Rightarrow> bytes list \<times> bytes list" where
  "strip_common (b # bs) (t # ts) = (if b = t then strip_common bs ts else (b # bs, t # ts))"
| "strip_common bs ts = (bs, ts)"

definition Rel :: "bytes \<Rightarrow> bytes \<Rightarrow> bytes option" where
  "Rel base targ =
    (let b = Clean base; t = Clean targ in
     if t = b then Some ''.''
     else let b' = (if b = ''.'' then [] else b) in
       if IsAbs b' \<noteq> IsAbs t then None
       else case strip_common (path_comps b') (path_comps t) of (bs, ts) \<Rightarrow>
         if take 1 bs = [''..''] then None
         else Some (join_slash (replicate (length bs) ''..'' @ ts)))"

subsection \<open>Ordinary names\<close>

definition name_ok :: "bytes \<Rightarrow> bool" where
  "name_ok c \<longleftrightarrow> c \<noteq> [] \<and> c \<noteq> ''.'' \<and> c \<noteq> ''..'' \<and> CHR ''/'' \<notin> set c"

definition abs_path :: "bytes list \<Rightarrow> bytes" where
  "abs_path cs = CHR ''/'' # join_slash cs"

lemma split_slash_not_Nil [simp]: "split_slash s \<noteq> []"
  by (induction s) (auto split: list.splits)

lemma split_slash_no_slash: "c \<in> set (split_slash s) \<Longrightarrow> CHR ''/'' \<notin> set c"
proof (induction s arbitrary: c)
  case (Cons a s)
  obtain x xs where x: "split_slash s = x # xs" by (cases "split_slash s") auto
  with Cons show ?case by (auto split: if_splits)
qed simp

lemma split_slash_atom: "CHR ''/'' \<notin> set x \<Longrightarrow> split_slash x = [x]"
  by (induction x) auto

lemma split_slash_append:
  "CHR ''/'' \<notin> set x \<Longrightarrow> split_slash (x @ CHR ''/'' # s) = x # split_slash s"
  by (induction x) auto

lemma split_slash_slash [simp]: "split_slash (s @ CHR ''/'' # t) = split_slash s @ split_slash t"
proof (induction s)
  case (Cons a s)
  obtain x xs where "split_slash s = x # xs" by (cases "split_slash s") auto
  with Cons show ?case by auto
qed simp

lemma split_join:
  "cs \<noteq> [] \<Longrightarrow> list_all (\<lambda>c. CHR ''/'' \<notin> set c) cs \<Longrightarrow> split_slash (join_slash cs) = cs"
proof (induction cs rule: join_slash.induct)
  case (2 x)
  then show ?case by (simp add: split_slash_atom)
qed (auto simp: split_slash_atom)

lemma name_ok_no_slash: "list_all name_ok cs \<Longrightarrow> list_all (\<lambda>c. CHR ''/'' \<notin> set c) cs"
  by (auto simp: list_all_iff name_ok_def)

lemma clean_push_name: "name_ok c \<Longrightarrow> clean_push r out c = out @ [c]"
  by (simp add: clean_push_def name_ok_def)

lemma foldl_clean_names:
  "list_all name_ok cs \<Longrightarrow> foldl (clean_push r) out cs = out @ cs"
  by (induction cs arbitrary: out) (simp_all add: clean_push_name)

lemma clean_comps_names [simp]: "list_all name_ok cs \<Longrightarrow> clean_comps r cs = cs"
  by (simp add: clean_comps_def foldl_clean_names)

lemma clean_comps_empty [simp]: "clean_comps r ([] # cs) = clean_comps r cs"
  by (simp add: clean_comps_def clean_push_def)

lemma clean_rooted_names:
  assumes "list_all name_ok out" "list_all (\<lambda>c. CHR ''/'' \<notin> set c) cs"
  shows "list_all name_ok (foldl (clean_push True) out cs)"
  using assms
proof (induction cs arbitrary: out)
  case (Cons c cs)
  have "list_all name_ok (clean_push True out c)"
    using Cons.prems by (auto simp: clean_push_def name_ok_def list_all_iff dest: in_set_butlastD)
  with Cons show ?case by simp
qed simp

lemma IsAbs_abs_path [simp]: "IsAbs (abs_path cs)"
  by (simp add: IsAbs_def abs_path_def)

lemma abs_path_not_Nil [simp]: "abs_path cs \<noteq> []"
  by (simp add: abs_path_def)

lemma split_abs_path:
  "list_all name_ok cs \<Longrightarrow> split_slash (abs_path cs) = [] # (if cs = [] then [[]] else cs)"
  using split_join [OF _ name_ok_no_slash] by (auto simp: abs_path_def)

lemma path_comps_abs_path [simp]: "list_all name_ok cs \<Longrightarrow> path_comps (abs_path cs) = cs"
  by (auto simp: path_comps_def split_abs_path list_all_iff name_ok_def intro: filter_True)

lemma Clean_abs_path [simp]: "list_all name_ok cs \<Longrightarrow> Clean (abs_path cs) = abs_path cs"
  by (auto simp: Clean_def split_abs_path) (simp_all add: abs_path_def clean_comps_def clean_push_def)

lemma Clean_rooted:
  assumes "IsAbs p"
  shows "\<exists>cs. list_all name_ok cs \<and> Clean p = abs_path cs"
proof (intro exI conjI)
  show "list_all name_ok (clean_comps True (split_slash p))"
    unfolding clean_comps_def
    by (rule clean_rooted_names) (auto simp: list_all_iff dest: split_slash_no_slash)
  show "Clean p = abs_path (clean_comps True (split_slash p))"
    using assms by (simp add: Clean_def abs_path_def)
qed

lemma join_slash_Cons: "join_slash (x # y # xs) = x @ CHR ''/'' # join_slash (y # xs)"
  by simp

lemma split_join_names:
  assumes "list_all name_ok ds" "ds \<noteq> []"
  shows "split_slash (join_slash (p # ds)) = split_slash p @ ds"
  using assms split_join [OF _ name_ok_no_slash, of ds] by (cases ds) auto

lemma Join_abs_path [simp]:
  assumes "list_all name_ok cs" "list_all name_ok ds"
  shows "Join (abs_path cs # ds) = abs_path (cs @ ds)"
proof (cases "ds = []")
  case True
  with assms show ?thesis by simp
next
  case False
  have "clean_comps True (split_slash (join_slash (abs_path cs # ds))) = cs @ ds"
    using assms False
    by (cases "cs = []") (simp_all add: split_join_names split_abs_path clean_comps_def clean_push_def
        foldl_clean_names)
  moreover have "IsAbs (join_slash (abs_path cs # ds))"
    using False by (cases ds) (simp_all add: IsAbs_def abs_path_def)
  ultimately show ?thesis
    by (simp add: Clean_def abs_path_def)
qed

lemma abs_path_inj:
  "list_all name_ok cs \<Longrightarrow> list_all name_ok ds \<Longrightarrow> abs_path cs = abs_path ds \<longleftrightarrow> cs = ds"
  using path_comps_abs_path by metis

lemma Rel_root:
  assumes "list_all name_ok cs"
  shows "Rel ''/'' (abs_path cs) = Some (if cs = [] then ''.'' else join_slash cs)"
proof -
  have root: "Clean ''/'' = abs_path []"
    by (simp add: Clean_def IsAbs_def abs_path_def clean_comps_def clean_push_def)
  have "strip_common [] cs = ([], cs)" by (cases cs) auto
  with assms abs_path_inj [of cs "[]"] show ?thesis
    by (auto simp: Rel_def root Let_def) (simp_all add: abs_path_def)
qed

declare Join.simps [simp del]

end
