(* ===== verification/Posix.thy ===== *)
theory Posix
  imports Go_Path "HOL-Library.Sublist"
begin

unbundle bit_operations_syntax

section \<open>The file system the state stores run on\<close>

text \<open>
  The operating-system calls of the Unix build, as the \<^verbatim>\<open>os\<close> package offers them.  A
  \<open>world\<close> maps physical paths (lists of names) to inode numbers and inode numbers to inodes,
  and carries what a run takes from its surroundings as functions of a call counter: which call
  fails (\<open>w_fault\<close>), how much of a failing write reached the file (\<open>w_short\<close>), the random
  numbers of temporary names, the state of the context, the outcomes of \<^verbatim>\<open>flock\<close> and how
  much time passes.  A failing call other than a write has no effect on the file system; in
  particular \<^verbatim>\<open>rename\<close> is atomic.  Path lookup follows symbolic links as the kernel does.
\<close>

subsection \<open>Model\<close>

datatype node_kind = NDir | NFile | NLink bytes | NOther

type_synonym perm = "32 word"

record inode =
  i_kind :: node_kind
  i_perm :: perm
  i_uid :: nat
  i_nlink :: nat
  i_data :: bytes

datatype flock_outcome = Locked | WouldBlock | FlockFailed

record world =
  w_names :: "bytes list \<Rightarrow> nat option"
  w_inodes :: "nat \<Rightarrow> inode"
  w_next :: nat
  w_cwd :: bytes
  w_euid :: nat
  w_umask :: perm
  w_tick :: nat
  w_now :: int
  w_fault :: "nat \<Rightarrow> bool"
  w_short :: "nat \<Rightarrow> nat"
  w_random :: "nat \<Rightarrow> nat"
  w_done :: "nat \<Rightarrow> bool"
  w_flock :: "nat \<Rightarrow> flock_outcome"
  w_lag :: "nat \<Rightarrow> nat"

datatype os_error = NotExist | Exist | OtherError | ErrUnavailable

type_synonym 'a io = "world \<Rightarrow> (os_error, 'a) result \<times> world"

definition io_return :: "'a \<Rightarrow> 'a io" where
  "io_return x w = (Inr x, w)"

definition io_fail :: "os_error \<Rightarrow> 'a io" where
  "io_fail e w = (Inl e, w)"

definition io_bind :: "'a io \<Rightarrow> ('a \<Rightarrow> 'b io) \<Rightarrow> 'b io" where
  "io_bind m f w = (case m w of (Inl e, w') \<Rightarrow> (Inl e, w') | (Inr x, w') \<Rightarrow> f x w')"

text \<open>The error of a call as a value, and \<^verbatim>\<open>defer\<close>: a last action whose result is ignored.\<close>

definition io_try :: "'a io \<Rightarrow> (os_error, 'a) result io" where
  "io_try m w = (case m w of (r, w') \<Rightarrow> (Inr r, w'))"

definition io_defer :: "'a io \<Rightarrow> 'b io \<Rightarrow> 'a io" where
  "io_defer m d w = (case m w of (r, w') \<Rightarrow> (r, snd (d w')))"

definition io_require :: "bool \<Rightarrow> unit io" where
  "io_require c = (if c then io_return () else io_fail ErrUnavailable)"

definition step :: "world \<Rightarrow> world" where
  "step w = w\<lparr>w_tick := Suc (w_tick w), w_now := w_now w + int (w_lag w (w_tick w))\<rparr>"

definition sys :: "'a io \<Rightarrow> 'a io" where
  "sys f w = (if w_fault w (w_tick w) then (Inl OtherError, step w) else f (step w))"

definition node :: "world \<Rightarrow> bytes list \<Rightarrow> inode option" where
  "node w q = map_option (w_inodes w) (w_names w q)"

function walk ::
  "(bytes list \<Rightarrow> inode option) \<Rightarrow> bool \<Rightarrow> nat \<Rightarrow> bytes list \<Rightarrow> bytes list \<Rightarrow> (os_error, bytes list) result"
where
  "walk ns follow k cur [] = Inr cur"
| "walk ns follow k cur (c # cs) =
    (if c = [] \<or> c = ''.'' then walk ns follow k cur cs
     else if c = ''..'' then walk ns follow k (butlast cur) cs
     else case ns (cur @ [c]) of
       None \<Rightarrow> if cs = [] then Inr (cur @ [c]) else Inl NotExist
     | Some nd \<Rightarrow>
         (case i_kind nd of
            NDir \<Rightarrow> walk ns follow k (cur @ [c]) cs
          | NLink target \<Rightarrow>
              if cs = [] \<and> \<not> follow then Inr (cur @ [c])
              else if k = 0 then Inl OtherError
              else walk ns follow (k - 1) (if IsAbs target then [] else cur) (split_slash target @ cs)
          | _ \<Rightarrow> if cs = [] then Inr (cur @ [c]) else Inl OtherError))"
  by pat_completeness auto
termination
  by (relation "measures [\<lambda>(_, _, k, _, _). k, \<lambda>(_, _, _, _, cs). length cs]") auto

definition max_links :: nat where
  "max_links = 40"

definition resolve :: "world \<Rightarrow> bool \<Rightarrow> bytes \<Rightarrow> (os_error, bytes list) result" where
  "resolve w follow p =
    (if p = [] then Inl NotExist
     else walk (node w) follow max_links (if IsAbs p then [] else path_comps (w_cwd w)) (split_slash p))"

definition is_dir :: "world \<Rightarrow> bytes list \<Rightarrow> bool" where
  "is_dir w q \<longleftrightarrow> (case node w q of Some nd \<Rightarrow> i_kind nd = NDir | None \<Rightarrow> False)"

definition parent_dir :: "world \<Rightarrow> bytes list \<Rightarrow> bool" where
  "parent_dir w q \<longleftrightarrow> q \<noteq> [] \<and> is_dir w (butlast q)"

definition on_path :: "bool \<Rightarrow> bytes \<Rightarrow> (bytes list \<Rightarrow> 'a io) \<Rightarrow> 'a io" where
  "on_path follow p f =
    sys (\<lambda>w. case resolve w follow p of Inl e \<Rightarrow> (Inl e, w) | Inr q \<Rightarrow> f q w)"

type_synonym file_info = "nat \<times> inode"

definition Lstat :: "bytes \<Rightarrow> file_info io" where
  "Lstat p = on_path False p (\<lambda>q w.
    case w_names w q of None \<Rightarrow> (Inl NotExist, w) | Some i \<Rightarrow> (Inr (i, w_inodes w i), w))"

definition create_node :: "world \<Rightarrow> bytes list \<Rightarrow> node_kind \<Rightarrow> perm \<Rightarrow> world" where
  "create_node w q kind perm = w\<lparr>
     w_names := (w_names w)(q \<mapsto> w_next w),
     w_inodes := (w_inodes w)(w_next w := \<lparr>i_kind = kind, i_perm = perm AND NOT (w_umask w),
       i_uid = w_euid w, i_nlink = 1, i_data = []\<rparr>),
     w_next := Suc (w_next w)\<rparr>"

definition Mkdir :: "bytes \<Rightarrow> perm \<Rightarrow> unit io" where
  "Mkdir p perm = on_path False p (\<lambda>q w.
     if w_names w q \<noteq> None then (Inl Exist, w)
     else if \<not> parent_dir w q then (Inl NotExist, w)
     else (Inr (), create_node w q NDir perm))"

text \<open>\<^verbatim>\<open>O_CREATE|O_EXCL\<close>, and opening what exists; a file handle is its inode number.\<close>

definition OpenExclusive :: "bytes \<Rightarrow> perm \<Rightarrow> nat io" where
  "OpenExclusive p perm = on_path False p (\<lambda>q w.
     if w_names w q \<noteq> None then (Inl Exist, w)
     else if \<not> parent_dir w q then (Inl NotExist, w)
     else (Inr (w_next w), create_node w q NFile perm))"

definition OpenExisting :: "bool \<Rightarrow> bytes \<Rightarrow> nat io" where
  "OpenExisting writable p = on_path True p (\<lambda>q w.
     case w_names w q of
       None \<Rightarrow> (Inl NotExist, w)
     | Some i \<Rightarrow> if writable \<and> i_kind (w_inodes w i) = NDir then (Inl OtherError, w) else (Inr i, w))"

definition Stat :: "nat \<Rightarrow> file_info io" where
  "Stat i = sys (\<lambda>w. (Inr (i, w_inodes w i), w))"

definition Chmod :: "nat \<Rightarrow> perm \<Rightarrow> unit io" where
  "Chmod i perm = sys (\<lambda>w. (Inr (),
     w\<lparr>w_inodes := (w_inodes w)(i := (w_inodes w i)\<lparr>i_perm := perm\<rparr>)\<rparr>))"

definition ReadUpTo :: "nat \<Rightarrow> nat \<Rightarrow> bytes io" where
  "ReadUpTo i n = sys (\<lambda>w. (Inr (take n (i_data (w_inodes w i))), w))"

definition append_data :: "nat \<Rightarrow> bytes \<Rightarrow> world \<Rightarrow> world" where
  "append_data i s w =
    w\<lparr>w_inodes := (w_inodes w)(i := (w_inodes w i)\<lparr>i_data := i_data (w_inodes w i) @ s\<rparr>)\<rparr>"

definition Write :: "nat \<Rightarrow> bytes \<Rightarrow> unit io" where
  "Write i raw w =
    (if w_fault w (w_tick w)
     then (Inl OtherError, append_data i (take (w_short w (w_tick w)) raw) (step w))
     else (Inr (), append_data i raw (step w)))"

definition Sync :: "nat \<Rightarrow> unit io" where
  "Sync i = sys (io_return ())"

definition Close :: "nat \<Rightarrow> unit io" where
  "Close i = sys (io_return ())"

definition relink :: "bytes list \<Rightarrow> bytes list \<Rightarrow> nat \<Rightarrow> world \<Rightarrow> world" where
  "relink q1 q2 i w = w\<lparr>
     w_names := (w_names w)(q2 := Some i, q1 := None),
     w_inodes := (case w_names w q2 of
        None \<Rightarrow> w_inodes w
      | Some j \<Rightarrow> (w_inodes w)(j := (w_inodes w j)\<lparr>i_nlink := i_nlink (w_inodes w j) - 1\<rparr>))\<rparr>"

definition rename_nodes :: "bytes list \<Rightarrow> bytes list \<Rightarrow> unit io" where
  "rename_nodes q1 q2 w =
    (case w_names w q1 of
       None \<Rightarrow> (Inl NotExist, w)
     | Some i \<Rightarrow>
         if w_names w q2 = Some i then (Inr (), w)
         else if \<not> parent_dir w q2 then (Inl NotExist, w)
         else if i_kind (w_inodes w i) = NDir \<or> is_dir w q2 then (Inl OtherError, w)
         else (Inr (), relink q1 q2 i w))"

text \<open>Only files are renamed and removed by the program; for a directory the call is refused.\<close>

definition Rename :: "bytes \<Rightarrow> bytes \<Rightarrow> unit io" where
  "Rename source destination = on_path False source (\<lambda>q1 w.
     case resolve w False destination of Inl e \<Rightarrow> (Inl e, w) | Inr q2 \<Rightarrow> rename_nodes q1 q2 w)"

definition Remove :: "bytes \<Rightarrow> unit io" where
  "Remove p = on_path False p (\<lambda>q w.
     case w_names w q of
       None \<Rightarrow> (Inl NotExist, w)
     | Some i \<Rightarrow>
         if i_kind (w_inodes w i) = NDir then (Inl OtherError, w)
         else (Inr (), w\<lparr>w_names := (w_names w)(q := None),
           w_inodes := (w_inodes w)(i := (w_inodes w i)\<lparr>i_nlink := i_nlink (w_inodes w i) - 1\<rparr>)\<rparr>))"

definition EvalSymlinks :: "bytes \<Rightarrow> bytes io" where
  "EvalSymlinks p = on_path True p (\<lambda>q w.
     if w_names w q = None then (Inl NotExist, w) else (Inr (abs_path q), w))"

definition Getwd :: "bytes io" where
  "Getwd = sys (\<lambda>w. (Inr (w_cwd w), w))"

definition Abs :: "bytes \<Rightarrow> bytes io" where
  "Abs p = (if IsAbs p then io_return (Clean p) else io_bind Getwd (\<lambda>wd. io_return (Join [wd, p])))"

text \<open>\<^verbatim>\<open>os.CreateTemp\<close>: a random decimal suffix, at most 10000 attempts.\<close>

function create_temp :: "nat \<Rightarrow> bytes \<Rightarrow> bytes \<Rightarrow> (nat \<times> bytes) io" where
  "create_temp tries directory pfx w =
    (let name = (if last directory = CHR ''/'' then directory else directory @ ''/'') @ pfx
           @ dec_nat (w_random w (w_tick w) mod 2 ^ 32) in
     case OpenExclusive name 0x180 w of
       (Inr i, w') \<Rightarrow> (Inr (i, name), w')
     | (Inl e, w') \<Rightarrow>
         if e = Exist \<and> tries > 0 then create_temp (tries - 1) directory pfx w' else (Inl e, w'))"
  by pat_completeness auto
termination
  by (relation "measure (\<lambda>(tries, _, _, _). tries)") auto

declare create_temp.simps [simp del] walk.simps [simp del]

definition CreateTemp :: "bytes \<Rightarrow> bytes \<Rightarrow> (nat \<times> bytes) io" where
  "CreateTemp directory pfx = create_temp 9999 directory pfx"

definition ContextErr :: "unit io" where
  "ContextErr w = (if w_done w (w_tick w) then (Inl ErrUnavailable, step w) else (Inr (), step w))"

subsection \<open>Well-formed worlds\<close>

definition wf_world :: "world \<Rightarrow> bool" where
  "wf_world w \<longleftrightarrow> IsAbs (w_cwd w) \<and> is_dir w [] \<and> (\<forall>q i. w_names w q = Some i \<longrightarrow> i < w_next w) \<and>
    (\<forall>q c i. w_names w (q @ [c]) = Some i \<longrightarrow> is_dir w q)"

lemma wf_parent: "wf_world w \<Longrightarrow> w_names w (q @ [c]) = Some i \<Longrightarrow> is_dir w q"
  unfolding wf_world_def by blast

lemma wf_next: "wf_world w \<Longrightarrow> w_names w q = Some i \<Longrightarrow> i < w_next w"
  by (auto simp: wf_world_def)

definition view :: "world \<Rightarrow> bytes list \<Rightarrow> (node_kind \<times> bytes) option" where
  "view w q = map_option (\<lambda>nd. (i_kind nd, i_data nd)) (node w q)"

definition fresh_view :: "(node_kind \<times> bytes) option \<Rightarrow> bool" where
  "fresh_view v \<longleftrightarrow> v = Some (NDir, []) \<or> v = Some (NFile, [])"

text \<open>
  \<open>evolves X w w'\<close>: outside the paths of \<open>X\<close> nothing that existed in \<open>w\<close> has changed kind or
  content in \<open>w'\<close>, and what is new there is an empty directory or file.
\<close>

definition evolves :: "bytes list set \<Rightarrow> world \<Rightarrow> world \<Rightarrow> bool" where
  "evolves X w w' \<longleftrightarrow> wf_world w' \<and> w_cwd w' = w_cwd w \<and> w_next w \<le> w_next w' \<and>
    (\<forall>q. q \<notin> X \<longrightarrow> view w' q = view w q \<or> view w q = None \<and> fresh_view (view w' q))"

named_theorems keeps_intros \<open>calls that change no existing file\<close>

definition keeps :: "'a io \<Rightarrow> bool" where
  "keeps m \<longleftrightarrow> (\<forall>w r w'. wf_world w \<longrightarrow> m w = (r, w') \<longrightarrow> evolves {} w w')"

lemma keepsD: "keeps m \<Longrightarrow> m w = (r, w') \<Longrightarrow> wf_world w \<Longrightarrow> evolves {} w w'"
  by (auto simp: keeps_def)

lemma evolves_refl: "wf_world w \<Longrightarrow> evolves X w w"
  by (simp add: evolves_def)

lemma evolves_wf: "evolves X w w' \<Longrightarrow> wf_world w'"
  by (simp add: evolves_def)

lemma evolves_trans: "evolves X u v \<Longrightarrow> evolves X v w \<Longrightarrow> evolves X u w"
  unfolding evolves_def fresh_view_def by (metis order_trans)

lemma evolves_mono: "evolves X w w' \<Longrightarrow> X \<subseteq> Y \<Longrightarrow> evolves Y w w'"
  unfolding evolves_def by blast

lemma wf_step [simp]: "wf_world (step w) = wf_world w"
  by (simp add: wf_world_def step_def node_def is_dir_def)

lemma view_step [simp]: "view (step w) = view w"
  by (simp add: view_def step_def node_def fun_eq_iff)

lemma node_step [simp]: "node (step w) = node w"
  by (simp add: step_def node_def fun_eq_iff)

lemma step_fields [simp]:
  "w_names (step w) = w_names w" "w_inodes (step w) = w_inodes w" "w_next (step w) = w_next w"
  "w_cwd (step w) = w_cwd w" "w_euid (step w) = w_euid w"
  by (simp_all add: step_def)

lemma resolve_step [simp]: "resolve (step w) = resolve w"
  by (simp add: resolve_def fun_eq_iff)

lemma evolves_step: "wf_world w \<Longrightarrow> evolves X w (step w)"
  by (simp add: evolves_def)

lemma evolves_step_left [simp]: "evolves X (step w) w' = evolves X w w'"
  by (simp add: evolves_def)

lemma keeps_return [keeps_intros]: "keeps (io_return x)"
  by (simp add: keeps_def io_return_def evolves_refl)

lemma keeps_fail [keeps_intros]: "keeps (io_fail e)"
  by (simp add: keeps_def io_fail_def evolves_refl)

lemma keeps_require [keeps_intros]: "keeps (io_require c)"
  by (simp add: io_require_def keeps_return keeps_fail)

lemma keeps_bind [keeps_intros]: "keeps m \<Longrightarrow> (\<And>x. keeps (f x)) \<Longrightarrow> keeps (io_bind m f)"
  unfolding keeps_def io_bind_def
  by (auto split: prod.splits sum.splits) (metis evolves_trans evolves_wf)

lemma keeps_try [keeps_intros]: "keeps m \<Longrightarrow> keeps (io_try m)"
  unfolding keeps_def io_try_def by (auto split: prod.splits)

lemma keeps_defer [keeps_intros]: "keeps m \<Longrightarrow> keeps d \<Longrightarrow> keeps (io_defer m d)"
  unfolding keeps_def io_defer_def
  by (auto split: prod.splits) (metis evolves_trans evolves_wf prod.collapse)

lemma keeps_if [keeps_intros]: "(c \<Longrightarrow> keeps m) \<Longrightarrow> (\<not> c \<Longrightarrow> keeps n) \<Longrightarrow> keeps (if c then m else n)"
  by simp

lemma keeps_sum [keeps_intros]:
  "(\<And>e. r = Inl e \<Longrightarrow> keeps (f e)) \<Longrightarrow> (\<And>x. r = Inr x \<Longrightarrow> keeps (g x)) \<Longrightarrow> keeps (case r of Inl e \<Rightarrow> f e | Inr x \<Rightarrow> g x)"
  by (cases r) auto

lemma keeps_option [keeps_intros]:
  "(r = None \<Longrightarrow> keeps f) \<Longrightarrow> (\<And>x. r = Some x \<Longrightarrow> keeps (g x)) \<Longrightarrow> keeps (case r of None \<Rightarrow> f | Some x \<Rightarrow> g x)"
  by (cases r) auto

lemma keeps_prod [keeps_intros]:
  "(\<And>x y. r = (x, y) \<Longrightarrow> keeps (f x y)) \<Longrightarrow> keeps (case r of (x, y) \<Rightarrow> f x y)"
  by (cases r) auto

lemma keeps_sys:
  "(\<And>w r w'. wf_world w \<Longrightarrow> f w = (r, w') \<Longrightarrow> evolves {} w w') \<Longrightarrow> keeps (sys f)"
  unfolding keeps_def sys_def using evolves_step by (auto split: if_splits) (metis evolves_step_left wf_step)

lemma keeps_on_path:
  assumes "\<And>q w r w'. wf_world w \<Longrightarrow> f q w = (r, w') \<Longrightarrow> evolves {} w w'"
  shows "keeps (on_path follow p f)"
  unfolding on_path_def by (rule keeps_sys) (use assms evolves_refl in \<open>auto split: sum.splits\<close>)

lemma create_node_evolves:
  assumes wf: "wf_world w" and "w_names w q = None" "parent_dir w q" "kind = NDir \<or> kind = NFile"
  shows "evolves {} w (create_node w q kind perm)"
proof -
  let ?w = "create_node w q kind perm"
  have same: "node ?w p = node w p" if "p \<noteq> q" for p
    using that wf_next [OF wf] by (auto simp: node_def create_node_def map_option_case split: option.splits)
  have kids: "is_dir ?w p" if "w_names ?w (p @ [c]) = Some i" for p c i
  proof (cases "p @ [c] = q")
    case True
    then have "p = butlast q" "p \<noteq> q" by auto
    with assms(3) same [of p] show ?thesis by (simp add: parent_dir_def is_dir_def)
  next
    case False
    then have "is_dir w p" using that wf_parent [OF wf] by (simp add: create_node_def)
    then have "p \<noteq> q" using assms(2) by (auto simp: node_def is_dir_def)
    with \<open>is_dir w p\<close> same show ?thesis by (simp add: is_dir_def)
  qed
  have root: "is_dir ?w []"
  proof -
    have "[] \<noteq> q" using assms(3) by (auto simp: parent_dir_def)
    with same [of "[]"] wf show ?thesis by (simp add: wf_world_def is_dir_def)
  qed
  have "wf_world ?w"
    unfolding wf_world_def
  proof (intro conjI allI impI)
    show "IsAbs (w_cwd ?w)" using wf by (simp add: wf_world_def create_node_def)
    show "i < w_next ?w" if "w_names ?w p = Some i" for p i
      using that wf_next [OF wf, of p] by (auto simp: create_node_def less_Suc_eq split: if_splits)
  qed (use root kids in auto)
  moreover have "view ?w p = view w p \<or> view w p = None \<and> fresh_view (view ?w p)" for p
  proof (cases "p = q")
    case True
    have "view w q = None" using assms(2) by (simp add: view_def node_def)
    moreover have "view ?w q = Some (kind, [])" by (simp add: view_def node_def create_node_def)
    ultimately show ?thesis using True assms(4) by (auto simp: fresh_view_def)
  next
    case False
    then show ?thesis using same by (simp add: view_def)
  qed
  ultimately show ?thesis
    by (simp add: evolves_def create_node_def)
qed

lemma keeps_Lstat [keeps_intros]: "keeps (Lstat p)"
  unfolding Lstat_def by (rule keeps_on_path) (auto simp: evolves_refl split: option.splits)

lemma keeps_Mkdir [keeps_intros]: "keeps (Mkdir p perm)"
  unfolding Mkdir_def
  by (rule keeps_on_path) (auto simp: evolves_refl create_node_evolves split: if_splits)

lemma keeps_OpenExclusive [keeps_intros]: "keeps (OpenExclusive p perm)"
  unfolding OpenExclusive_def
  by (rule keeps_on_path) (auto simp: evolves_refl create_node_evolves split: if_splits)

lemma keeps_OpenExisting [keeps_intros]: "keeps (OpenExisting writable p)"
  unfolding OpenExisting_def
  by (rule keeps_on_path) (auto simp: evolves_refl split: option.splits if_splits)

lemma keeps_Stat [keeps_intros]: "keeps (Stat i)"
  unfolding Stat_def by (rule keeps_sys) (auto simp: evolves_refl)

lemma same_view_evolves:
  assumes "wf_world w" "w_names w' = w_names w" "w_next w' = w_next w" "w_cwd w' = w_cwd w"
    and "\<And>i. i_kind (w_inodes w' i) = i_kind (w_inodes w i)" "\<And>q. q \<notin> X \<Longrightarrow> view w' q = view w q"
  shows "evolves X w w'"
proof -
  have "is_dir w' q = is_dir w q" for q
    using assms(2,5) by (simp add: is_dir_def node_def split: option.splits)
  with assms show ?thesis by (simp add: evolves_def wf_world_def)
qed

lemma keeps_Chmod [keeps_intros]: "keeps (Chmod i perm)"
  unfolding Chmod_def
  by (rule keeps_sys) (auto intro!: same_view_evolves simp: view_def node_def map_option_case split: option.splits)

lemma keeps_ReadUpTo [keeps_intros]: "keeps (ReadUpTo i n)"
  unfolding ReadUpTo_def by (rule keeps_sys) (auto simp: evolves_refl)

lemma keeps_Sync [keeps_intros]: "keeps (Sync i)"
  unfolding Sync_def by (rule keeps_sys) (auto simp: evolves_refl io_return_def)

lemma keeps_Close [keeps_intros]: "keeps (Close i)"
  unfolding Close_def by (rule keeps_sys) (auto simp: evolves_refl io_return_def)

lemma keeps_EvalSymlinks [keeps_intros]: "keeps (EvalSymlinks p)"
  unfolding EvalSymlinks_def by (rule keeps_on_path) (auto simp: evolves_refl split: if_splits)

lemma keeps_Getwd [keeps_intros]: "keeps Getwd"
  unfolding Getwd_def by (rule keeps_sys) (auto simp: evolves_refl)

lemma keeps_Abs [keeps_intros]: "keeps (Abs p)"
  unfolding Abs_def by (intro keeps_intros)

lemma keeps_ContextErr [keeps_intros]: "keeps ContextErr"
  by (auto simp: keeps_def ContextErr_def evolves_step)

lemma keeps_create_temp: "keeps (create_temp tries directory pfx)"
proof (induction tries)
  case 0
  show ?case
    using keeps_OpenExclusive unfolding keeps_def create_temp.simps [of 0] Let_def
    by (auto split: prod.splits sum.splits)
next
  case (Suc tries)
  then show ?case
    using keeps_OpenExclusive unfolding keeps_def create_temp.simps [of "Suc tries"] Let_def
    by (auto split: prod.splits sum.splits if_splits) (metis evolves_trans evolves_wf)+
qed

lemma keeps_CreateTemp [keeps_intros]: "keeps (CreateTemp directory pfx)"
  unfolding CreateTemp_def by (rule keeps_create_temp)


subsection \<open>Path lookup\<close>

lemma walk_names_ok:
  "walk ns follow k cur cs = Inr q \<Longrightarrow> list_all name_ok cur \<Longrightarrow>
    list_all (\<lambda>c. CHR ''/'' \<notin> set c) cs \<Longrightarrow> list_all name_ok q"
proof (induction ns follow k cur cs rule: walk.induct)
  case (2 ns follow k cur c cs)
  have up: "list_all name_ok (butlast cur)"
    using 2(6) by (auto simp: list_all_iff dest: in_set_butlastD)
  have down: "c \<noteq> [] \<Longrightarrow> c \<noteq> ''.'' \<Longrightarrow> c \<noteq> ''..'' \<Longrightarrow> list_all name_ok (cur @ [c])"
    using 2(6,7) by (auto simp: name_ok_def list_all_iff)
  have target: "list_all (\<lambda>c. CHR ''/'' \<notin> set c) (split_slash t @ cs)" for t
    using 2(7) split_slash_no_slash by (auto simp: list_all_iff)
  from 2(5) show ?case
    by (subst (asm) walk.simps)
      (use 2 up down target in \<open>auto split: if_splits option.splits node_kind.splits\<close>)
qed (simp add: walk.simps)

definition dirs_above :: "(bytes list \<Rightarrow> inode option) \<Rightarrow> bytes list \<Rightarrow> bool" where
  "dirs_above ns cur \<longleftrightarrow> (\<forall>p nd. prefix p cur \<longrightarrow> ns p = Some nd \<longrightarrow> i_kind nd = NDir)"

lemma dirs_above_butlast: "dirs_above ns cur \<Longrightarrow> dirs_above ns (butlast cur)"
  unfolding dirs_above_def using prefix_order.trans prefixeq_butlast by blast

lemma dirs_above_Nil: "dirs_above ns cur \<Longrightarrow> dirs_above ns []"
  unfolding dirs_above_def using Nil_prefix prefix_bot.extremum_uniqueI by blast

lemma dirs_above_snoc:
  "dirs_above ns cur \<Longrightarrow> ns (cur @ [c]) = Some nd \<Longrightarrow> i_kind nd = NDir \<Longrightarrow> dirs_above ns (cur @ [c])"
  by (auto simp: dirs_above_def prefix_snoc)

lemma walk_last:
  "walk ns f k cur cs = Inr q \<Longrightarrow> f \<Longrightarrow> dirs_above ns cur \<Longrightarrow> ns q = Some nd \<Longrightarrow> i_kind nd \<noteq> NLink t"
proof (induction ns f k cur cs rule: walk.induct)
  case (1 ns follow k cur)
  then have "q = cur" by (simp add: walk.simps)
  with 1(3,4) have "i_kind nd = NDir" unfolding dirs_above_def by blast
  then show ?case by simp
next
  case (2 ns follow k cur c cs)
  note above = dirs_above_butlast [OF 2(7)] dirs_above_Nil [OF 2(7)] dirs_above_snoc [OF 2(7)]
  show ?case
  proof (cases "c = [] \<or> c = ''.'' \<or> c = ''..''")
    case True
    with 2(1,2,5-8) above(1) show ?thesis by (subst (asm) walk.simps) (auto split: if_splits)
  next
    case False
    show ?thesis
    proof (cases "ns (cur @ [c])")
      case None
      with False 2(5,8) show ?thesis by (subst (asm) walk.simps) (auto split: if_splits)
    next
      case (Some n)
      with False 2(3-8) above(2,3) show ?thesis
        by (subst (asm) walk.simps) (auto split: if_splits node_kind.splits)
    qed
  qed
qed

lemma walk_prefix:
  assumes wf: "wf_world w"
  shows "is_dir w q \<Longrightarrow> list_all name_ok q \<Longrightarrow> walk (node w) f k [] (q @ cs) = walk (node w) f k q cs"
proof (induction q arbitrary: cs rule: rev_induct)
  case (snoc c q)
  then obtain nd where nd: "node w (q @ [c]) = Some nd" "i_kind nd = NDir"
    by (auto simp: is_dir_def split: option.splits)
  then obtain i where "w_names w (q @ [c]) = Some i" by (auto simp: node_def)
  then have "is_dir w q" using wf_parent [OF wf] by blast
  with snoc have "walk (node w) f k [] (q @ c # cs) = walk (node w) f k q (c # cs)" by simp
  also have "\<dots> = walk (node w) f k (q @ [c]) cs"
    using nd snoc.prems by (subst walk.simps) (simp add: name_ok_def)
  finally show ?case by simp
qed simp

lemma resolve_entry:
  assumes "wf_world w" "is_dir w q" "list_all name_ok q" "name_ok c"
    and "f \<Longrightarrow> \<forall>nd t. node w (q @ [c]) = Some nd \<longrightarrow> i_kind nd \<noteq> NLink t"
  shows "resolve w f (abs_path (q @ [c])) = Inr (q @ [c])"
proof -
  have "split_slash (abs_path (q @ [c])) = [] # q @ [c]"
    using assms by (subst split_abs_path) auto
  then have "resolve w f (abs_path (q @ [c])) = walk (node w) f max_links [] (q @ [c])"
    by (simp add: resolve_def walk.simps)
  also have "\<dots> = walk (node w) f max_links q [c]"
    using assms by (intro walk_prefix) auto
  also have "\<dots> = Inr (q @ [c])"
    using assms(4,5) by (auto simp: walk.simps name_ok_def split: option.splits node_kind.splits)
  finally show ?thesis .
qed

lemma resolve_below:
  assumes wf: "wf_world w" and ok: "list_all name_ok q" "name_ok c"
    and ex: "node w q = Some nd" "\<And>t. i_kind nd \<noteq> NLink t"
    and res: "resolve w f (abs_path (q @ [c])) = Inr p"
  shows "is_dir w q"
proof (cases q rule: rev_cases)
  case Nil
  then show ?thesis using wf by (simp add: wf_world_def)
next
  case (snoc r b)
  obtain i where "w_names w (r @ [b]) = Some i" using ex snoc by (auto simp: node_def)
  then have dir: "is_dir w r" using wf_parent [OF wf] by blast
  have "split_slash (abs_path (q @ [c])) = [] # q @ [c]"
    using ok by (subst split_abs_path) auto
  then have "walk (node w) f max_links r [b, c] = Inr p"
    using res walk_prefix [OF wf dir, of f max_links "[b, c]"] ok snoc
    by (simp add: resolve_def walk.simps)
  then show ?thesis
    using ex ok snoc by (subst (asm) walk.simps)
      (auto simp: name_ok_def is_dir_def split: if_splits node_kind.splits)
qed

lemma is_dir_view: "is_dir w q \<longleftrightarrow> (\<exists>d. view w q = Some (NDir, d))"
  by (auto simp: is_dir_def view_def split: option.splits)

lemma is_dir_stable: "evolves X w w' \<Longrightarrow> is_dir w q \<Longrightarrow> q \<notin> X \<Longrightarrow> is_dir w' q"
  unfolding evolves_def is_dir_view by (metis option.distinct(1))


subsection \<open>Calls that change files\<close>

text \<open>A regular file with a single name.\<close>

definition sole_file :: "world \<Rightarrow> bytes list \<Rightarrow> nat \<Rightarrow> bool" where
  "sole_file w q i \<longleftrightarrow> w_names w q = Some i \<and> i_kind (w_inodes w i) = NFile \<and>
    (\<forall>p. w_names w p = Some i \<longrightarrow> p = q)"

text \<open>Worlds that differ only in attributes of their inodes.\<close>

definition same_tree :: "world \<Rightarrow> world \<Rightarrow> bool" where
  "same_tree w w' \<longleftrightarrow> w_names w' = w_names w \<and> w_next w' = w_next w \<and> w_cwd w' = w_cwd w \<and>
    (\<forall>i. i_kind (w_inodes w' i) = i_kind (w_inodes w i) \<and> i_data (w_inodes w' i) = i_data (w_inodes w i))"

lemma same_tree_view:
  assumes "same_tree w w'"
  shows "view w' = view w" "is_dir w' = is_dir w" "wf_world w' = wf_world w" "sole_file w' q i = sole_file w q i"
proof -
  show v: "view w' = view w"
    using assms by (intro ext) (simp add: view_def node_def same_tree_def map_option_case split: option.splits)
  then show d: "is_dir w' = is_dir w" by (simp add: is_dir_view fun_eq_iff)
  show "wf_world w' = wf_world w" using assms d by (simp add: wf_world_def same_tree_def)
  show "sole_file w' q i = sole_file w q i" using assms by (simp add: sole_file_def same_tree_def)
qed

lemma same_tree_evolves: "same_tree w w' \<Longrightarrow> wf_world w \<Longrightarrow> evolves X w w'"
  using same_tree_view(1,3) [of w w'] by (simp add: evolves_def same_tree_def)

lemma same_tree_trans: "same_tree u v \<Longrightarrow> same_tree v w \<Longrightarrow> same_tree u w"
  by (simp add: same_tree_def)

lemma Chmod_same_tree: "Chmod i perm w = (r, w') \<Longrightarrow> same_tree w w'"
  by (auto simp: Chmod_def sys_def same_tree_def split: if_splits)

lemma OpenExclusive_Inr:
  assumes "OpenExclusive p perm w = (Inr i, w')" "wf_world w"
  obtains q where "resolve w False p = Inr q" "w_names w q = None" "sole_file w' q i"
    "i_data (w_inodes w' i) = []" "evolves {} w w'" "\<And>p. p \<noteq> q \<Longrightarrow> view w' p = view w p"
proof -
  obtain q where q: "resolve w False p = Inr q" "w_names w q = None" "parent_dir (step w) q"
    and w': "w' = create_node (step w) q NFile perm" "i = w_next w"
    using assms(1) by (auto simp: OpenExclusive_def on_path_def sys_def split: if_splits sum.splits)
  have "sole_file w' q i"
    using wf_next [OF assms(2)] w' by (auto simp: sole_file_def create_node_def)
  moreover have "i_data (w_inodes w' i) = []" using w' by (simp add: create_node_def)
  moreover have "view w' p = view w p" if "p \<noteq> q" for p
    using that wf_next [OF assms(2), of p] w'
    by (auto simp: view_def node_def create_node_def map_option_case split: option.splits)
  ultimately show thesis
    using that q keepsD [OF keeps_OpenExclusive assms] by blast
qed

lemma OpenExclusive_Inl: "OpenExclusive p perm w = (Inl e, w') \<Longrightarrow> w' = step w"
  by (auto simp: OpenExclusive_def on_path_def sys_def split: if_splits sum.splits)

lemma append_data_evolves:
  assumes "wf_world w" "sole_file w q i"
  shows "evolves {q} w (append_data i s w)" "sole_file (append_data i s w) q i"
    "i_data (w_inodes (append_data i s w) i) = i_data (w_inodes w i) @ s"
proof -
  show "evolves {q} w (append_data i s w)"
    using assms by (intro same_view_evolves)
      (auto simp: append_data_def view_def node_def sole_file_def map_option_case split: option.splits)
qed (use assms in \<open>auto simp: append_data_def sole_file_def\<close>)

lemma no_children: "wf_world w \<Longrightarrow> \<not> is_dir w q \<Longrightarrow> w_names w (q @ [c]) = None"
  using wf_parent by (cases "w_names w (q @ [c])") auto

lemma sole_not_dir: "sole_file w q i \<Longrightarrow> \<not> is_dir w q"
  by (simp add: sole_file_def is_dir_def node_def)

lemma relink_evolves:
  assumes wf: "wf_world w" and sole: "sole_file w q1 i" and q2: "parent_dir w q2" "\<not> is_dir w q2"
    and ne: "q1 \<noteq> q2"
  shows "evolves {q1, q2} w (relink q1 q2 i w)" "w_names (relink q1 q2 i w) q1 = None"
    "view (relink q1 q2 i w) q2 = Some (NFile, i_data (w_inodes w i))"
proof -
  let ?w = "relink q1 q2 i w"
  have kind: "i_kind (w_inodes ?w j) = i_kind (w_inodes w j)"
    and data: "i_data (w_inodes ?w j) = i_data (w_inodes w j)" for j
    by (simp_all add: relink_def split: option.splits)
  have names: "w_names ?w p = (if p = q1 then None else if p = q2 then Some i else w_names w p)" for p
    using ne by (simp add: relink_def)
  show "w_names ?w q1 = None" by (simp add: names)
  show "view ?w q2 = Some (NFile, i_data (w_inodes w i))"
    using ne sole by (simp add: view_def node_def names kind data sole_file_def)
  have same: "view ?w p = view w p" if "p \<notin> {q1, q2}" for p
    using that by (simp add: view_def node_def names kind data map_option_case split: option.splits)
  have dir: "is_dir ?w p" if "is_dir w p" for p
    using that same [of p] sole_not_dir [OF sole] q2(2) unfolding is_dir_view
    by (cases "p \<in> {q1, q2}") auto
  have "is_dir ?w p" if "w_names ?w (p @ [c]) = Some j" for p c j
  proof (cases "p @ [c] = q2")
    case True
    then show ?thesis using q2(1) dir by (auto simp: parent_dir_def)
  next
    case False
    with that have "w_names w (p @ [c]) = Some j" by (auto simp: names split: if_splits)
    then show ?thesis using wf_parent [OF wf] dir by blast
  qed
  moreover have "j < w_next ?w" if "w_names ?w p = Some j" for p j
  proof -
    have "w_names w p = Some j \<or> j = i" using that by (simp add: names split: if_splits)
    moreover have "w_names w q1 = Some i" using sole by (simp add: sole_file_def)
    ultimately have "j < w_next w" using wf_next [OF wf] by blast
    then show ?thesis by (simp add: relink_def)
  qed
  moreover have "IsAbs (w_cwd ?w)" using wf by (simp add: wf_world_def relink_def)
  moreover have "is_dir ?w []" using wf dir by (simp add: wf_world_def)
  ultimately have "wf_world ?w" by (simp only: wf_world_def) metis
  with same show "evolves {q1, q2} w ?w"
    by (simp add: evolves_def relink_def)
qed

lemma Remove_evolves:
  assumes "Remove p w = (r, w')" "wf_world w" "resolve w False p = Inr q"
  shows "evolves {q} w w'" "q' \<noteq> q \<Longrightarrow> view w' q' = view w q'"
proof -
  have "wf_world w' \<and> w_cwd w' = w_cwd w \<and> w_next w' = w_next w \<and> (\<forall>p. p \<noteq> q \<longrightarrow> view w' p = view w p)"
  proof (cases "w' = step w")
    case True
    with assms(2) show ?thesis by simp
  next
    case False
    then obtain i where i: "w_names w q = Some i" "i_kind (w_inodes w i) \<noteq> NDir"
      and w': "w' = (step w)\<lparr>w_names := (w_names w)(q := None), w_inodes := (w_inodes w)(i :=
        (w_inodes w i)\<lparr>i_nlink := i_nlink (w_inodes w i) - 1\<rparr>)\<rparr>"
      using assms(1,3)
      by (auto simp: Remove_def on_path_def sys_def split: if_splits option.splits)
    have same: "view w' p = view w p" if "p \<noteq> q" for p
      using that w' by (auto simp: view_def node_def map_option_case split: option.splits)
    have notdir: "\<not> is_dir w q" using i by (simp add: is_dir_def node_def)
    have "is_dir w' p" if "is_dir w p" for p
      using that same [of p] notdir unfolding is_dir_view by (cases "p = q") auto
    then have "wf_world w'"
      using assms(2) w' wf_parent [OF assms(2)] unfolding wf_world_def by auto
    with same w' show ?thesis by simp
  qed
  then show "evolves {q} w w'" "q' \<noteq> q \<Longrightarrow> view w' q' = view w q'"
    by (auto simp: evolves_def)
qed

end
