(* ===== verification/State_Store.thy ===== *)
theory State_Store
  imports Posix
begin

section \<open>The shared machinery of the monotonic state stores\<close>

text \<open>
  The packages \<^verbatim>\<open>truststate\<close>, \<^verbatim>\<open>trustchainstate\<close>, \<^verbatim>\<open>trustrotationstate\<close> and
  \<^verbatim>\<open>releasestate\<close> each carry a copy of the same file-system code: private directories
  created component by component, a lock file, a bounded read of one canonical record and an
  atomic replacement that is read back.  The definitions below are that code for the Unix
  build, with what differs between the packages (the permission pmask, the size limit and the
  codec) as parameters; the package theories instantiate them.
\<close>

subsection \<open>Names and paths\<close>

definition containsNUL :: "bytes \<Rightarrow> bool" where
  "containsNUL value \<longleftrightarrow> CHR 0x00 \<in> set value"

definition safeNativeInput :: "bytes \<Rightarrow> bool" where
  "safeNativeInput value \<longleftrightarrow> value \<noteq> [] \<and> \<not> containsNUL value"

definition safeNativePath :: "bytes \<Rightarrow> bool" where
  "safeNativePath value \<longleftrightarrow> safeNativeInput value"

definition samePath :: "bytes \<Rightarrow> bytes \<Rightarrow> bool" where
  "samePath left right \<longleftrightarrow> Clean left = Clean right"

definition validDigest :: "bytes \<Rightarrow> bool" where
  "validDigest value \<longleftrightarrow> length value = 71 \<and> has_prefix value ''sha256:'' \<and>
    list_all is_lower_hex (drop 7 value)"

definition maxGeneration :: nat where
  "maxGeneration = 9007199254740991"

definition lockTimeout :: int where
  "lockTimeout = 5000000000"

definition orUnavailable :: "'a io \<Rightarrow> 'a io" where
  "orUnavailable m w = (case m w of (Inl _, w') \<Rightarrow> (Inl ErrUnavailable, w') | (Inr x, w') \<Rightarrow> (Inr x, w'))"

text \<open>
  \<^verbatim>\<open>repositoryLocal\<close> climbs from the data root to the file-system root with
  \<^verbatim>\<open>filepath.Dir\<close>; here the climb is over the reversed list of components.
\<close>

fun any_marker :: "bytes \<Rightarrow> bytes list \<Rightarrow> bool io" where
  "any_marker current [] = io_return False"
| "any_marker current (marker # markers) =
    io_bind (io_try (Lstat (Join [current, marker]))) (\<lambda>r.
      case r of Inr _ \<Rightarrow> io_return True
      | Inl e \<Rightarrow> if e \<noteq> NotExist then io_return True else any_marker current markers)"

fun climb_markers :: "bytes list \<Rightarrow> bool io" where
  "climb_markers rcs =
    io_bind (any_marker (abs_path (rev rcs)) [''repo-passport.yml'', ''.git'']) (\<lambda>found.
      if found then io_return True
      else case rcs of [] \<Rightarrow> io_return False | _ # rs \<Rightarrow> climb_markers rs)"

declare climb_markers.simps [simp del]

definition repositoryLocal :: "bytes \<Rightarrow> bool io" where
  "repositoryLocal dataRoot = climb_markers (rev (path_comps dataRoot))"

subsection \<open>Private directories\<close>

definition createPrivateDirectory :: "bytes \<Rightarrow> bool io" where
  "createPrivateDirectory path = io_bind (io_try (Mkdir path 0x1C0)) (\<lambda>r.
     case r of Inr _ \<Rightarrow> io_return True | Inl e \<Rightarrow> if e = Exist then io_return False else io_fail e)"

definition validateDirectory :: "bytes \<Rightarrow> unit io" where
  "validateDirectory path = io_bind (orUnavailable (Lstat path)) (\<lambda>(_, info).
     io_require (i_kind info = NDir))"

definition validatePrivateStateDirectory :: "perm \<Rightarrow> bytes \<Rightarrow> unit io" where
  "validatePrivateStateDirectory pmask path = io_bind (orUnavailable (Lstat path)) (\<lambda>(_, info) w.
     io_require (i_kind info = NDir \<and> i_uid info = w_euid w \<and> i_perm info AND pmask = 0) w)"

fun ensure_components :: "perm \<Rightarrow> bytes \<Rightarrow> bytes \<Rightarrow> bytes list \<Rightarrow> bool \<Rightarrow> bool io" where
  "ensure_components pmask absolute current [] createdTarget = io_return createdTarget"
| "ensure_components pmask absolute current (component # components) createdTarget =
    (if component = [] \<or> component = ''.'' \<or> component = ''..'' then io_fail ErrUnavailable
     else let current = Join [current, component] in
       io_bind (createPrivateDirectory current) (\<lambda>created.
       io_bind (if created then validatePrivateStateDirectory pmask current else io_return ()) (\<lambda>_.
       io_bind (validateDirectory current) (\<lambda>_.
         ensure_components pmask absolute current components
           (createdTarget \<or> created \<and> samePath current absolute)))))"

definition ensurePrivateDirectory :: "perm \<Rightarrow> bytes \<Rightarrow> bool io" where
  "ensurePrivateDirectory pmask path = io_bind (Abs path) (\<lambda>absolute.
     case Rel ''/'' absolute of
       None \<Rightarrow> io_fail ErrUnavailable
     | Some relative \<Rightarrow>
         if IsAbs relative then io_fail ErrUnavailable
         else io_bind (validateDirectory ''/'') (\<lambda>_.
           if relative = ''.'' then io_return False
           else ensure_components pmask absolute ''/'' (split_slash relative) False))"

definition privateDirectory :: "perm \<Rightarrow> bytes \<Rightarrow> unit io" where
  "privateDirectory pmask path = orUnavailable (io_bind (ensurePrivateDirectory pmask path) (\<lambda>_.
     validatePrivateStateDirectory pmask path))"

definition dataRootPath :: "bytes \<Rightarrow> bytes io" where
  "dataRootPath dataRoot = orUnavailable
    (if \<not> safeNativeInput dataRoot then io_fail ErrUnavailable
     else io_bind (Abs dataRoot) (\<lambda>absolute.
       if \<not> safeNativePath absolute then io_fail ErrUnavailable
       else io_bind (repositoryLocal absolute) (\<lambda>local.
         if local then io_fail ErrUnavailable else io_return absolute)))"

definition confirmRoot :: "bytes \<Rightarrow> bytes io" where
  "confirmRoot root = io_bind (orUnavailable (EvalSymlinks root)) (\<lambda>resolved.
     io_bind (io_require (samePath root resolved)) (\<lambda>_. io_return resolved))"

subsection \<open>Files\<close>

definition closeOnError :: "nat \<Rightarrow> 'a io \<Rightarrow> 'a io" where
  "closeOnError h m w = (case m w of (Inl e, w') \<Rightarrow> (Inl e, snd (Close h w')) | (Inr x, w') \<Rightarrow> (Inr x, w'))"

definition validateOpenedRegularFile :: "nat \<Rightarrow> bytes \<Rightarrow> bool \<Rightarrow> unit io" where
  "validateOpenedRegularFile h expectedPath singleLink = orUnavailable
    (io_bind (Stat h) (\<lambda>(ino, info).
     io_bind (io_require (i_kind info = NFile \<and> i_perm info AND 0x3F = 0)) (\<lambda>_.
     io_bind (Lstat expectedPath) (\<lambda>(pathIno, pathInfo).
     io_bind (io_require (i_kind pathInfo = NFile \<and> ino = pathIno)) (\<lambda>_.
     io_bind (\<lambda>w. io_require (singleLink \<longrightarrow> i_nlink info = 1 \<and> i_uid info = w_euid w) w) (\<lambda>_.
     io_bind (EvalSymlinks expectedPath) (\<lambda>actual.
       io_require (samePath expectedPath actual))))))))"

definition createPrivateLock :: "bytes \<Rightarrow> nat option io" where
  "createPrivateLock path = io_bind (io_try (OpenExclusive path 0x180)) (\<lambda>r.
     case r of Inr h \<Rightarrow> io_return (Some h) | Inl e \<Rightarrow> if e = Exist then io_return None else io_fail e)"

definition openExistingPrivateLock :: "bytes \<Rightarrow> nat io" where
  "openExistingPrivateLock path = OpenExisting True path"

definition openLock :: "bytes \<Rightarrow> nat io" where
  "openLock path = io_bind (createPrivateLock path) (\<lambda>created.
     io_bind (case created of Some h \<Rightarrow> io_return h | None \<Rightarrow> openExistingPrivateLock path) (\<lambda>h.
     io_bind (closeOnError h (validateOpenedRegularFile h path True)) (\<lambda>_. io_return h)))"

definition waitForLock :: "int \<Rightarrow> unit io" where
  "waitForLock deadline = io_bind ContextErr (\<lambda>_ w.
     let remaining = deadline - w_now w in
     if remaining \<le> 0 then (Inl ErrUnavailable, w)
     else let delay = min 20000000 remaining in
       io_bind ContextErr (\<lambda>_ w. (Inr (), w\<lparr>w_now := w_now w + delay\<rparr>)) w)"

lemma waitForLock_progress:
  assumes "waitForLock deadline w = (Inr u, w')"
  shows "w_now w < deadline" "w_now w < w_now w'"
  using assms
  by (auto simp: waitForLock_def io_bind_def ContextErr_def step_def Let_def split: if_splits)

lemma waitForLock_measure:
  assumes "(Inr u, w') = waitForLock deadline (step w)"
  shows "w_now w < deadline \<and> w_now w < w_now w'"
  using waitForLock_progress [OF assms [symmetric]] by (simp add: step_def)

function lock_loop :: "int \<Rightarrow> unit io" where
  "lock_loop deadline w =
    (case w_flock w (w_tick w) of
       Locked \<Rightarrow> (Inr (), step w)
     | FlockFailed \<Rightarrow> (Inl ErrUnavailable, step w)
     | WouldBlock \<Rightarrow>
         (case waitForLock deadline (step w) of
            (Inl e, w') \<Rightarrow> (Inl e, w')
          | (Inr _, w') \<Rightarrow> lock_loop deadline w'))"
  by pat_completeness auto
termination
  by (relation "measure (\<lambda>(deadline, w). nat (deadline - w_now w))")
    (simp_all add: waitForLock_measure)

declare lock_loop.simps [simp del]

definition acquireLock :: "nat \<Rightarrow> int \<Rightarrow> unit io" where
  "acquireLock h timeout = io_bind ContextErr (\<lambda>_ w. lock_loop (w_now w + timeout) w)"

definition readBounded :: "nat \<Rightarrow> nat \<Rightarrow> bytes io" where
  "readBounded h maximum = io_bind (orUnavailable (ReadUpTo h (maximum + 1))) (\<lambda>raw.
     io_bind (io_require (length raw \<le> maximum)) (\<lambda>_. io_return raw))"

definition readOpened :: "nat \<Rightarrow> (bytes \<Rightarrow> 'r option) \<Rightarrow> nat \<Rightarrow> bytes \<Rightarrow> 'r option io" where
  "readOpened maxStateBytes decode h path =
     io_bind (validateOpenedRegularFile h path True) (\<lambda>_.
     io_bind (readBounded h maxStateBytes) (\<lambda>raw.
       case decode raw of None \<Rightarrow> io_fail ErrUnavailable | Some v \<Rightarrow> io_return (Some v)))"

definition readRecord :: "nat \<Rightarrow> (bytes \<Rightarrow> 'r option) \<Rightarrow> bytes \<Rightarrow> 'r option io" where
  "readRecord maxStateBytes decode path = io_bind (io_try (Lstat path)) (\<lambda>r.
     case r of
       Inl e \<Rightarrow> if e = NotExist then io_return None else io_fail ErrUnavailable
     | Inr (_, info) \<Rightarrow>
         io_bind (io_require (i_kind info = NFile)) (\<lambda>_.
         io_bind (OpenExisting False path) (\<lambda>h.
           io_defer (readOpened maxStateBytes decode h path) (Close h))))"

definition atomicReplace :: "bytes \<Rightarrow> bytes \<Rightarrow> unit io" where
  "atomicReplace source destination = Rename source destination"

definition syncDirectory :: "bytes \<Rightarrow> unit io" where
  "syncDirectory path = io_bind (OpenExisting False path) (\<lambda>h. io_defer (Sync h) (Close h))"

definition createPrivateTemporaryFile :: "bytes \<Rightarrow> bytes \<Rightarrow> (nat \<times> bytes) io" where
  "createPrivateTemporaryFile directory pfx = io_bind (CreateTemp directory pfx) (\<lambda>(h, path) w.
     case Chmod h 0x180 w of
       (Inl e, w') \<Rightarrow> (Inl e, snd (Remove path (snd (Close h w'))))
     | (Inr _, w') \<Rightarrow> (Inr (h, path), w'))"

text \<open>The part of \<^verbatim>\<open>writeAndVerifyRecord\<close> after the temporary file is private.\<close>

definition publish ::
  "nat \<Rightarrow> (bytes \<Rightarrow> 'r option) \<Rightarrow> bytes \<Rightarrow> bytes \<Rightarrow> nat \<Rightarrow> bytes \<Rightarrow> 'r \<Rightarrow> bytes \<Rightarrow> unit io" where
  "publish maxStateBytes decode directory target h temporaryPath value raw =
     io_bind (closeOnError h (Write h raw)) (\<lambda>_.
     io_bind (closeOnError h (Sync h)) (\<lambda>_.
     io_bind (Close h) (\<lambda>_.
     io_bind (atomicReplace temporaryPath target) (\<lambda>_.
     io_bind (syncDirectory directory) (\<lambda>_.
     io_bind (readRecord maxStateBytes decode target) (\<lambda>actual.
       io_require (case actual of None \<Rightarrow> False | Some v \<Rightarrow> v = value)))))))"

text \<open>
  The frame of every \<^verbatim>\<open>Observe\<close>: find the state directory, open and take the lock, and
  run the comparison while it is held; then the comparison with the stored record, which either
  returns early or writes the next record.
\<close>

definition releaseLock :: "unit io" where
  "releaseLock = sys (io_return ())"

definition underLock :: "bytes io \<Rightarrow> bytes \<Rightarrow> (bytes \<Rightarrow> bytes \<Rightarrow> 'a io) \<Rightarrow> 'a io" where
  "underLock stateRoot name body = io_bind stateRoot (\<lambda>root.
     io_bind (openLock (Join [root, name @ ''.lock''])) (\<lambda>lock.
       io_defer (io_bind (acquireLock lock lockTimeout) (\<lambda>_.
         io_defer (body root (Join [root, name @ ''.json''])) releaseLock)) (Close lock)))"

definition compareAndStore ::
  "'r option io \<Rightarrow> ('r option \<Rightarrow> 'res option) \<Rightarrow> unit io \<Rightarrow> ('r option \<Rightarrow> 'res) \<Rightarrow> ('r option \<Rightarrow> 'res) \<Rightarrow> 'res io"
where
  "compareAndStore read early write success failure = io_bind read (\<lambda>stored.
     case early stored of
       Some res \<Rightarrow> io_return res
     | None \<Rightarrow> io_bind (io_try write) (\<lambda>r.
         io_return (case r of Inr _ \<Rightarrow> success stored | Inl _ \<Rightarrow> failure stored)))"

definition returning :: "'res \<Rightarrow> 'res io \<Rightarrow> world \<Rightarrow> 'res \<times> world" where
  "returning unavailable m w = (case m w of (Inl _, w') \<Rightarrow> (unavailable, w') | (Inr x, w') \<Rightarrow> (x, w'))"

subsection \<open>Calls that keep every file\<close>

lemma keeps_orUnavailable [keeps_intros]: "keeps m \<Longrightarrow> keeps (orUnavailable m)"
  unfolding keeps_def orUnavailable_def by (auto split: prod.splits sum.splits)

lemma keeps_closeOnError [keeps_intros]:
  assumes "keeps m"
  shows "keeps (closeOnError h m)"
  unfolding keeps_def
proof (intro allI impI)
  fix w r w'
  assume w: "wf_world w" "closeOnError h m w = (r, w')"
  obtain r1 w1 where m: "m w = (r1, w1)" by force
  note e1 = keepsD [OF assms m w(1)]
  show "evolves {} w w'"
  proof (cases r1)
    case (Inl e)
    then have "w' = snd (Close h w1)" using w(2) m by (simp add: closeOnError_def)
    then have "evolves {} w1 w'"
      using keepsD [OF keeps_Close _ evolves_wf [OF e1], of h] by (metis prod.collapse)
    with e1 show ?thesis by (rule evolves_trans)
  next
    case (Inr x)
    with e1 w(2) m show ?thesis by (simp add: closeOnError_def)
  qed
qed

lemma keeps_world: "(\<And>u. keeps (f u)) \<Longrightarrow> keeps (\<lambda>w. f (g w) w)"
  by (simp add: keeps_def)

lemma keeps_any_marker [keeps_intros]: "keeps (any_marker current markers)"
  by (induction markers) (auto intro!: keeps_intros)

lemma keeps_climb_markers [keeps_intros]: "keeps (climb_markers rcs)"
  by (induction rcs) (subst climb_markers.simps, auto intro!: keeps_intros)+

lemma keeps_repositoryLocal [keeps_intros]: "keeps (repositoryLocal p)"
  unfolding repositoryLocal_def by (rule keeps_climb_markers)

lemma keeps_createPrivateDirectory [keeps_intros]: "keeps (createPrivateDirectory p)"
  unfolding createPrivateDirectory_def by (intro keeps_intros)

lemma keeps_validateDirectory [keeps_intros]: "keeps (validateDirectory p)"
  unfolding validateDirectory_def by (intro keeps_intros)

lemma keeps_validatePrivate [keeps_intros]: "keeps (validatePrivateStateDirectory pmask p)"
  unfolding validatePrivateStateDirectory_def
  by (intro keeps_bind keeps_orUnavailable keeps_Lstat keeps_prod)
    (rule keeps_world [where f = io_require, OF keeps_require])

lemma keeps_ensure_components [keeps_intros]:
  "keeps (ensure_components pmask absolute current cs created)"
  by (induction cs arbitrary: current created) (auto simp: Let_def intro!: keeps_intros)

lemma keeps_ensurePrivateDirectory [keeps_intros]: "keeps (ensurePrivateDirectory pmask p)"
  unfolding ensurePrivateDirectory_def by (intro keeps_intros)

lemma keeps_privateDirectory [keeps_intros]: "keeps (privateDirectory pmask p)"
  unfolding privateDirectory_def by (intro keeps_intros)

lemma keeps_dataRootPath [keeps_intros]: "keeps (dataRootPath d)"
  unfolding dataRootPath_def by (intro keeps_intros)

lemma keeps_confirmRoot [keeps_intros]: "keeps (confirmRoot root)"
  unfolding confirmRoot_def by (intro keeps_intros)

lemma keeps_validateOpened [keeps_intros]: "keeps (validateOpenedRegularFile h p single)"
  unfolding validateOpenedRegularFile_def
  by (intro keeps_orUnavailable keeps_bind keeps_Lstat keeps_Stat keeps_prod
      keeps_require keeps_EvalSymlinks) (rule keeps_world [where f = io_require, OF keeps_require])

lemma keeps_openLock [keeps_intros]: "keeps (openLock p)"
  unfolding openLock_def createPrivateLock_def openExistingPrivateLock_def by (intro keeps_intros)

lemma evolves_now [simp]: "evolves {} v (w\<lparr>w_now := n\<rparr>) = evolves {} v w"
  by (simp add: evolves_def wf_world_def view_def node_def is_dir_def)

lemma keeps_waitForLock: "keeps (waitForLock deadline)"
  unfolding waitForLock_def Let_def keeps_def io_bind_def ContextErr_def
  by (auto simp: evolves_step evolves_trans [OF evolves_step evolves_step]
      split: if_splits prod.splits sum.splits)

lemma keeps_lock_loop [keeps_intros]: "keeps (lock_loop deadline)"
  unfolding keeps_def
proof (intro allI impI)
  fix w r w'
  assume "wf_world w" "lock_loop deadline w = (r, w')"
  then show "evolves {} w w'"
  proof (induction deadline w arbitrary: r w' rule: lock_loop.induct)
    case (1 deadline w)
    show ?case
    proof (cases "w_flock w (w_tick w)")
      case WouldBlock
      obtain r1 w1 where w1: "waitForLock deadline (step w) = (r1, w1)" by force
      have e: "evolves {} w w1" using keepsD [OF keeps_waitForLock w1] 1(2) by simp
      show ?thesis
      proof (cases r1)
        case (Inl e1)
        then show ?thesis using 1(3) WouldBlock w1 e by (simp add: lock_loop.simps [of _ w])
      next
        case (Inr u)
        then have "lock_loop deadline w1 = (r, w')"
          using 1(3) WouldBlock w1 by (simp add: lock_loop.simps [of _ w])
        then have "evolves {} w1 w'"
          using 1(1) WouldBlock w1 Inr evolves_wf [OF e] by metis
        with e show ?thesis by (rule evolves_trans)
      qed
    qed (use 1 evolves_step in \<open>auto simp: lock_loop.simps [of _ w]\<close>)
  qed
qed

lemma keeps_acquireLock [keeps_intros]: "keeps (acquireLock h timeout)"
  unfolding acquireLock_def
  by (intro keeps_bind keeps_ContextErr) (rule keeps_world [where f = lock_loop, OF keeps_lock_loop])


subsection \<open>Calls that only read\<close>

definition same_files :: "world \<Rightarrow> world \<Rightarrow> bool" where
  "same_files w w' \<longleftrightarrow> w_names w' = w_names w \<and> w_inodes w' = w_inodes w \<and> w_next w' = w_next w \<and>
    w_cwd w' = w_cwd w \<and> w_euid w' = w_euid w"

definition reads :: "'a io \<Rightarrow> bool" where
  "reads m \<longleftrightarrow> (\<forall>w r w'. m w = (r, w') \<longrightarrow> same_files w w')"

named_theorems reads_intros \<open>calls that only read\<close>

lemma readsD: "reads m \<Longrightarrow> m w = (r, w') \<Longrightarrow> same_files w w'"
  by (auto simp: reads_def)

lemma same_files_trans: "same_files u v \<Longrightarrow> same_files v w \<Longrightarrow> same_files u w"
  by (simp add: same_files_def)

lemma same_files_view:
  assumes "same_files w w'"
  shows "node w' = node w" "view w' = view w" "is_dir w' = is_dir w" "wf_world w' = wf_world w"
proof -
  show node: "node w' = node w"
    using assms by (intro ext) (simp add: node_def same_files_def)
  then show "view w' = view w" and dir: "is_dir w' = is_dir w"
    by (simp_all add: view_def is_dir_def fun_eq_iff)
  show "wf_world w' = wf_world w"
    using assms dir by (simp add: wf_world_def same_files_def)
qed

lemma same_files_step [simp]: "same_files w (step w)"
  by (simp add: same_files_def)

lemma reads_return [reads_intros]: "reads (io_return x)"
  by (simp add: reads_def io_return_def same_files_def)

lemma reads_fail [reads_intros]: "reads (io_fail e)"
  by (simp add: reads_def io_fail_def same_files_def)

lemma reads_require [reads_intros]: "reads (io_require c)"
  by (simp add: io_require_def reads_def io_return_def io_fail_def same_files_def)

lemma reads_require_world: "reads (\<lambda>w. io_require (g w) w)"
  using reads_require by (simp add: reads_def)

lemma reads_bind [reads_intros]: "reads m \<Longrightarrow> (\<And>x. reads (f x)) \<Longrightarrow> reads (io_bind m f)"
  unfolding reads_def io_bind_def
  by (auto split: prod.splits sum.splits) (metis same_files_trans)

lemma reads_try [reads_intros]: "reads m \<Longrightarrow> reads (io_try m)"
  unfolding reads_def io_try_def by (auto split: prod.splits)

lemma reads_orUnavailable [reads_intros]: "reads m \<Longrightarrow> reads (orUnavailable m)"
  unfolding reads_def orUnavailable_def by (auto split: prod.splits sum.splits)

lemma reads_defer [reads_intros]: "reads m \<Longrightarrow> reads d \<Longrightarrow> reads (io_defer m d)"
  unfolding reads_def io_defer_def
  by (auto split: prod.splits) (metis same_files_trans prod.collapse)

lemma reads_cases [reads_intros]:
  "(\<And>e. reads (f e)) \<Longrightarrow> (\<And>x. reads (g x)) \<Longrightarrow> reads (case r of Inl e \<Rightarrow> f e | Inr x \<Rightarrow> g x)"
  "reads m \<Longrightarrow> (\<And>x. reads (k x)) \<Longrightarrow> reads (case opt of None \<Rightarrow> m | Some x \<Rightarrow> k x)"
  "(\<And>x y. reads (h x y)) \<Longrightarrow> reads (case p of (x, y) \<Rightarrow> h x y)"
  "reads m \<Longrightarrow> reads n \<Longrightarrow> reads (if c then m else n)"
  by (auto split: sum.splits option.splits prod.splits)

lemma reads_calls [reads_intros]:
  "reads (Lstat p)" "reads (OpenExisting writable p)" "reads (Stat i)" "reads (ReadUpTo i n)"
  "reads (Sync i)" "reads (Close i)" "reads (EvalSymlinks p)"
  by (auto simp: reads_def Lstat_def OpenExisting_def Stat_def ReadUpTo_def Sync_def Close_def
      EvalSymlinks_def on_path_def sys_def io_return_def split: if_splits sum.splits option.splits)

lemma reads_readBounded [reads_intros]: "reads (readBounded h n)"
  unfolding readBounded_def by (intro reads_intros)

lemma reads_validateOpened [reads_intros]: "reads (validateOpenedRegularFile h p single)"
  unfolding validateOpenedRegularFile_def
  by (intro reads_orUnavailable reads_bind reads_cases(3) reads_calls reads_require)
    (rule reads_require_world)

lemma reads_readOpened [reads_intros]: "reads (readOpened n dec h p)"
  unfolding readOpened_def by (intro reads_intros)

lemma reads_readRecord [reads_intros]: "reads (readRecord n dec p)"
  unfolding readRecord_def by (intro reads_intros)

lemma reads_syncDirectory [reads_intros]: "reads (syncDirectory p)"
  unfolding syncDirectory_def by (intro reads_intros)

lemma reads_keeps: "reads m \<Longrightarrow> keeps m"
  unfolding keeps_def
proof (intro allI impI)
  fix w r w'
  assume "reads m" "wf_world w" "m w = (r, w')"
  moreover from this have "same_files w w'" by (blast dest: readsD)
  ultimately show "evolves {} w w'"
    using same_files_view [of w w'] by (simp add: evolves_def same_files_def)
qed

lemma keeps_readRecord [keeps_intros]: "keeps (readRecord n dec p)"
  by (rule reads_keeps [OF reads_readRecord])

lemma io_bind_InrE:
  assumes "io_bind m f w = (Inr y, w')"
  obtains x w1 where "m w = (Inr x, w1)" "f x w1 = (Inr y, w')"
  using assms by (auto simp: io_bind_def split: prod.splits sum.splits)

lemma io_require_Inr: "io_require c w = (Inr u, w') \<longleftrightarrow> c \<and> w' = w"
  by (auto simp: io_require_def io_return_def io_fail_def)

lemma orUnavailable_Inr: "orUnavailable m w = (Inr x, w') \<longleftrightarrow> m w = (Inr x, w')"
  by (auto simp: orUnavailable_def split: prod.splits sum.splits)

lemma Lstat_result:
  assumes "Lstat p w = (r, w')"
  shows "r = Inl NotExist \<Longrightarrow> (\<exists>q. resolve w False p = Inr q \<and> w_names w q = None) \<or> resolve w False p = Inl NotExist"
    and "r = Inr (i, info) \<Longrightarrow> \<exists>q. resolve w False p = Inr q \<and> w_names w q = Some i \<and> info = w_inodes w i"
  using assms
  by (auto simp: Lstat_def on_path_def sys_def split: if_splits sum.splits option.splits)


lemma readOpened_result:
  assumes "readOpened limit dec h p w = (Inr res, w')"
  shows "\<exists>v. dec (i_data (w_inodes w h)) = Some v \<and> res = Some v"
proof -
  obtain u w1 raw w2 where v: "validateOpenedRegularFile h p True w = (Inr u, w1)"
    and raw: "readBounded h limit w1 = (Inr raw, w2)"
    and "(case dec raw of None \<Rightarrow> io_fail ErrUnavailable | Some v \<Rightarrow> io_return (Some v)) w2 = (Inr res, w')"
    using assms unfolding readOpened_def by (elim io_bind_InrE) blast
  then have dec: "\<exists>v. dec raw = Some v \<and> res = Some v"
    by (cases "dec raw") (simp add: io_fail_def, simp add: io_return_def, metis)
  have s: "same_files w w1" using v readsD reads_validateOpened by blast
  obtain w3 where "ReadUpTo h (limit + 1) w1 = (Inr raw, w3)" "length raw \<le> limit"
    using raw by (auto simp: readBounded_def orUnavailable_Inr io_require_Inr io_return_def elim!: io_bind_InrE)
  then have "raw = i_data (w_inodes w h)"
    using s by (auto simp: ReadUpTo_def sys_def same_files_def split: if_splits)
  with dec show ?thesis by blast
qed

lemma OpenExisting_Inr:
  "OpenExisting writable p w = (Inr h, w') \<Longrightarrow> \<exists>q. resolve w True p = Inr q \<and> w_names w q = Some h"
  by (auto simp: OpenExisting_def on_path_def sys_def split: if_splits sum.splits option.splits)

text \<open>What a successful \<open>readRecord\<close> returns is what the file holds.\<close>

lemma readRecord_result:
  assumes wf: "wf_world w" and dir: "is_dir w d" and ok: "list_all name_ok d" "name_ok n"
    and run: "readRecord limit dec (abs_path (d @ [n])) w = (Inr res, w')"
  shows "case res of
      None \<Rightarrow> view w (d @ [n]) = None
    | Some v \<Rightarrow> \<exists>raw. view w (d @ [n]) = Some (NFile, raw) \<and> dec raw = Some v"
proof -
  let ?q = "d @ [n]" and ?p = "abs_path (d @ [n])"
  obtain r1 w1 where l: "Lstat ?p w = (r1, w1)" by force
  have res: "resolve w False ?p = Inr ?q" using resolve_entry [OF wf dir ok] by simp
  have s1: "same_files w w1" using l readsD reads_calls(1) by blast
  show ?thesis
  proof (cases r1)
    case (Inl e)
    then have "e = NotExist" "res = None"
      using run l by (auto simp: readRecord_def io_bind_def io_try_def io_return_def io_fail_def split: if_splits)
    with Lstat_result(1) [OF l] Inl res show ?thesis by (simp add: view_def node_def)
  next
    case (Inr ii)
    then obtain i info where ii: "r1 = Inr (i, info)" by (cases ii) auto
    then have i: "w_names w ?q = Some i" "info = w_inodes w i" using Lstat_result(2) [OF l] res by auto
    have "io_bind (io_require (i_kind info = NFile)) (\<lambda>_. io_bind (OpenExisting False ?p) (\<lambda>h.
        io_defer (readOpened limit dec h ?p) (Close h))) w1 = (Inr res, w')"
      using run l ii by (simp add: readRecord_def io_bind_def io_try_def)
    then obtain h w2 w3 where kind: "i_kind info = NFile" and h: "OpenExisting False ?p w1 = (Inr h, w2)"
      and body: "readOpened limit dec h ?p w2 = (Inr res, w3)"
      by (auto simp: io_require_Inr io_defer_def split: prod.splits elim!: io_bind_InrE)
    have n1: "node w1 = node w" "wf_world w1" "is_dir w1 d" "w_names w1 = w_names w"
      using same_files_view [OF s1] wf dir s1 by (simp_all add: same_files_def)
    have "resolve w1 True ?p = Inr ?q"
      using i kind n1 by (intro resolve_entry ok) (auto simp: node_def)
    then have "h = i" using OpenExisting_Inr [OF h] i n1(4) by auto
    moreover have "same_files w w2"
      using s1 h readsD reads_calls(2) same_files_trans by blast
    ultimately have "\<exists>v. dec (i_data (w_inodes w i)) = Some v \<and> res = Some v"
      using readOpened_result [OF body] by (simp add: same_files_def)
    then show ?thesis using i kind by (auto simp: view_def node_def)
  qed
qed


subsection \<open>The confirmed root\<close>

lemma EvalSymlinks_Inr:
  "EvalSymlinks p w = (Inr s, w') \<Longrightarrow> \<exists>q. resolve w True p = Inr q \<and> w_names w q \<noteq> None \<and> s = abs_path q"
  by (auto simp: EvalSymlinks_def on_path_def sys_def split: if_splits sum.splits option.splits)

lemma confirmRoot_Inr:
  assumes wf: "wf_world w" and ok: "list_all name_ok q" and run: "confirmRoot (abs_path q) w = (Inr s, w')"
  shows "s = abs_path q" "\<exists>nd. node w q = Some nd \<and> (\<forall>t. i_kind nd \<noteq> NLink t)"
proof -
  obtain w1 where e: "EvalSymlinks (abs_path q) w = (Inr s, w1)" and same: "samePath (abs_path q) s"
    using run by (auto simp: confirmRoot_def orUnavailable_Inr io_require_Inr io_return_def elim!: io_bind_InrE)
  obtain p where p: "resolve w True (abs_path q) = Inr p" "w_names w p \<noteq> None" "s = abs_path p"
    using EvalSymlinks_Inr [OF e] by blast
  then have run_walk: "walk (node w) True max_links [] (split_slash (abs_path q)) = Inr p"
    by (simp add: resolve_def)
  have "list_all name_ok p"
    by (rule walk_names_ok [OF run_walk]) (auto simp: list_all_iff dest: split_slash_no_slash)
  then have "p = q" using same ok p(3) abs_path_inj by (simp add: samePath_def)
  then show "s = abs_path q" using p by simp
  obtain nd where nd: "node w q = Some nd" using p(2) \<open>p = q\<close> by (auto simp: node_def)
  have "dirs_above (node w) []"
    using wf by (auto simp: wf_world_def is_dir_def dirs_above_def split: option.splits)
  then show "\<exists>nd. node w q = Some nd \<and> (\<forall>t. i_kind nd \<noteq> NLink t)"
    using walk_last [OF run_walk] nd \<open>p = q\<close> by blast
qed

subsection \<open>Publishing a record\<close>

lemma reads_closeOnError: "reads m \<Longrightarrow> reads (closeOnError h m)"
  unfolding reads_def closeOnError_def
  by (auto split: prod.splits sum.splits) (metis readsD reads_calls(6) same_files_trans prod.collapse)

lemma same_files_evolves: "same_files w w' \<Longrightarrow> wf_world w \<Longrightarrow> evolves X w w'"
  using same_files_view [of w w'] by (simp add: evolves_def same_files_def)

lemma sole_same_files: "same_files w w' \<Longrightarrow> sole_file w' q i = sole_file w q i"
  by (simp add: sole_file_def same_files_def)

lemma Close_same_files: "same_files w (snd (Close h w))"
  using readsD [OF reads_calls(6), of h w] by (metis prod.collapse)

lemma write_temporary:
  assumes wf: "wf_world w" and sole: "sole_file w t h" "i_data (w_inodes w h) = []"
    and run: "closeOnError h (Write h raw) w = (r, w')"
  shows "evolves {t} w w'" "sole_file w' t h" "r = Inr u \<Longrightarrow> i_data (w_inodes w' h) = raw"
    "q \<noteq> t \<Longrightarrow> view w' q = view w q"
proof -
  obtain s where w': "same_files (append_data h s (step w)) w'" and s: "r = Inr u \<longrightarrow> s = raw"
  proof (cases "w_fault w (w_tick w)")
    case True
    let ?s = "take (w_short w (w_tick w)) raw"
    have "r = Inl OtherError" "w' = snd (Close h (append_data h ?s (step w)))"
      using run True by (simp_all add: closeOnError_def Write_def)
    with that [of ?s] Close_same_files show thesis by simp
  next
    case False
    then have "w' = append_data h raw (step w)" using run by (simp add: closeOnError_def Write_def)
    with that [of raw] show thesis by (simp add: same_files_def)
  qed
  have sole': "sole_file (step w) t h" using sole by (simp add: sole_file_def)
  have wf': "wf_world (step w)" using wf by simp
  note a = append_data_evolves [OF wf' sole', of s]
  have b: "evolves {t} (append_data h s (step w)) w'"
    using same_files_evolves [OF w' evolves_wf [OF a(1)]] .
  show "evolves {t} w w'" using evolves_trans [OF a(1) b] by simp
  show "sole_file w' t h" using a(2) sole_same_files [OF w'] by simp
  show "r = Inr u \<Longrightarrow> i_data (w_inodes w' h) = raw"
    using a(3) s w' sole(2) by (simp add: same_files_def)
  show "q \<noteq> t \<Longrightarrow> view w' q = view w q"
    using same_files_view(2) [OF w'] sole'
    by (auto simp: append_data_def view_def node_def sole_file_def map_option_case split: option.splits)
qed

lemma rename_temporary:
  assumes wf: "wf_world w" and dir: "is_dir w d" and ok: "list_all name_ok d" "name_ok t" "name_ok n"
    and ne: "t \<noteq> n" and sole: "sole_file w (d @ [t]) h"
    and run: "atomicReplace (abs_path (d @ [t])) (abs_path (d @ [n])) w = (r, w')"
  shows "evolves {d @ [t], d @ [n]} w w'"
    "r = Inr u \<Longrightarrow> view w' (d @ [n]) = Some (NFile, i_data (w_inodes w h))"
    "r = Inl e \<Longrightarrow> same_files w w'"
proof -
  let ?t = "d @ [t]" and ?q = "d @ [n]"
  have res: "resolve (step w) False (abs_path ?t) = Inr ?t" "resolve (step w) False (abs_path ?q) = Inr ?q"
    using resolve_entry [OF wf dir ok(1,2)] resolve_entry [OF wf dir ok(1,3)] by simp_all
  have sole': "sole_file (step w) ?t h" using sole by (simp add: sole_file_def)
  have nq: "w_names w ?q \<noteq> Some h" "w_names w ?t = Some h" "i_kind (w_inodes w h) \<noteq> NDir"
    using sole ne by (auto simp: sole_file_def)
  have "(\<exists>e. r = Inl e) \<and> same_files w w' \<or> r = Inr () \<and> parent_dir (step w) ?q \<and> \<not> is_dir (step w) ?q
      \<and> w' = relink ?t ?q h (step w)"
    using run res nq
    by (auto simp: atomicReplace_def Rename_def on_path_def sys_def rename_nodes_def split: if_splits)
  then show "evolves {?t, ?q} w w'"
    "r = Inr u \<Longrightarrow> view w' ?q = Some (NFile, i_data (w_inodes w h))"
    "r = Inl e \<Longrightarrow> same_files w w'"
    using relink_evolves [OF _ sole', of ?q] wf ne same_files_evolves by auto
qed


text \<open>
  Whatever happens while a record is published, the target holds its previous content or the
  complete new record, and it holds the new record when the call succeeds.
\<close>

definition old_or_new :: "bytes list \<Rightarrow> bytes \<Rightarrow> world \<Rightarrow> bool \<Rightarrow> world \<Rightarrow> bool" where
  "old_or_new q raw w ok w' \<longleftrightarrow> view w' q = Some (NFile, raw) \<or> \<not> ok \<and> view w' q = view w q"

lemma io_bind_cases:
  assumes "io_bind m f w = (r, w')"
  obtains (fails) e where "m w = (Inl e, w')" "r = Inl e"
  | (continues) x w1 where "m w = (Inr x, w1)" "f x w1 = (r, w')"
  using assms by (cases "m w") (auto simp: io_bind_def split: sum.splits)

lemma publish_rename:
  assumes wf: "wf_world w" and dir: "is_dir w d" and ok: "list_all name_ok d" "name_ok t" "name_ok n"
    and ne: "t \<noteq> n" and sole: "sole_file w (d @ [t]) h" "i_data (w_inodes w h) = raw"
    and rest: "reads rest"
    and run: "io_bind (atomicReplace (abs_path (d @ [t])) (abs_path (d @ [n]))) (\<lambda>_. rest) w = (r, w')"
  shows "evolves {d @ [t], d @ [n]} w w' \<and> old_or_new (d @ [n]) raw w (r = Inr ()) w'"
  using run
proof (cases rule: io_bind_cases)
  case (fails e)
  note b = rename_temporary [OF wf dir ok ne sole(1) fails(1)]
  with fails same_files_view [OF b(3) [OF refl]] show ?thesis by (simp add: old_or_new_def)
next
  case (continues u w1)
  note b = rename_temporary [OF wf dir ok ne sole(1) continues(1)]
  have s: "same_files w1 w'" using readsD [OF rest continues(2)] .
  have "view w1 (d @ [n]) = Some (NFile, raw)" using b(2) sole(2) by simp
  then show ?thesis
    using evolves_trans [OF b(1) same_files_evolves [OF s evolves_wf [OF b(1)]]] same_files_view [OF s]
    by (simp add: old_or_new_def)
qed

lemma publish_sync:
  assumes wf: "wf_world w" and dir: "is_dir w d" and ok: "list_all name_ok d" "name_ok t" "name_ok n"
    and ne: "t \<noteq> n" and sole: "sole_file w (d @ [t]) h" "i_data (w_inodes w h) = raw"
    and rest: "reads m" "reads rest"
    and run: "io_bind m (\<lambda>_. io_bind (atomicReplace (abs_path (d @ [t])) (abs_path (d @ [n])))
      (\<lambda>_. rest)) w = (r, w')"
  shows "evolves {d @ [t], d @ [n]} w w' \<and> old_or_new (d @ [n]) raw w (r = Inr ()) w'"
  using run
proof (cases rule: io_bind_cases)
  case (fails e)
  then have "same_files w w'" using readsD [OF rest(1)] by blast
  with fails wf show ?thesis
    using same_files_evolves same_files_view by (auto simp: old_or_new_def)
next
  case (continues u w1)
  then have s: "same_files w w1" using readsD [OF rest(1)] by blast
  then have w1: "wf_world w1" "is_dir w1 d" "sole_file w1 (d @ [t]) h" "i_data (w_inodes w1 h) = raw"
    "view w1 = view w" "evolves {d @ [t], d @ [n]} w w1"
    using same_files_view [OF s] sole_same_files [OF s] same_files_evolves [OF s wf] wf dir sole
    by (simp_all add: same_files_def)
  from publish_rename [OF w1(1,2) ok ne w1(3,4) rest(2) continues(2)] w1(5,6) show ?thesis
    using evolves_trans by (auto simp: old_or_new_def)
qed

lemma io_bind_assoc: "io_bind (io_bind m f) g = io_bind m (\<lambda>x. io_bind (f x) g)"
  by (auto simp: io_bind_def fun_eq_iff split: prod.splits sum.splits)

lemma publish_outcome:
  assumes wf: "wf_world w" and dir: "is_dir w d" and ok: "list_all name_ok d" "name_ok t" "name_ok n"
    and ne: "t \<noteq> n" and sole: "sole_file w (d @ [t]) h" "i_data (w_inodes w h) = []"
    and run: "publish limit dec (abs_path d) (abs_path (d @ [n])) h (abs_path (d @ [t])) v raw w = (r, w')"
  shows "evolves {d @ [t], d @ [n]} w w' \<and> old_or_new (d @ [n]) raw w (r = Inr ()) w'"
proof -
  let ?X = "{d @ [t], d @ [n]}"
  define rest where "rest = io_bind (syncDirectory (abs_path d)) (\<lambda>_.
     io_bind (readRecord limit dec (abs_path (d @ [n]))) (\<lambda>actual.
       io_require (case actual of None \<Rightarrow> False | Some v' \<Rightarrow> v' = v)))"
  define sync where "sync = io_bind (closeOnError h (Sync h)) (\<lambda>_. Close h)"
  have rd: "reads sync" "reads rest"
    unfolding rest_def sync_def by (intro reads_intros reads_closeOnError)+
  have "io_bind (closeOnError h (Write h raw)) (\<lambda>_. io_bind sync (\<lambda>_.
      io_bind (atomicReplace (abs_path (d @ [t])) (abs_path (d @ [n]))) (\<lambda>_. rest))) w = (r, w')"
    using run by (simp add: publish_def sync_def rest_def io_bind_assoc)
  then show ?thesis
  proof (cases rule: io_bind_cases)
    case (fails e)
    note a = write_temporary [OF wf sole fails(1)]
    from fails ne a(4) [of "d @ [n]"] evolves_mono [OF a(1), of ?X] show ?thesis
      by (simp add: old_or_new_def)
  next
    case (continues u w1)
    note a = write_temporary [OF wf sole continues(1)]
    have e: "evolves ?X w w1" using evolves_mono [OF a(1), of ?X] by blast
    have dir1: "is_dir w1 d" using is_dir_stable [OF e dir] by simp
    from publish_sync [OF evolves_wf [OF e] dir1 ok ne a(2) a(3) [OF refl] rd continues(2)]
    show ?thesis
      using ne a(4) [of "d @ [n]"] evolves_trans [OF e] by (auto simp: old_or_new_def)
  qed
qed

subsection \<open>Staging a temporary file\<close>

definition temps :: "bytes list \<Rightarrow> bytes \<Rightarrow> bytes list set" where
  "temps d pfx = {d @ [t] | t. has_prefix t pfx}"

definition temp_prefix :: "bytes \<Rightarrow> bool" where
  "temp_prefix pfx \<longleftrightarrow> 2 < length pfx \<and> CHR ''/'' \<notin> set pfx"

text \<open>A call that yields a fresh private file under a temporary name, or leaves none but such.\<close>

definition temp_outcome ::
  "bytes list \<Rightarrow> bytes \<Rightarrow> world \<Rightarrow> (os_error, nat \<times> bytes) result \<Rightarrow> world \<Rightarrow> bool" where
  "temp_outcome d pfx w r w' \<longleftrightarrow>
     evolves (temps d pfx) w w' \<and> (\<forall>p. p \<notin> temps d pfx \<longrightarrow> view w' p = view w p) \<and>
     (\<forall>h path. r = Inr (h, path) \<longrightarrow> (\<exists>t. has_prefix t pfx \<and> name_ok t \<and> path = abs_path (d @ [t]) \<and>
        sole_file w' (d @ [t]) h \<and> i_data (w_inodes w' h) = []))"

definition makes_temp :: "(nat \<times> bytes) io \<Rightarrow> bytes list \<Rightarrow> bytes \<Rightarrow> bool" where
  "makes_temp mk d pfx \<longleftrightarrow> (\<forall>w r w'. wf_world w \<longrightarrow> is_dir w d \<longrightarrow> mk w = (r, w') \<longrightarrow> temp_outcome d pfx w r w')"

lemma temp_name_ok: "temp_prefix pfx \<Longrightarrow> name_ok (pfx @ dec_nat k)"
  using dec_nat_digits [of "CHR ''/''" k]
  by (auto simp: temp_prefix_def name_ok_def is_digit_def dest: arg_cong [where f = length])

lemma join_slash_snoc: "cs \<noteq> [] \<Longrightarrow> join_slash (cs @ [c]) = join_slash cs @ CHR ''/'' # c"
  by (induction cs rule: join_slash.induct) auto

lemma last_join_slash: "cs \<noteq> [] \<Longrightarrow> list_all name_ok cs \<Longrightarrow> join_slash cs \<noteq> [] \<and> last (join_slash cs) \<noteq> CHR ''/''"
proof (induction cs rule: join_slash.induct)
  case (2 x)
  then show ?case by (auto simp: name_ok_def) (metis last_in_set)
qed auto

lemma temp_path:
  assumes "d \<noteq> []" "list_all name_ok d"
  shows "(if last (abs_path d) = CHR ''/'' then abs_path d else abs_path d @ ''/'') @ t = abs_path (d @ [t])"
  using last_join_slash [OF assms] join_slash_snoc [OF assms(1), of t] by (simp add: abs_path_def)

lemma open_temp:
  assumes wf: "wf_world w" and dir: "is_dir w d" and ok: "list_all name_ok d" "name_ok t" "has_prefix t pfx"
    and run: "OpenExclusive (abs_path (d @ [t])) perm w = (r, w')"
  shows "temp_outcome d pfx w (map_sum id (\<lambda>h. (h, abs_path (d @ [t]))) r) w'"
proof (cases r)
  case (Inl e)
  then have "w' = step w" using run OpenExclusive_Inl by blast
  with wf Inl show ?thesis by (simp add: evolves_step temp_outcome_def)
next
  case (Inr h)
  obtain q where q: "resolve w False (abs_path (d @ [t])) = Inr q" "sole_file w' q h"
    "i_data (w_inodes w' h) = []" "evolves {} w w'" "\<And>p. p \<noteq> q \<Longrightarrow> view w' p = view w p"
    using OpenExclusive_Inr [OF run [unfolded Inr] wf] by metis
  have qt: "q = d @ [t]" using q(1) resolve_entry [OF wf dir ok(1,2)] by simp
  have tmp: "d @ [t] \<in> temps d pfx" using ok(3) by (auto simp: temps_def)
  have "view w' p = view w p" if "p \<notin> temps d pfx" for p
    using q(5) qt tmp that by (cases "p = q") auto
  moreover have "evolves (temps d pfx) w w'" by (rule evolves_mono [OF q(4)]) simp
  ultimately show ?thesis
    using q(2,3) qt ok Inr by (auto simp: temp_outcome_def)
qed

lemma create_temp_step:
  assumes d: "d \<noteq> []" "list_all name_ok d" and pfx: "temp_prefix pfx"
    and wf: "wf_world w" and dir: "is_dir w d" and run: "create_temp tries (abs_path d) pfx w = (r, w')"
  obtains "temp_outcome d pfx w r w'"
  | "0 < tries" "create_temp (tries - 1) (abs_path d) pfx (step w) = (r, w')"
proof -
  let ?t = "pfx @ dec_nat (w_random w (w_tick w) mod 2 ^ 32)"
  obtain r1 w1 where o: "OpenExclusive (abs_path (d @ [?t])) 0x180 w = (r1, w1)" by force
  note out = open_temp [OF wf dir d(2) temp_name_ok [OF pfx] has_prefix_append o]
  have run': "(case r1 of Inr i \<Rightarrow> (Inr (i, abs_path (d @ [?t])), w1)
     | Inl e \<Rightarrow> if e = Exist \<and> tries > 0 then create_temp (tries - 1) (abs_path d) pfx w1 else (Inl e, w1))
    = (r, w')"
    using run o temp_path [OF d, of ?t] by (subst (asm) create_temp.simps) (cases r1; simp)
  show thesis
  proof (cases "r1 = Inl Exist \<and> 0 < tries")
    case True
    with run' OpenExclusive_Inl [of _ _ w] o that(2) show thesis by auto
  next
    case False
    then have "r = map_sum id (\<lambda>h. (h, abs_path (d @ [?t]))) r1" "w' = w1"
      using run' by (auto split: sum.splits if_splits)
    with out that(1) show thesis by simp
  qed
qed

lemma makes_create_temp:
  assumes d: "d \<noteq> []" "list_all name_ok d" and pfx: "temp_prefix pfx"
  shows "makes_temp (create_temp tries (abs_path d) pfx) d pfx"
  unfolding makes_temp_def
proof (intro allI impI)
  fix w r w'
  assume "wf_world w" "is_dir w d" "create_temp tries (abs_path d) pfx w = (r, w')"
  then show "temp_outcome d pfx w r w'"
  proof (induction tries arbitrary: w)
    case 0
    then show ?case by (rule create_temp_step [OF d pfx]) simp_all
  next
    case (Suc tries)
    from Suc.prems show ?case
    proof (cases rule: create_temp_step [OF d pfx, consumes 3])
      case 2
      have "is_dir (step w) d" using Suc.prems(2) by (simp add: is_dir_view)
      then have "temp_outcome d pfx (step w) r w'" using Suc.IH [of "step w"] Suc.prems(1) 2 by simp
      then show ?thesis by (simp add: temp_outcome_def)
    qed
  qed
qed

lemma makes_CreateTemp:
  "d \<noteq> [] \<Longrightarrow> list_all name_ok d \<Longrightarrow> temp_prefix pfx \<Longrightarrow> makes_temp (CreateTemp (abs_path d) pfx) d pfx"
  unfolding CreateTemp_def by (rule makes_create_temp)


lemma temp_outcome_failed:
  assumes "temp_outcome d pfx w r w'"
  shows "temp_outcome d pfx w (Inl e) w'"
  using assms by (simp add: temp_outcome_def)

lemma temp_outcome_same_tree:
  assumes "temp_outcome d pfx w r w1" "same_tree w1 w2" "wf_world w"
  shows "temp_outcome d pfx w r w2"
proof -
  note s = same_tree_view [OF assms(2)]
  have e: "evolves (temps d pfx) w w1" using assms(1) by (simp add: temp_outcome_def)
  have "evolves (temps d pfx) w w2"
    by (rule evolves_trans [OF e same_tree_evolves [OF assms(2) evolves_wf [OF e]]])
  with assms(1,2) s show ?thesis by (simp add: temp_outcome_def same_tree_def)
qed

lemma same_files_tree: "same_files w w' \<Longrightarrow> same_tree w w'"
  by (simp add: same_files_def same_tree_def)

lemma makes_createPrivateTemporaryFile:
  assumes d: "d \<noteq> []" "list_all name_ok d" and pfx: "temp_prefix pfx"
  shows "makes_temp (createPrivateTemporaryFile (abs_path d) pfx) d pfx"
  unfolding makes_temp_def
proof (intro allI impI)
  fix w r w'
  assume w: "wf_world w" "is_dir w d" and run: "createPrivateTemporaryFile (abs_path d) pfx w = (r, w')"
  from run show "temp_outcome d pfx w r w'"
    unfolding createPrivateTemporaryFile_def
  proof (cases rule: io_bind_cases)
    case (fails e)
    with makes_CreateTemp [OF d pfx] w show ?thesis by (simp add: makes_temp_def)
  next
    case (continues hp w1)
    obtain h path where hp: "hp = (h, path)" by force
    have out: "temp_outcome d pfx w (Inr (h, path)) w1"
      using makes_CreateTemp [OF d pfx] w continues(1) hp by (simp add: makes_temp_def)
    obtain r2 w2 where ch: "Chmod h 0x180 w1 = (r2, w2)" by force
    have out2: "temp_outcome d pfx w (Inr (h, path)) w2"
      by (rule temp_outcome_same_tree [OF out Chmod_same_tree [OF ch] w(1)])
    show ?thesis
    proof (cases r2)
      case (Inr u)
      then show ?thesis using continues(2) hp ch out2 by simp
    next
      case (Inl e)
      define w3 where "w3 = snd (Close h w2)"
      have out3: "temp_outcome d pfx w (Inr (h, path)) w3"
        unfolding w3_def by (rule temp_outcome_same_tree [OF out2 same_files_tree [OF Close_same_files] w(1)])
      then obtain t where t: "has_prefix t pfx" "name_ok t" "path = abs_path (d @ [t])"
        and e3: "evolves (temps d pfx) w w3" by (auto simp: temp_outcome_def)
      have "w' = snd (Remove path w3)" "r = Inl e"
        using continues(2) hp ch Inl by (simp_all add: w3_def)
      then obtain r4 where rm: "Remove path w3 = (r4, w')" "r = Inl e" by (cases "Remove path w3") simp
      have "d \<notin> temps d pfx" by (auto simp: temps_def)
      then have "resolve w3 False path = Inr (d @ [t])"
        using resolve_entry [OF evolves_wf [OF e3] is_dir_stable [OF e3 w(2)] d(2) t(2)] t(3) by simp
      note gone = Remove_evolves [OF rm(1) evolves_wf [OF e3] this]
      have tq: "d @ [t] \<in> temps d pfx" using t(1) by (auto simp: temps_def)
      have "view w' p = view w p" if "p \<notin> temps d pfx" for p
        using gone(2) [of p] out3 that tq by (auto simp: temp_outcome_def)
      moreover have "evolves (temps d pfx) w w'"
        using evolves_trans [OF e3 evolves_mono [OF gone(1)]] tq by simp
      ultimately show ?thesis using rm(2) by (simp add: temp_outcome_def)
    qed
  qed
qed

lemma old_or_new_same: "view w1 q = view w q \<Longrightarrow> old_or_new q raw w1 c w' = old_or_new q raw w c w'"
  by (simp add: old_or_new_def)

lemma prepare_publish:
  assumes wf: "wf_world w" and dir: "is_dir w d" and ok: "list_all name_ok d" "name_ok t" "name_ok n"
    and ne: "t \<noteq> n" and sole: "sole_file w (d @ [t]) h" "i_data (w_inodes w h) = []"
    and prep: "\<And>w r w'. prep w = (r, w') \<Longrightarrow> same_tree w w'"
    and run: "io_bind prep (\<lambda>_. publish limit dec (abs_path d) (abs_path (d @ [n])) h (abs_path (d @ [t])) v raw) w
      = (r, w')"
  shows "evolves {d @ [t], d @ [n]} w w' \<and> old_or_new (d @ [n]) raw w (r = Inr ()) w'"
  using run
proof (cases rule: io_bind_cases)
  case (fails e)
  with same_tree_view(1) [OF prep [OF fails(1)]] same_tree_evolves [OF prep [OF fails(1)] wf] show ?thesis
    by (simp add: old_or_new_def)
next
  case (continues u w1)
  note s = prep [OF continues(1)]
  have data: "i_data (w_inodes w1 h) = []" using sole(2) s by (simp add: same_tree_def)
  have "evolves {d @ [t], d @ [n]} w1 w' \<and> old_or_new (d @ [n]) raw w1 (r = Inr ()) w'"
    using same_tree_view [OF s] wf dir sole(1)
    by (intro publish_outcome [OF _ _ ok ne _ data continues(2)]) simp_all
  then show ?thesis
    using evolves_trans [OF same_tree_evolves [OF s wf]] old_or_new_same same_tree_view(1) [OF s] by metis
qed

text \<open>
  A whole \<open>writeAndVerifyRecord\<close>: make a temporary file, prepare it, publish, and remove what
  is left of the temporary file.
\<close>

lemma staged_write:
  assumes wf: "wf_world w" and dir: "is_dir w d" and ok: "list_all name_ok d" "name_ok n" "\<not> has_prefix n pfx"
    and mk: "makes_temp mk d pfx"
    and prep: "\<And>h tmp w r w'. prep h tmp w = (r, w') \<Longrightarrow> same_tree w w'"
    and run: "io_bind mk (\<lambda>(h, tmp). io_defer (io_bind (prep h tmp) (\<lambda>_.
        publish limit dec (abs_path d) (abs_path (d @ [n])) h tmp v raw)) (Remove tmp)) w = (r, w')"
  shows "evolves ({d @ [n]} \<union> temps d pfx) w w' \<and> old_or_new (d @ [n]) raw w (r = Inr ()) w'"
  using run
proof (cases rule: io_bind_cases)
  case (fails e)
  then have "temp_outcome d pfx w (Inl e) w'" using mk wf dir by (simp add: makes_temp_def)
  then show ?thesis
    using fails ok(3) evolves_mono [of "temps d pfx" w w' "{d @ [n]} \<union> temps d pfx"]
    by (auto simp: temp_outcome_def old_or_new_def temps_def)
next
  case (continues ht w1)
  obtain h tmp where ht: "ht = (h, tmp)" by force
  then have out: "temp_outcome d pfx w (Inr (h, tmp)) w1"
    using mk wf dir continues(1) by (simp add: makes_temp_def)
  then obtain t where t: "has_prefix t pfx" "name_ok t" "tmp = abs_path (d @ [t])"
    "sole_file w1 (d @ [t]) h" "i_data (w_inodes w1 h) = []"
    by (auto simp: temp_outcome_def)
  let ?Y = "{d @ [n]} \<union> temps d pfx"
  have nt: "d @ [n] \<notin> temps d pfx" "d \<notin> ?Y" "t \<noteq> n" "{d @ [t], d @ [n]} \<subseteq> ?Y" "{d @ [t]} \<subseteq> ?Y"
    using ok(3) t(1) by (auto simp: temps_def)
  have e1: "evolves ?Y w w1" and v1: "view w1 (d @ [n]) = view w (d @ [n])"
    using out nt(1) evolves_mono [of "temps d pfx" w w1 ?Y] by (auto simp: temp_outcome_def)
  obtain w2 where w2: "io_bind (prep h tmp) (\<lambda>_.
      publish limit dec (abs_path d) (abs_path (d @ [n])) h (abs_path (d @ [t])) v raw) w1 = (r, w2)"
    and w': "w' = snd (Remove tmp w2)"
    using continues(2) ht t(3) by (auto simp: io_defer_def split: prod.splits)
  have "evolves {d @ [t], d @ [n]} w1 w2 \<and> old_or_new (d @ [n]) raw w1 (r = Inr ()) w2"
    by (rule prepare_publish [OF evolves_wf [OF e1] is_dir_stable [OF e1 dir nt(2)] ok(1) t(2) ok(2) nt(3)
          t(4,5) prep w2])
  then have e2: "evolves ?Y w w2" and new: "old_or_new (d @ [n]) raw w (r = Inr ()) w2"
    using evolves_trans [OF e1 evolves_mono [OF _ nt(4)]] old_or_new_same [OF v1] by blast+
  obtain r3 where rem: "Remove tmp w2 = (r3, w')" using w' by (metis prod.collapse)
  have "resolve w2 False tmp = Inr (d @ [t])"
    using resolve_entry [OF evolves_wf [OF e2] is_dir_stable [OF e2 dir nt(2)] ok(1) t(2)] t(3) by simp
  note rm = Remove_evolves [OF rem evolves_wf [OF e2] this]
  have "evolves ?Y w w'" by (rule evolves_trans [OF e2 evolves_mono [OF rm(1) nt(5)]])
  with new rm(2) [of "d @ [n]"] nt(3) show ?thesis by (simp add: old_or_new_def)
qed

subsection \<open>Records in files\<close>

definition record_at :: "(bytes \<Rightarrow> 'r option) \<Rightarrow> bytes list \<Rightarrow> world \<Rightarrow> 'r option" where
  "record_at dec q w = (case view w q of Some (NFile, raw) \<Rightarrow> dec raw | _ \<Rightarrow> None)"

lemma record_at_view: "view w' q = view w q \<Longrightarrow> record_at dec q w' = record_at dec q w"
  by (simp add: record_at_def)

lemma record_at_evolves:
  assumes "evolves X w w'" "q \<notin> X" "dec [] = None"
  shows "record_at dec q w' = record_at dec q w"
proof -
  have "view w' q = view w q \<or> view w q = None \<and> fresh_view (view w' q)"
    using assms(1,2) by (simp add: evolves_def)
  then show ?thesis
    using assms(3) by (auto simp: record_at_def fresh_view_def)
qed

lemma record_at_read:
  assumes "wf_world w" "is_dir w d" "list_all name_ok d" "name_ok n"
    and "readRecord limit dec (abs_path (d @ [n])) w = (Inr res, w')"
  shows "res = record_at dec (d @ [n]) w"
  using readRecord_result [OF assms] by (cases res) (auto simp: record_at_def)

text \<open>A write of \<open>next\<close> to \<open>d @ [n]\<close>: whatever happens, the old record or the new one is there.\<close>

definition writes_record ::
  "unit io \<Rightarrow> bytes list \<Rightarrow> bytes \<Rightarrow> bytes \<Rightarrow> (bytes \<Rightarrow> 'r option) \<Rightarrow> 'r \<Rightarrow> bool" where
  "writes_record write d n pfx dec v \<longleftrightarrow> (\<forall>w r w'. wf_world w \<longrightarrow> is_dir w d \<longrightarrow> write w = (r, w') \<longrightarrow>
     evolves ({d @ [n]} \<union> temps d pfx) w w' \<and>
     (record_at dec (d @ [n]) w' = Some v \<or>
      r \<noteq> Inr () \<and> record_at dec (d @ [n]) w' = record_at dec (d @ [n]) w))"

text \<open>The outcome of one observation at the file \<open>q\<close>.\<close>

definition store_outcome ::
  "('r option \<Rightarrow> 'res option) \<Rightarrow> ('r option \<Rightarrow> 'res) \<Rightarrow> ('r option \<Rightarrow> 'res) \<Rightarrow> 'r \<Rightarrow>
   'r option \<Rightarrow> (os_error, 'res) result \<Rightarrow> 'r option \<Rightarrow> bool" where
  "store_outcome early success failure v old r new \<longleftrightarrow>
    (case r of
       Inl _ \<Rightarrow> new = old
     | Inr res \<Rightarrow>
         (case early old of
            Some res' \<Rightarrow> res = res' \<and> new = old
          | None \<Rightarrow> res = success old \<and> new = Some v
              \<or> res = failure old \<and> (new = old \<or> new = Some v)))"

text \<open>A read of the record at a path, possibly after other calls that only read.\<close>

definition reads_record :: "'r option io \<Rightarrow> nat \<Rightarrow> (bytes \<Rightarrow> 'r option) \<Rightarrow> bytes \<Rightarrow> bool" where
  "reads_record m limit dec p \<longleftrightarrow> reads m \<and> (\<forall>w res w'. m w = (Inr res, w') \<longrightarrow>
     (\<exists>w1. same_files w w1 \<and> readRecord limit dec p w1 = (Inr res, w')))"

lemma reads_record_plain: "reads_record (readRecord limit dec p) limit dec p"
  by (auto simp: reads_record_def reads_readRecord same_files_def)

lemma reads_record_after: "reads m \<Longrightarrow> reads_record (io_bind m (\<lambda>_. readRecord limit dec p)) limit dec p"
  unfolding reads_record_def by (auto intro!: reads_intros elim!: io_bind_InrE) (meson readsD)

lemma reads_record_at:
  assumes rd: "reads_record m limit dec (abs_path (d @ [n]))" and wf: "wf_world w" and dir: "is_dir w d"
    and ok: "list_all name_ok d" "name_ok n" and run: "m w = (Inr res, w')"
  shows "res = record_at dec (d @ [n]) w"
proof -
  obtain w1 where s: "same_files w w1" and r: "readRecord limit dec (abs_path (d @ [n])) w1 = (Inr res, w')"
    using rd run unfolding reads_record_def by blast
  have "res = record_at dec (d @ [n]) w1"
    using same_files_view [OF s] wf dir by (intro record_at_read [OF _ _ ok r]) simp_all
  then show ?thesis using same_files_view(2) [OF s] by (simp add: record_at_def)
qed

lemma compare_outcome:
  assumes wf: "wf_world w" and dir: "is_dir w d" and ok: "list_all name_ok d" "name_ok n"
    and rd: "reads_record read limit dec (abs_path (d @ [n]))"
    and wr: "writes_record write d n pfx dec v"
    and run: "compareAndStore read early write success failure w = (r, w')"
  shows "evolves ({d @ [n]} \<union> temps d pfx) w w' \<and>
    store_outcome early success failure v (record_at dec (d @ [n]) w) r (record_at dec (d @ [n]) w')"
  using run unfolding compareAndStore_def
proof (cases rule: io_bind_cases)
  case (fails e)
  then have s: "same_files w w'" using readsD rd by (auto simp: reads_record_def)
  with fails same_files_evolves [OF s wf] same_files_view(2) [OF s] show ?thesis
    by (simp add: store_outcome_def record_at_def)
next
  case (continues stored w1)
  then have s: "same_files w w1" using readsD rd by (auto simp: reads_record_def)
  have stored: "stored = record_at dec (d @ [n]) w"
    by (rule reads_record_at [OF rd wf dir ok continues(1)])
  have rec1: "record_at dec (d @ [n]) w1 = record_at dec (d @ [n]) w"
    using same_files_view(2) [OF s] by (simp add: record_at_def)
  show ?thesis
  proof (cases "early stored")
    case (Some res)
    then have "r = Inr res" "w' = w1" using continues(2) by (simp_all add: io_return_def)
    with Some stored rec1 same_files_evolves [OF s wf] show ?thesis by (simp add: store_outcome_def)
  next
    case None
    obtain r2 w2 where w2: "write w1 = (r2, w2)" by force
    then have r: "r = Inr (case r2 of Inr _ \<Rightarrow> success stored | Inl _ \<Rightarrow> failure stored)" "w' = w2"
      using continues(2) None by (simp_all add: io_bind_def io_try_def io_return_def)
    have "evolves ({d @ [n]} \<union> temps d pfx) w1 w2 \<and> (record_at dec (d @ [n]) w2 = Some v \<or>
      r2 \<noteq> Inr () \<and> record_at dec (d @ [n]) w2 = record_at dec (d @ [n]) w1)"
      using wr w2 wf dir same_files_view [OF s] by (simp add: writes_record_def)
    then show ?thesis
      using r None stored rec1 evolves_trans [OF same_files_evolves [OF s wf]]
      by (cases r2) (auto simp: store_outcome_def)
  qed
qed

definition finds_root :: "bytes io \<Rightarrow> (world \<Rightarrow> bytes list) \<Rightarrow> bool" where
  "finds_root stateRoot loc \<longleftrightarrow> keeps stateRoot \<and> (\<forall>w root w'. wf_world w \<longrightarrow> stateRoot w = (Inr root, w') \<longrightarrow>
     list_all name_ok (loc w) \<and> loc w \<noteq> [] \<and> root = abs_path (loc w) \<and>
     (\<exists>nd. node w' (loc w) = Some nd \<and> (\<forall>t. i_kind nd \<noteq> NLink t)))"

lemma keeps_releaseLock [keeps_intros]: "keeps releaseLock"
  unfolding releaseLock_def by (rule keeps_sys) (simp add: io_return_def evolves_refl)

lemma walk_not_Exist: "walk ns f k cur cs \<noteq> Inl Exist"
  by (induction ns f k cur cs rule: walk.induct)
    (simp add: walk.simps, subst walk.simps, auto split: option.splits node_kind.splits, metis+)

lemma OpenExclusive_resolves:
  "OpenExclusive p perm w = (r, w') \<Longrightarrow> r = Inr h \<or> r = Inl Exist \<Longrightarrow> \<exists>q. resolve w False p = Inr q"
  using walk_not_Exist [of "node w" False max_links]
  by (auto simp: resolve_def OpenExclusive_def on_path_def sys_def split: if_splits sum.splits)

lemma openLock_resolves:
  assumes "openLock p w = (Inr h, w')"
  shows "\<exists>q. resolve w False p = Inr q"
proof -
  obtain r1 w1 where o: "OpenExclusive p 0x180 w = (r1, w1)" by force
  then have "r1 = Inl Exist \<or> (\<exists>h. r1 = Inr h)"
    using assms
    by (auto simp: openLock_def createPrivateLock_def io_bind_def io_try_def io_fail_def
        split: sum.splits if_splits)
  with OpenExclusive_resolves [OF o] show ?thesis by blast
qed

lemma underLock_outcome:
  assumes wf: "wf_world w" and root: "finds_root stateRoot loc" and name: "name_ok (name @ ''.lock'')" "name_ok (name @ ''.json'')"
    and run: "underLock stateRoot name body w = (r, w')"
  obtains e where "r = Inl e" "evolves {} w w'"
  | d w1 w2 where "d = loc w" "list_all name_ok d" "d \<noteq> []" "wf_world w1" "evolves {} w w1" "is_dir w1 d"
      "body (abs_path d) (abs_path (d @ [name @ ''.json''])) w1 = (r, w2)" "wf_world w2 \<Longrightarrow> evolves {} w2 w'"
  using run unfolding underLock_def
proof (cases rule: io_bind_cases)
  case (fails e)
  then show thesis using that(1) root wf keepsD by (auto simp: finds_root_def)
next
  case (continues root w1)
  let ?d = "loc w"
  have e1: "evolves {} w w1" using continues(1) root wf keepsD by (auto simp: finds_root_def)
  have d: "list_all name_ok ?d" "?d \<noteq> []" "root = abs_path ?d"
    and nd: "\<exists>nd. node w1 ?d = Some nd \<and> (\<forall>t. i_kind nd \<noteq> NLink t)"
    using continues(1) assms(2) wf unfolding finds_root_def by blast+
  define locked where "locked lock = io_bind (acquireLock lock lockTimeout) (\<lambda>_.
    io_defer (body (abs_path ?d) (abs_path (?d @ [name @ ''.json'']))) releaseLock)" for lock
  have "io_bind (openLock (abs_path (?d @ [name @ ''.lock'']))) (\<lambda>lock. io_defer (locked lock) (Close lock)) w1
      = (r, w')"
    using continues(2) d name by (simp add: locked_def)
  then show thesis
  proof (cases rule: io_bind_cases)
    case (fails e)
    then show thesis using that(1) evolves_trans [OF e1] keepsD [OF keeps_openLock] evolves_wf [OF e1] by blast
  next
    case (continues lock w2)
    have e2: "evolves {} w1 w2" using keepsD [OF keeps_openLock continues(1) evolves_wf [OF e1]] .
    obtain q where "resolve w1 False (abs_path (?d @ [name @ ''.lock''])) = Inr q"
      using openLock_resolves [OF continues(1)] by blast
    then have dir: "is_dir w1 ?d" using resolve_below [OF evolves_wf [OF e1] d(1) name(1)] nd by blast
    obtain w3 where w3: "locked lock w2 = (r, w3)" and w': "w' = snd (Close lock w3)"
      using continues(2) by (auto simp: io_defer_def split: prod.splits)
    have close: "evolves {} w3 w'" if "wf_world w3"
      using that w' keepsD [OF keeps_Close] by (metis prod.collapse)
    from w3 show thesis
      unfolding locked_def
    proof (cases rule: io_bind_cases)
      case (fails e)
      then have "evolves {} w2 w3" using keepsD [OF keeps_acquireLock] evolves_wf [OF e2] by blast
      then show thesis
        using fails that(1) evolves_trans [OF e1 evolves_trans [OF e2]] close evolves_wf evolves_trans by metis
    next
      case (continues u w4)
      then have e4: "evolves {} w2 w4" using keepsD [OF keeps_acquireLock] evolves_wf [OF e2] by blast
      obtain w5 where w5: "body (abs_path ?d) (abs_path (?d @ [name @ ''.json''])) w4 = (r, w5)"
        and rel: "w3 = snd (releaseLock w5)"
        using continues(2) by (auto simp: io_defer_def split: prod.splits)
      have fin: "evolves {} w5 w'" if "wf_world w5"
        using that rel keepsD [OF keeps_releaseLock] close evolves_trans evolves_wf by (metis prod.collapse)
      have e: "evolves {} w w4" by (rule evolves_trans [OF e1 evolves_trans [OF e2 e4]])
      have "is_dir w4 ?d" using is_dir_stable [OF evolves_trans [OF e2 e4] dir] by simp
      then show thesis using that(2) [OF refl d(1,2) evolves_wf [OF e] e _ w5 fin] by blast
    qed
  qed
qed

end
