(* ===== verification/State_Codec.thy ===== *)
theory State_Codec
  imports Canonical_Json State_Store
begin

section \<open>The canonical record codec of the state stores\<close>

text \<open>
  Each store keeps one flat record per file, written as canonical JSON and accepted back only if
  the bytes are exactly the canonical form of a valid record.  \<open>marshalRecord\<close> and
  \<open>decodeStrict\<close> are the parts of \<^verbatim>\<open>canonicalRecord\<close> and \<^verbatim>\<open>decodeRecord\<close>
  that the four packages share.  The locale \<open>record_codec\<close> is the contract a codec gives the
  file-system code, and the lemma in it is what the code makes of that contract.
\<close>

subsection \<open>Model\<close>

definition marshalRecord :: "nat \<Rightarrow> (bytes \<times> goany) list \<Rightarrow> bytes option" where
  "marshalRecord maxStateBytes ms =
    (case Marshal (AStruct ms) of
       Inl _ \<Rightarrow> None
     | Inr raw \<Rightarrow> if length raw > maxStateBytes then None else Some raw)"

definition decodeStrict :: "nat \<Rightarrow> (bytes \<times> field_kind) list \<Rightarrow> bytes \<Rightarrow> struct_env option" where
  "decodeStrict maxStateBytes fs raw =
    (if raw = [] \<or> length raw > maxStateBytes \<or> \<not> valid_utf8 raw \<or> CHR 0x0D \<in> set raw
        \<or> has_prefix raw [CHR 0xEF, CHR 0xBB, CHR 0xBF] then None
     else case json_decode raw of
       None \<Rightarrow> None
     | Some (doc, rest) \<Rightarrow>
         (case decode_struct fs doc of
            None \<Rightarrow> None
          | Some env \<Rightarrow> if at_eof rest then Some env else None))"

subsection \<open>Printable documents\<close>

definition printable :: "bytes \<Rightarrow> bool" where
  "printable s \<longleftrightarrow> (\<forall>c \<in> set s. 32 \<le> byte_val c \<and> byte_val c < 127)"

lemma printable_simps [simp]:
  "printable []" "printable (c # s) \<longleftrightarrow> 32 \<le> byte_val c \<and> byte_val c < 127 \<and> printable s"
  "printable (s @ t) \<longleftrightarrow> printable s \<and> printable t"
  by (auto simp: printable_def)

lemma printable_quote_body: "printable s \<Longrightarrow> printable (quote_body False s)"
proof (induction s)
  case (Cons c s)
  then show ?case by (simp add: esc_ascii_def Let_def)
qed simp

lemma printable_quote: "printable s \<Longrightarrow> printable (quote False s)"
  by (simp add: quote_def printable_quote_body)

lemma printable_commas: "(\<forall>s \<in> set xs. printable s) \<Longrightarrow> printable (commas xs)"
  by (induction xs rule: commas.induct) auto

lemma printable_dec_int: "printable (dec_int i)"
  by (auto simp: printable_def dec_int_def is_digit_def dest!: dec_nat_digits)

lemma printable_utf8: "printable s \<Longrightarrow> valid_utf8 s"
  by (rule valid_utf8_ascii) (auto simp: printable_def)

lemma printable_plain: "printable s \<Longrightarrow> CHR 0x0D \<notin> set s \<and> \<not> has_prefix s [CHR 0xEF, CHR 0xBB, CHR 0xBF]"
  by (cases s) (auto simp: printable_def has_prefix_def)

fun scalar_printable :: "goany \<Rightarrow> bool" where
  "scalar_printable (AString s) \<longleftrightarrow> printable s"
| "scalar_printable _ \<longleftrightarrow> True"

lemma printable_scalar: "scalar_printable v \<Longrightarrow> printable (json_encode False (scalar_json v))"
  by (cases v) (simp_all add: printable_quote printable_dec_int)

lemma printable_flat_doc:
  assumes "\<forall>(k, v) \<in> set ms. printable k \<and> scalar_printable v"
  shows "printable (json_encode False (JObj (flat_doc ms)))"
proof -
  have "printable (quote False k @ CHR '':'' # json_encode False j)" if "(k, j) \<in> set (flat_doc ms)" for k j
    using flat_doc_member [OF that] assms by (auto simp: printable_quote printable_scalar)
  then have "printable (commas (map (\<lambda>(k, v). quote False k @ CHR '':'' # json_encode False v) (flat_doc ms)))"
    by (intro printable_commas) auto
  then show ?thesis by simp
qed

definition codec_env :: "(bytes \<times> field_kind) list \<Rightarrow> (bytes \<times> goany) list \<Rightarrow> struct_env" where
  "codec_env fs ms = (\<lambda>n. case map_of ms n of None \<Rightarrow> zero_env fs n | Some v \<Rightarrow> scalar_value v)"

lemma flat_struct_tree:
  assumes "flat_fields fs ms"
  shows "go_tree (AStruct ms) = Some (JObj (map (\<lambda>(k, v). (k, scalar_json v)) ms))"
proof -
  have "map (\<lambda>(k, v). map_option (\<lambda>j. (k, j)) (go_tree v)) ms
      = map Some (map (\<lambda>(k, v). (k, scalar_json v)) ms)"
    using assms scalar_tree by (fastforce simp: flat_fields_def)
  then have "those (map (\<lambda>(k, v). map_option (\<lambda>j. (k, j)) (go_tree v)) ms)
      = Some (map (\<lambda>(k, v). (k, scalar_json v)) ms)"
    by (simp only: those_Some_iff)
  then show ?thesis unfolding go_tree.simps by (simp only: option.map)
qed

lemma scalar_as_any: "as_any (scalar_json v) = scalar_json v"
  by (cases v) simp_all

lemma flat_keys_ascii:
  assumes "flat_fields fs ms" "(k, v) \<in> set ms"
  shows "\<forall>c \<in> set k. byte_val c < 128" "scalar_ok (map_of fs k) v"
proof -
  show ok: "scalar_ok (map_of fs k) v" using assms by (auto simp: flat_fields_def)
  then obtain kd where "map_of fs k = Some kd" by (cases v) (auto split: if_splits)
  then show "\<forall>c \<in> set k. byte_val c < 128"
    using assms(1) by (auto simp: flat_fields_def dest!: map_of_SomeD)
qed

lemma Marshal_flat:
  assumes flat: "flat_fields fs ms"
  shows "Marshal (AStruct ms) = Inr (json_encode False (JObj (flat_doc ms)))"
proof -
  let ?doc = "map (\<lambda>(k, v). (k, scalar_json v)) ms"
  have san: "san (JObj ?doc) = JObj ?doc"
    using flat_keys_ascii [OF flat] scalar_json_ok sanitize_ascii by fastforce
  have "map (\<lambda>(k, v). (k, as_any v)) ?doc = ?doc" by (auto simp: scalar_as_any)
  then have as: "as_any (JObj ?doc) = JObj (flat_doc ms)"
    by (simp add: flat_doc_def del: map_map)
  have "foldr max (map (\<lambda>(k, v). json_depth v) ?doc) 0 \<le> 0"
    using flat_keys_ascii(2) [OF flat] scalar_json_ok by (intro foldr_max_least) fastforce
  then have depth: "\<not> json_depth (JObj ?doc) > max_nesting" by (simp add: max_nesting_def)
  have keys: "validateASCIIObjectKeys (JObj (flat_doc ms))"
  proof -
    have "(\<forall>c \<in> set k. byte_val c < 128) \<and> validateASCIIObjectKeys j" if mem: "(k, j) \<in> set (flat_doc ms)" for k j
    proof -
      obtain v where v: "(k, v) \<in> set ms" "j = scalar_json v" using flat_doc_member [OF mem] by blast
      then have "validateASCIIObjectKeys j" by (cases v) simp_all
      with flat_keys_ascii(1) [OF flat v(1)] show ?thesis by blast
    qed
    then show ?thesis by auto
  qed
  show ?thesis
    unfolding Marshal_tree [OF flat_struct_tree [OF flat]] san as
    using depth keys by (simp only: if_False if_True)
qed

text \<open>What is marshalled within the limit is decoded to the same fields.\<close>

theorem decodeStrict_marshalRecord:
  assumes flat: "flat_fields fs ms" and "\<forall>(k, v) \<in> set ms. printable k \<and> scalar_printable v"
    and raw: "marshalRecord limit ms = Some raw"
  shows "decodeStrict limit fs raw = Some (codec_env fs ms)"
proof -
  have enc: "raw = json_encode False (JObj (flat_doc ms))" "length raw \<le> limit"
    using raw Marshal_flat [OF flat] by (auto simp: marshalRecord_def split: if_splits)
  have pr: "printable raw" using printable_flat_doc assms(2) enc(1) by blast
  have "raw \<noteq> []" using enc(1) by simp
  moreover have "json_decode raw = Some (JObj (flat_doc ms), [])"
    using flat_doc_reads [OF flat] enc(1) by blast
  moreover have "at_eof []" by (simp add: at_eof_def)
  ultimately show ?thesis
    using printable_utf8 [OF pr] printable_plain [OF pr] enc(2) flat_doc_struct [OF flat]
    by (simp add: decodeStrict_def codec_env_def)
qed

lemma decodeStrict_Nil [simp]: "decodeStrict limit fs [] = None"
  by (simp add: decodeStrict_def)

subsection \<open>Digests as file names\<close>

lemma digest_hex:
  assumes "validDigest s"
  obtains h where "s = ''sha256:'' @ h" "length h = 64" "list_all is_lower_hex h"
proof
  show "s = ''sha256:'' @ drop 7 s"
  proof -
    have "length ''sha256:'' = 7" by simp
    then show ?thesis using assms unfolding validDigest_def has_prefix_def by (metis append_take_drop_id)
  qed
  show "length (drop 7 s) = 64" "list_all is_lower_hex (drop 7 s)"
    using assms by (simp_all add: validDigest_def)
qed

lemma lower_hex_printable: "list_all is_lower_hex h \<Longrightarrow> printable h"
  by (auto simp: printable_def list_all_iff is_lower_hex_def is_digit_def)

lemma printable_validDigest: "validDigest s \<Longrightarrow> printable s"
  by (erule digest_hex) (simp add: lower_hex_printable)

lemma hex_no_slash: "list_all is_lower_hex h \<Longrightarrow> CHR ''/'' \<notin> set h"
  by (auto simp: list_all_iff is_lower_hex_def is_digit_def)

lemma hex_name_ok:
  assumes "list_all is_lower_hex h" "length h = 64" "CHR ''/'' \<notin> set ext"
  shows "name_ok (h @ ext)"
proof -
  have "2 < length (h @ ext)" using assms(2) by simp
  then have "h @ ext \<noteq> []" "h @ ext \<noteq> ''.''" "h @ ext \<noteq> ''..''"
    by (auto dest: arg_cong [where f = length])
  with hex_no_slash [OF assms(1)] assms(3) show ?thesis by (simp add: name_ok_def)
qed

lemma hex_not_hidden:
  assumes "list_all is_lower_hex h" "length h = 64"
  shows "\<not> has_prefix (h @ ext) (CHR ''.'' # pfx)"
  using assms by (cases h) (auto simp: has_prefix_def is_lower_hex_def is_digit_def)

lemma maxGeneration_uint64: "n \<le> maxGeneration \<Longrightarrow> int n < 2 ^ 64"
  by (simp add: maxGeneration_def)

subsection \<open>Where the state lives\<close>

definition abs_comps :: "world \<Rightarrow> bytes \<Rightarrow> bytes list" where
  "abs_comps w p = path_comps (if IsAbs p then Clean p else Join [w_cwd w, p])"

lemma Join_rooted: "IsAbs p \<Longrightarrow> \<exists>cs. list_all name_ok cs \<and> Join [p, s] = abs_path cs"
  using Clean_rooted [of "p @ CHR ''/'' # s"] by (cases p) (auto simp: Join.simps IsAbs_def)

lemma Abs_Inr:
  assumes "Abs p w = (Inr a, w')" "wf_world w"
  shows "a = abs_path (abs_comps w p) \<and> list_all name_ok (abs_comps w p)"
proof (cases "IsAbs p")
  case True
  then have "a = Clean p" using assms by (simp add: Abs_def io_return_def)
  with Clean_rooted [OF True] True show ?thesis by (auto simp: abs_comps_def)
next
  case False
  have "IsAbs (w_cwd w)" using assms(2) by (simp add: wf_world_def)
  then obtain cs where cs: "list_all name_ok cs" "Join [w_cwd w, p] = abs_path cs"
    using Join_rooted by blast
  have "a = Join [w_cwd w, p]"
    using False assms(1)
    by (auto simp: Abs_def Getwd_def sys_def io_bind_def io_return_def split: if_splits)
  with cs False show ?thesis by (simp add: abs_comps_def)
qed

lemma dataRootPath_Inr:
  assumes "dataRootPath p w = (Inr a, w')" "wf_world w"
  shows "a = abs_path (abs_comps w p)" "list_all name_ok (abs_comps w p)"
proof -
  obtain b w1 where "Abs p w = (Inr b, w1)" "a = b"
    using assms(1)
    by (auto simp: dataRootPath_def orUnavailable_Inr io_fail_def io_return_def split: if_splits
        elim!: io_bind_InrE)
  with Abs_Inr assms(2) show "a = abs_path (abs_comps w p)" "list_all name_ok (abs_comps w p)" by blast+
qed

lemma reads_confirmRoot: "reads (confirmRoot p)"
  unfolding confirmRoot_def by (intro reads_intros)

lemma finds_rootI:
  assumes "list_all name_ok below" "below \<noteq> []" "\<And>a. keeps (prep a)"
    and rootOf: "\<And>cs. list_all name_ok cs \<Longrightarrow> rootOf (abs_path cs) = abs_path (cs @ below)"
    and eq: "stateRoot = io_bind (dataRootPath dataRoot) (\<lambda>absolute.
      io_bind (prep absolute) (\<lambda>_. confirmRoot (rootOf absolute)))"
  shows "finds_root stateRoot (\<lambda>w. abs_comps w dataRoot @ below)"
  unfolding finds_root_def
proof (intro conjI allI impI)
  show "keeps stateRoot" unfolding eq by (intro keeps_intros assms(3))
  fix w root w'
  assume wf: "wf_world w" and run: "stateRoot w = (Inr root, w')"
  obtain a w1 u w2 where a: "dataRootPath dataRoot w = (Inr a, w1)" and p: "prep a w1 = (Inr u, w2)"
    and c: "confirmRoot (rootOf a) w2 = (Inr root, w')"
    using run unfolding eq by (elim io_bind_InrE) blast
  let ?q = "abs_comps w dataRoot @ below"
  note d = dataRootPath_Inr [OF a wf]
  have q: "list_all name_ok ?q" "rootOf a = abs_path ?q"
    using d assms(1) rootOf by simp_all
  have wf2: "wf_world w2"
    using keepsD [OF keeps_dataRootPath a wf] keepsD [OF assms(3) p] evolves_wf by blast
  have s: "same_files w2 w'"
    by (rule readsD [OF reads_confirmRoot c])
  note root = confirmRoot_Inr [OF wf2 q(1) c [unfolded q(2)]]
  show "list_all name_ok ?q" "?q \<noteq> []" "root = abs_path ?q"
    using q(1) assms(2) root(1) by simp_all
  show "\<exists>nd. node w' ?q = Some nd \<and> (\<forall>t. i_kind nd \<noteq> NLink t)"
    using root(2) same_files_view(1) [OF s] by simp
qed


lemma abs_comps_same: "w_cwd w' = w_cwd w \<Longrightarrow> abs_comps w' p = abs_comps w p"
  by (simp add: abs_comps_def)

lemma reads_ContextErr [reads_intros]: "reads ContextErr"
  by (auto simp: reads_def ContextErr_def)

lemma finds_root_after:
  assumes root: "finds_root m loc" and pre: "reads pre" and loc: "\<And>w w'. w_cwd w' = w_cwd w \<Longrightarrow> loc w' = loc w"
  shows "finds_root (io_bind pre (\<lambda>_. m)) loc"
  unfolding finds_root_def
proof (intro conjI allI impI)
  show "keeps (io_bind pre (\<lambda>_. m))"
    using root reads_keeps [OF pre] by (auto simp: finds_root_def intro: keeps_bind)
  fix w root w'
  assume wf: "wf_world w" and run: "io_bind pre (\<lambda>_. m) w = (Inr root, w')"
  obtain u w1 where u: "pre w = (Inr u, w1)" "m w1 = (Inr root, w')" using run by (elim io_bind_InrE)
  have s: "same_files w w1" by (rule readsD [OF pre u(1)])
  then have "wf_world w1" "loc w1 = loc w"
    using wf same_files_view(4) [OF s] loc [of w1 w] by (simp_all add: same_files_def)
  with assms(1) u(2) show "list_all name_ok (loc w)" "loc w \<noteq> []" "root = abs_path (loc w)"
    "\<exists>nd. node w' (loc w) = Some nd \<and> (\<forall>t. i_kind nd \<noteq> NLink t)"
    unfolding finds_root_def by metis+
qed

subsection \<open>The contract of a codec and its client\<close>

locale record_codec =
  fixes canonical :: "'r \<Rightarrow> bytes option" and decode :: "bytes \<Rightarrow> 'r option"
  assumes decode_canonical: "canonical v = Some raw \<Longrightarrow> decode raw = Some v"
    and canonical_decode: "decode raw = Some v \<Longrightarrow> canonical v = Some raw"
    and decode_Nil: "decode [] = None"
begin

lemma decode_inj: "decode raw = Some v \<Longrightarrow> decode raw' = Some v \<Longrightarrow> raw = raw'"
  by (metis canonical_decode option.inject)

lemma record_kept: "evolves X w w' \<Longrightarrow> q \<notin> X \<Longrightarrow> record_at decode q w' = record_at decode q w"
  by (rule record_at_evolves) (auto simp: decode_Nil)

text \<open>Staging the canonical bytes of \<open>v\<close> is a write of the record \<open>v\<close>.\<close>

lemma writes_staged:
  assumes d: "list_all name_ok d" and n: "name_ok n" "\<not> has_prefix n pfx"
    and mk: "makes_temp mk d pfx" and prep: "\<And>h tmp w r w'. prep h tmp w = (r, w') \<Longrightarrow> same_tree w w'"
  shows "writes_record (case canonical v of None \<Rightarrow> io_fail ErrUnavailable
      | Some raw \<Rightarrow> io_bind mk (\<lambda>(h, tmp). io_defer (io_bind (prep h tmp) (\<lambda>_.
          publish limit decode (abs_path d) (abs_path (d @ [n])) h tmp v raw)) (Remove tmp)))
    d n pfx decode v"
proof (cases "canonical v")
  case None
  then show ?thesis by (simp add: writes_record_def io_fail_def evolves_refl)
next
  case (Some raw)
  have "record_at decode q w' = Some v \<or> \<not> c \<and> record_at decode q w' = record_at decode q w"
    if "old_or_new q raw w c w'" for q w c w'
    using that decode_canonical [OF Some] by (auto simp: old_or_new_def record_at_def)
  with Some show ?thesis
    using staged_write [OF _ _ d n mk prep, where limit = limit and dec = decode and v = v and raw = raw]
    unfolding writes_record_def by fastforce
qed

text \<open>One observation, from the lock to the result.\<close>

lemma observe_outcome:
  assumes wf: "wf_world w" and root: "finds_root stateRoot loc"
    and name: "name_ok (name @ ''.lock'')" "name_ok (name @ ''.json'')" "\<not> has_prefix (name @ ''.json'') pfx"
    and rd: "\<And>p. reads_record (read p) limit decode p"
    and wr: "\<And>d. list_all name_ok d \<Longrightarrow> d \<noteq> [] \<Longrightarrow>
      writes_record (wrt (abs_path d) (abs_path (d @ [name @ ''.json'']))) d (name @ ''.json'') pfx decode v"
    and run: "underLock stateRoot name (\<lambda>root path.
      compareAndStore (read path) early (wrt root path) success failure) w = (r, w')"
  shows "evolves ({loc w @ [name @ ''.json'']} \<union> temps (loc w) pfx) w w' \<and>
    store_outcome early success failure v (record_at decode (loc w @ [name @ ''.json'']) w) r
      (record_at decode (loc w @ [name @ ''.json'']) w')"
  using underLock_outcome [OF wf root name(1,2) run]
proof cases
  case (1 e)
  then have "record_at decode (loc w @ [name @ ''.json'']) w' = record_at decode (loc w @ [name @ ''.json'']) w"
    using record_kept [OF 1(2)] by simp
  with 1 evolves_mono [OF 1(2), of "{loc w @ [name @ ''.json'']} \<union> temps (loc w) pfx"] show ?thesis
    by (simp add: store_outcome_def)
next
  case (2 d w1 w2)
  let ?q = "d @ [name @ ''.json'']" and ?X = "{d @ [name @ ''.json'']} \<union> temps d pfx"
  have out: "evolves ?X w1 w2 \<and> store_outcome early success failure v (record_at decode ?q w1) r
      (record_at decode ?q w2)"
    by (rule compare_outcome [OF 2(4,6,2) name(2) rd wr [OF 2(2,3)] 2(7)])
  then have e2: "evolves {} w2 w'" using 2(8) evolves_wf by blast
  have "record_at decode ?q w1 = record_at decode ?q w" "record_at decode ?q w' = record_at decode ?q w2"
    using record_kept [OF 2(5)] record_kept [OF e2] by simp_all
  moreover have "evolves ?X w w'"
    using evolves_trans [OF evolves_mono [OF 2(5)] evolves_trans [OF _ evolves_mono [OF e2]]] out by blast
  ultimately show ?thesis using out 2(1) by simp
qed

end


subsection \<open>A sample world\<close>

text \<open>An empty file system with a lock that is free and no failing call.\<close>

definition sample_world :: world where
  "sample_world = \<lparr>w_names = Map.empty([] \<mapsto> 0),
     w_inodes = (\<lambda>_. \<lparr>i_kind = NDir, i_perm = 0x1ED, i_uid = 0, i_nlink = 1, i_data = []\<rparr>), w_next = 1,
     w_cwd = ''/'', w_euid = 1000, w_umask = 0x12, w_tick = 0, w_now = 0, w_fault = (\<lambda>_. False),
     w_short = (\<lambda>_. 0), w_random = (\<lambda>n. n), w_done = (\<lambda>_. False), w_flock = (\<lambda>_. Locked), w_lag = (\<lambda>_. 1)\<rparr>"

lemma wf_sample_world: "wf_world sample_world"
  by (simp add: wf_world_def sample_world_def IsAbs_def is_dir_def node_def)

subsection \<open>Records that only move up\<close>

text \<open>
  A store compares an observation \<open>x\<close> with the stored record and writes \<open>record_of x\<close> only
  when the comparison does not return early.  If it then only replaces a record by one above it
  in an order, the records in the file only ever move up, whatever fails.
\<close>

definition moves_up :: "('r \<Rightarrow> 'r \<Rightarrow> bool) \<Rightarrow> 'r option \<Rightarrow> 'r option \<Rightarrow> bool" where
  "moves_up below old new \<longleftrightarrow> (\<forall>r. old = Some r \<longrightarrow> (\<exists>r'. new = Some r' \<and> below r r'))"

lemma outcome_cases:
  "store_outcome e success failure v old r new \<Longrightarrow> new = old \<or> new = Some v \<and> e old = None"
  by (cases r; cases "e old") (auto simp: store_outcome_def)

locale monotonic_store = record_codec canonical decode
  for canonical :: "'r \<Rightarrow> bytes option" and decode :: "bytes \<Rightarrow> 'r option" +
  fixes below :: "'r \<Rightarrow> 'r \<Rightarrow> bool" and record_of :: "'o \<Rightarrow> 'r"
    and early :: "'o \<Rightarrow> 'r option \<Rightarrow> 'res option"
  assumes below_refl: "below r r"
    and below_trans: "below r s \<Longrightarrow> below s t \<Longrightarrow> below r t"
    and early_below: "early x (Some s) = None \<Longrightarrow> below s (record_of x)"
begin

lemma moves_up_refl: "moves_up below old old"
  using below_refl by (auto simp: moves_up_def)

lemma moves_up_trans: "moves_up below a b \<Longrightarrow> moves_up below b c \<Longrightarrow> moves_up below a c"
  unfolding moves_up_def by (metis below_trans)

lemma outcome_moves_up:
  assumes "store_outcome (early x) success failure (record_of x) old r new"
  shows "moves_up below old new"
  using outcome_cases [OF assms]
proof
  assume "new = old"
  then show ?thesis by (simp add: moves_up_refl)
next
  assume "new = Some (record_of x) \<and> early x old = None"
  then show ?thesis using early_below [of x] by (auto simp: moves_up_def)
qed

text \<open>One run of the store, seen from an arbitrary record file.\<close>

lemma frame_moves_up:
  assumes "evolves ({f} \<union> T) w w'" "q \<notin> T"
    and "store_outcome (early x) success failure (record_of x) (record_at decode f w) r (record_at decode f w')"
  shows "moves_up below (record_at decode q w) (record_at decode q w')"
proof (cases "q = f")
  case True
  then show ?thesis using outcome_moves_up [OF assms(3)] by simp
next
  case False
  then show ?thesis using record_kept [OF assms(1)] assms(2) by (simp add: moves_up_refl)
qed

end

subsection \<open>Making a temporary file private\<close>

lemma Chmod_private: "closeOnError h (Chmod h perm) w = (r, w') \<Longrightarrow> same_tree w w'"
  using Chmod_same_tree [of h perm w] Close_same_files
  by (auto simp: closeOnError_def same_files_def same_tree_def split: prod.splits sum.splits)

lemma validate_private: "closeOnError h (validateOpenedRegularFile h p single) w = (r, w') \<Longrightarrow> same_tree w w'"
  using readsD [OF reads_closeOnError [OF reads_validateOpened]] same_files_tree by blast

end
