(* ===== verification/Fault_Free.thy ===== *)
theory Fault_Free
  imports State_Codec
begin

section \<open>Runs without faults\<close>

text \<open>
  The refinement theorems of the stores hold whatever fails, so they would also hold of a store
  that always answered "unavailable".  This theory supplies the other half: when no system call
  fails, the context is alive, the lock is free and the data directory is in order, the shared code
  gets as far as the comparison.  \<open>answers u m r\<close> says that \<open>m\<close> returns \<open>r\<close> in every quiet world
  with the files of \<open>u\<close> and leaves them as they are; the rules of \<open>answers_intros\<close> evaluate the
  model symbolically.
\<close>

definition quiet :: "world \<Rightarrow> bool" where
  "quiet w \<longleftrightarrow> (\<forall>t. \<not> w_fault w t \<and> \<not> w_done w t \<and> w_flock w t = Locked)"

definition answers :: "world \<Rightarrow> 'a io \<Rightarrow> (os_error, 'a) result \<Rightarrow> bool" where
  "answers u m r \<longleftrightarrow> (\<forall>w. same_files u w \<and> quiet w \<longrightarrow>
    fst (m w) = r \<and> same_files u (snd (m w)) \<and> quiet (snd (m w)))"

named_theorems answers_intros \<open>symbolic evaluation without faults\<close>

lemma quiet_step [simp]: "quiet (step w) = quiet w"
  by (simp add: quiet_def step_def)

lemma same_files_stepped [simp]: "same_files u (step w) = same_files u w"
  by (simp add: same_files_def step_def)

lemma answersD: "answers u m r \<Longrightarrow> same_files u w \<Longrightarrow> quiet w \<Longrightarrow>
    \<exists>w'. m w = (r, w') \<and> same_files u w' \<and> quiet w'"
  unfolding answers_def by (metis prod.collapse)

lemma answersI: "(\<And>w. same_files u w \<Longrightarrow> quiet w \<Longrightarrow> \<exists>w'. m w = (r, w') \<and> same_files u w' \<and> quiet w') \<Longrightarrow> answers u m r"
  unfolding answers_def by fastforce

lemma answers_return [answers_intros]: "answers u (io_return x) (Inr x)"
  by (simp add: answers_def io_return_def)

lemma answers_require [answers_intros]: "c \<Longrightarrow> answers u (io_require c) (Inr ())"
  by (simp add: io_require_def answers_return)

lemma answers_require_euid [answers_intros]: "P (w_euid u) \<Longrightarrow> answers u (\<lambda>w. io_require (P (w_euid w)) w) (Inr ())"
  by (auto simp: answers_def io_require_def io_return_def same_files_def)

lemma answers_bind [answers_intros]: "answers u m (Inr x) \<Longrightarrow> answers u (f x) r \<Longrightarrow> answers u (io_bind m f) r"
  by (rule answersI) (fastforce dest!: answersD simp: io_bind_def)

lemma answers_bind_error: "answers u m (Inl e) \<Longrightarrow> answers u (io_bind m f) (Inl e)"
  by (rule answersI) (fastforce dest!: answersD simp: io_bind_def)

lemma answers_try [answers_intros]: "answers u m r \<Longrightarrow> answers u (io_try m) (Inr r)"
  by (rule answersI) (fastforce dest!: answersD simp: io_try_def)

lemma answers_defer [answers_intros]: "answers u m r \<Longrightarrow> answers u d s \<Longrightarrow> answers u (io_defer m d) r"
  by (rule answersI) (fastforce dest!: answersD simp: io_defer_def)

lemma answers_orUnavailable [answers_intros]: "answers u m (Inr x) \<Longrightarrow> answers u (orUnavailable m) (Inr x)"
  by (rule answersI) (fastforce dest!: answersD simp: orUnavailable_def)

lemma answers_closeOnError [answers_intros]: "answers u m (Inr x) \<Longrightarrow> answers u (closeOnError h m) (Inr x)"
  by (rule answersI) (fastforce dest!: answersD simp: closeOnError_def)

lemma answers_sys [answers_intros]: "answers u m r \<Longrightarrow> answers u (sys m) r"
  by (auto simp: answers_def sys_def quiet_def step_def same_files_def)

lemma answers_calls [answers_intros]:
  "answers u (Close h) (Inr ())" "answers u (Sync h) (Inr ())" "answers u releaseLock (Inr ())"
  "answers u ContextErr (Inr ())" "answers u (Stat h) (Inr (h, w_inodes u h))"
  "answers u (ReadUpTo h n) (Inr (take n (i_data (w_inodes u h))))"
proof -
  show "answers u (Close h) (Inr ())" "answers u (Sync h) (Inr ())" "answers u releaseLock (Inr ())"
    unfolding Close_def Sync_def releaseLock_def by (intro answers_intros)+
  show "answers u ContextErr (Inr ())"
    by (auto simp: answers_def ContextErr_def quiet_def step_def same_files_def)
  show "answers u (Stat h) (Inr (h, w_inodes u h))" "answers u (ReadUpTo h n) (Inr (take n (i_data (w_inodes u h))))"
    unfolding Stat_def ReadUpTo_def by (rule answers_sys, simp add: answers_def same_files_def)+
qed

lemma resolve_same:
  assumes "same_files u w"
  shows "resolve w f p = resolve u f p"
proof -
  have "node w = node u" "w_cwd w = w_cwd u" using assms by (auto simp: same_files_def node_def)
  then show ?thesis by (simp add: resolve_def)
qed

lemma answers_on_path:
  assumes "resolve u follow p = Inr q" "answers u (f q) r"
  shows "answers u (on_path follow p f) r"
proof -
  have "answers u (\<lambda>w. case resolve w follow p of Inl e \<Rightarrow> (Inl e, w) | Inr q \<Rightarrow> f q w) r"
  proof (rule answersI)
    fix w
    assume w: "same_files u w" "quiet w"
    have "resolve w follow p = Inr q" using resolve_same [OF w(1)] assms(1) by metis
    with answersD [OF assms(2) w]
    show "\<exists>w'. (case resolve w follow p of Inl e \<Rightarrow> (Inl e, w) | Inr q \<Rightarrow> f q w) = (r, w') \<and>
      same_files u w' \<and> quiet w'" by simp
  qed
  then show ?thesis unfolding on_path_def by (rule answers_sys)
qed

text \<open>Paths of the tree: a name that exists and is not a link, and a free name in a directory.\<close>

definition present :: "world \<Rightarrow> bytes list \<Rightarrow> nat \<Rightarrow> bool" where
  "present u q i \<longleftrightarrow> wf_world u \<and> list_all name_ok q \<and> w_names u q = Some i \<and>
    (\<forall>t. i_kind (w_inodes u i) \<noteq> NLink t)"

definition absent :: "world \<Rightarrow> bytes list \<Rightarrow> bytes \<Rightarrow> bool" where
  "absent u q c \<longleftrightarrow> wf_world u \<and> list_all name_ok q \<and> is_dir u q \<and> name_ok c \<and> w_names u (q @ [c]) = None"

lemma resolve_present:
  assumes "present u q i"
  shows "resolve u f (abs_path q) = Inr q"
proof (cases q rule: rev_cases)
  case Nil
  then show ?thesis by (simp add: resolve_def split_abs_path walk.simps)
next
  case (snoc d c)
  then have "is_dir u d" using assms wf_parent by (auto simp: present_def)
  with assms snoc show ?thesis
    using resolve_entry [of u d c f] by (auto simp: present_def node_def)
qed

lemma resolve_absent:
  assumes "absent u q c"
  shows "resolve u f (abs_path (q @ [c])) = Inr (q @ [c])"
  using assms resolve_entry [of u q c f] by (simp add: absent_def node_def)

lemma answers_Lstat: "present u q i \<Longrightarrow> answers u (Lstat (abs_path q)) (Inr (i, w_inodes u i))"
  unfolding Lstat_def
  by (rule answers_on_path [OF resolve_present], assumption) (simp add: answers_def same_files_def present_def)

lemma answers_Lstat_absent: "absent u q c \<Longrightarrow> answers u (Lstat (abs_path (q @ [c]))) (Inl NotExist)"
  unfolding Lstat_def
  by (rule answers_on_path [OF resolve_absent], assumption) (simp add: answers_def same_files_def absent_def)

lemma answers_Mkdir: "present u q i \<Longrightarrow> answers u (Mkdir (abs_path q) perm) (Inl Exist)"
  unfolding Mkdir_def
  by (rule answers_on_path [OF resolve_present], assumption) (simp add: answers_def same_files_def present_def)

lemma answers_OpenExclusive: "present u q i \<Longrightarrow> answers u (OpenExclusive (abs_path q) perm) (Inl Exist)"
  unfolding OpenExclusive_def
  by (rule answers_on_path [OF resolve_present], assumption) (simp add: answers_def same_files_def present_def)

lemma answers_OpenExisting:
  "present u q i \<Longrightarrow> i_kind (w_inodes u i) \<noteq> NDir \<Longrightarrow> answers u (OpenExisting writable (abs_path q)) (Inr i)"
  unfolding OpenExisting_def
  by (rule answers_on_path [OF resolve_present], assumption) (simp add: answers_def same_files_def present_def)

lemma answers_EvalSymlinks: "present u q i \<Longrightarrow> answers u (EvalSymlinks (abs_path q)) (Inr (abs_path q))"
  unfolding EvalSymlinks_def
  by (rule answers_on_path [OF resolve_present], assumption) (simp add: answers_def same_files_def present_def)

subsection \<open>Directories in order\<close>

definition dir_at :: "world \<Rightarrow> bytes list \<Rightarrow> bool" where
  "dir_at u q \<longleftrightarrow> wf_world u \<and> list_all name_ok q \<and> is_dir u q"

definition private_dir :: "perm \<Rightarrow> world \<Rightarrow> bytes list \<Rightarrow> bool" where
  "private_dir pmask u q \<longleftrightarrow> dir_at u q \<and>
    (\<forall>i. w_names u q = Some i \<longrightarrow> i_uid (w_inodes u i) = w_euid u \<and> i_perm (w_inodes u i) AND pmask = 0)"

lemma dir_present: "dir_at u q \<Longrightarrow> \<exists>i. present u q i \<and> i_kind (w_inodes u i) = NDir"
  by (auto simp: dir_at_def present_def is_dir_def node_def split: option.splits)

lemma dir_at_parent: "dir_at u (q @ [c]) \<Longrightarrow> dir_at u q"
proof -
  assume d: "dir_at u (q @ [c])"
  then obtain i where "w_names u (q @ [c]) = Some i" using dir_present [OF d] by (auto simp: present_def)
  with d show "dir_at u q" using wf_parent [of u q c i] by (simp add: dir_at_def)
qed

lemma dir_at_prefix: "dir_at u (q @ p) \<Longrightarrow> dir_at u q"
  by (induction p rule: rev_induct) (auto dest: dir_at_parent simp flip: append_assoc)

lemma answers_validateDirectory:
  assumes "dir_at u q"
  shows "answers u (validateDirectory (abs_path q)) (Inr ())"
proof -
  obtain i where i: "present u q i" "i_kind (w_inodes u i) = NDir" using dir_present [OF assms] by blast
  show ?thesis unfolding validateDirectory_def
    by (rule answers_bind [OF answers_orUnavailable [OF answers_Lstat [OF i(1)]]]) (simp add: i(2) answers_require)
qed

lemma answers_validatePrivate:
  assumes "private_dir pmask u q"
  shows "answers u (validatePrivateStateDirectory pmask (abs_path q)) (Inr ())"
proof -
  obtain i where i: "present u q i" "i_kind (w_inodes u i) = NDir"
    using dir_present [of u q] assms by (auto simp: private_dir_def)
  then have "i_uid (w_inodes u i) = w_euid u" "i_perm (w_inodes u i) AND pmask = 0"
    using assms by (auto simp: private_dir_def present_def)
  then have "answers u (\<lambda>w. io_require (i_kind (w_inodes u i) = NDir \<and>
      i_uid (w_inodes u i) = w_euid w \<and> i_perm (w_inodes u i) AND pmask = 0) w) (Inr ())"
    using i(2) by (intro answers_require_euid [where P = "\<lambda>e. i_kind (w_inodes u i) = NDir \<and>
      i_uid (w_inodes u i) = e \<and> i_perm (w_inodes u i) AND pmask = 0"]) simp
  then show ?thesis unfolding validatePrivateStateDirectory_def
    by (intro answers_bind [OF answers_orUnavailable [OF answers_Lstat [OF i(1)]]]) simp
qed

lemma answers_createPrivateDirectory:
  assumes "dir_at u q"
  shows "answers u (createPrivateDirectory (abs_path q)) (Inr False)"
proof -
  obtain i where i: "present u q i" using dir_present [OF assms] by blast
  show ?thesis unfolding createPrivateDirectory_def
    by (rule answers_bind [OF answers_try [OF answers_Mkdir [OF i]]]) (simp add: answers_return)
qed

lemma answers_ensure_components:
  assumes "dir_at u (q @ cs)"
  shows "answers u (ensure_components pmask a (abs_path q) cs created) (Inr created)"
  using assms
proof (induction cs arbitrary: q)
  case Nil
  then show ?case by (simp add: answers_return)
next
  case (Cons c cs)
  have ok: "list_all name_ok q" "name_ok c" using Cons.prems by (simp_all add: dir_at_def)
  then have j: "Join [abs_path q, c] = abs_path (q @ [c])" by (intro Join_abs_path) simp_all
  have d: "dir_at u (q @ [c])" using dir_at_prefix [of u "q @ [c]" cs] Cons.prems by simp
  have "answers u (ensure_components pmask a (abs_path (q @ [c])) cs created) (Inr created)"
    using Cons.IH [of "q @ [c]"] Cons.prems by simp
  then have "answers u (io_bind (createPrivateDirectory (abs_path (q @ [c]))) (\<lambda>cr.
      io_bind (if cr then validatePrivateStateDirectory pmask (abs_path (q @ [c])) else io_return ()) (\<lambda>_.
      io_bind (validateDirectory (abs_path (q @ [c]))) (\<lambda>_.
        ensure_components pmask a (abs_path (q @ [c])) cs (created \<or> cr \<and> samePath (abs_path (q @ [c])) a)))))
    (Inr created)"
    by (intro answers_bind [OF answers_createPrivateDirectory [OF d]]
        answers_bind [where m = "if False then _ else _"] answers_bind [OF answers_validateDirectory [OF d]])
      (simp_all add: answers_return)
  then show ?case using ok(2) j by (simp add: name_ok_def Let_def)
qed

lemma answers_privateDirectory:
  assumes "private_dir pmask u q"
  shows "answers u (privateDirectory pmask (abs_path q)) (Inr ())"
proof -
  have d: "dir_at u q" "list_all name_ok q" using assms by (simp_all add: private_dir_def dir_at_def)
  have root: "''/'' = abs_path []" by (simp add: abs_path_def)
  have rest: "answers u (io_bind (validateDirectory ''/'') (\<lambda>_.
      if r = ''.'' then io_return False else ensure_components pmask (abs_path q) ''/'' (split_slash r) False))
    (Inr False)" if "r = (if q = [] then ''.'' else join_slash q)" for r
  proof -
    have "q \<noteq> [] \<Longrightarrow> answers u (ensure_components pmask (abs_path q) (abs_path []) (split_slash r) False) (Inr False)"
      using answers_ensure_components [of u "[]" q] d split_join [OF _ name_ok_no_slash [OF d(2)]] that by simp
    moreover have "q = [] \<Longrightarrow> r = ''.''" using that by simp
    moreover have "dir_at u []" using dir_at_prefix [of u "[]" q] d by simp
    ultimately show ?thesis
      unfolding root by (intro answers_bind [OF answers_validateDirectory]) (auto simp: answers_return)
  qed
  have rel: "\<not> IsAbs (if q = [] then ''.'' else join_slash q)"
  proof (cases q)
    case (Cons c cs)
    then have "c \<noteq> []" "hd c \<noteq> CHR ''/''" using d(2) Cons by (cases c; auto simp: name_ok_def)+
    with Cons show ?thesis by (cases cs; cases c) (auto simp: IsAbs_def)
  qed (simp add: IsAbs_def)
  have "answers u (ensurePrivateDirectory pmask (abs_path q)) (Inr False)"
    unfolding ensurePrivateDirectory_def
    by (rule answers_bind [where x = "abs_path q"])
      (simp_all add: Abs_def d(2) answers_return Rel_root [OF d(2)] rel rest)
  then show ?thesis
    unfolding privateDirectory_def by (intro answers_intros answers_validatePrivate [OF assms])
qed

text \<open>No marker of a repository in the directory or above it.\<close>

definition outside_repository :: "world \<Rightarrow> bytes list \<Rightarrow> bool" where
  "outside_repository u q \<longleftrightarrow> (\<forall>k \<le> length q. \<forall>m \<in> {''repo-passport.yml'', ''.git''}.
    w_names u (take k q @ [m]) = None)"

lemma answers_any_marker:
  assumes "dir_at u q" "\<forall>m \<in> set ms. name_ok m \<and> w_names u (q @ [m]) = None"
  shows "answers u (any_marker (abs_path q) ms) (Inr False)"
  using assms(2)
proof (induction ms)
  case (Cons m ms)
  have q: "list_all name_ok q" "absent u q m" using assms(1) Cons.prems by (simp_all add: dir_at_def absent_def)
  then have j: "Join [abs_path q, m] = abs_path (q @ [m])" using Cons.prems by (intro Join_abs_path) simp_all
  have "answers u (any_marker (abs_path q) ms) (Inr False)" using Cons by simp
  then show ?case
    unfolding any_marker.simps j by (intro answers_bind [OF answers_try [OF answers_Lstat_absent [OF q(2)]]]) simp
qed (simp add: answers_return)

lemma answers_climb:
  assumes "dir_at u q" "outside_repository u q"
  shows "answers u (climb_markers (rev q)) (Inr False)"
  using assms
proof (induction q rule: rev_induct)
  case Nil
  then have m: "answers u (any_marker (abs_path (rev (rev []))) [''repo-passport.yml'', ''.git'']) (Inr False)"
    by (intro answers_any_marker) (auto simp: outside_repository_def name_ok_def)
  show ?case by (subst climb_markers.simps, rule answers_bind [OF m]) (simp add: answers_return)
next
  case (snoc c q)
  have "outside_repository u q"
    unfolding outside_repository_def
  proof (intro allI impI)
    fix k
    assume "k \<le> length q"
    then have "k \<le> length (q @ [c])" "take k (q @ [c]) = take k q" by simp_all
    with snoc.prems(2) show "\<forall>m \<in> {''repo-passport.yml'', ''.git''}. w_names u (take k q @ [m]) = None"
      unfolding outside_repository_def by metis
  qed
  then have up: "answers u (climb_markers (rev q)) (Inr False)" using snoc dir_at_parent by blast
  have m: "answers u (any_marker (abs_path (rev (rev (q @ [c])))) [''repo-passport.yml'', ''.git'']) (Inr False)"
    using snoc.prems
    by (intro answers_any_marker) (auto simp: outside_repository_def name_ok_def dest: spec [of _ "length (q @ [c])"])
  from up show ?case
    by (subst climb_markers.simps, intro answers_bind [OF m]) simp
qed

lemma answers_dataRootPath:
  assumes "dir_at u q" "outside_repository u q" "\<not> containsNUL (abs_path q)"
  shows "answers u (dataRootPath (abs_path q)) (Inr (abs_path q))"
proof -
  have ok: "list_all name_ok q" using assms(1) by (simp add: dir_at_def)
  have "answers u (repositoryLocal (abs_path q)) (Inr False)"
    using answers_climb [OF assms(1,2)] ok by (simp add: repositoryLocal_def)
  then have "answers u (io_bind (repositoryLocal (abs_path q)) (\<lambda>local.
      if local then io_fail ErrUnavailable else io_return (abs_path q))) (Inr (abs_path q))"
    by (rule answers_bind) (simp add: answers_return)
  then have "answers u (io_bind (Abs (abs_path q)) (\<lambda>a. if \<not> safeNativePath a then io_fail ErrUnavailable
      else io_bind (repositoryLocal a) (\<lambda>local. if local then io_fail ErrUnavailable else io_return a)))
    (Inr (abs_path q))"
    using ok assms(3) by (intro answers_bind [where x = "abs_path q"])
      (simp_all add: Abs_def answers_return safeNativePath_def safeNativeInput_def)
  then show ?thesis
    unfolding dataRootPath_def using assms(3) by (intro answers_orUnavailable) (simp add: safeNativeInput_def)
qed

lemma answers_confirmRoot:
  assumes "dir_at u q"
  shows "answers u (confirmRoot (abs_path q)) (Inr (abs_path q))"
proof -
  obtain i where "present u q i" using dir_present [OF assms] by blast
  then have e: "answers u (orUnavailable (EvalSymlinks (abs_path q))) (Inr (abs_path q))"
    by (intro answers_orUnavailable answers_EvalSymlinks)
  have "answers u (io_bind (io_require (samePath (abs_path q) (abs_path q))) (\<lambda>_. io_return (abs_path q)))
      (Inr (abs_path q))"
    by (rule answers_bind [OF answers_require answers_return]) (simp add: samePath_def)
  then show ?thesis unfolding confirmRoot_def by (intro answers_bind [OF e])
qed

subsection \<open>Files in order\<close>

definition private_file :: "world \<Rightarrow> bytes list \<Rightarrow> nat \<Rightarrow> bool" where
  "private_file u q i \<longleftrightarrow> present u q i \<and> i_kind (w_inodes u i) = NFile \<and> i_perm (w_inodes u i) AND 0x3F = 0 \<and>
    i_nlink (w_inodes u i) = 1 \<and> i_uid (w_inodes u i) = w_euid u"

lemma answers_validateOpened:
  assumes "private_file u q i"
  shows "answers u (validateOpenedRegularFile i (abs_path q) single) (Inr ())"
proof -
  have p: "present u q i" "i_kind (w_inodes u i) = NFile" "i_perm (w_inodes u i) AND 0x3F = 0"
    using assms by (simp_all add: private_file_def)
  have "answers u (\<lambda>w. io_require (single \<longrightarrow> i_nlink (w_inodes u i) = 1 \<and> i_uid (w_inodes u i) = w_euid w) w) (Inr ())"
    using assms by (intro answers_require_euid
        [where P = "\<lambda>e. single \<longrightarrow> i_nlink (w_inodes u i) = 1 \<and> i_uid (w_inodes u i) = e"]) (simp add: private_file_def)
  then have rest: "answers u (io_bind (\<lambda>w. io_require (single \<longrightarrow> i_nlink (w_inodes u i) = 1 \<and>
      i_uid (w_inodes u i) = w_euid w) w) (\<lambda>_. io_bind (EvalSymlinks (abs_path q)) (\<lambda>actual.
      io_require (samePath (abs_path q) actual)))) (Inr ())"
    by (rule answers_bind) (intro answers_bind [OF answers_EvalSymlinks [OF p(1)]], simp add: samePath_def answers_require)
  show ?thesis
    unfolding validateOpenedRegularFile_def
    by (intro answers_orUnavailable answers_bind [OF answers_calls(5)])
      (simp add: p, intro answers_bind [OF answers_require [OF TrueI]] answers_bind [OF answers_Lstat [OF p(1)]],
        simp add: p, intro answers_bind [OF answers_require [OF TrueI]] rest [simplified])
qed

lemma answers_openLock:
  assumes "private_file u q i"
  shows "answers u (openLock (abs_path q)) (Inr i)"
proof -
  have p: "present u q i" "i_kind (w_inodes u i) \<noteq> NDir" using assms by (simp_all add: private_file_def)
  have "answers u (createPrivateLock (abs_path q)) (Inr None)"
    unfolding createPrivateLock_def
    by (rule answers_bind [OF answers_try [OF answers_OpenExclusive [OF p(1)]]]) (simp add: answers_return)
  moreover have "answers u (openExistingPrivateLock (abs_path q)) (Inr i)"
    unfolding openExistingPrivateLock_def by (rule answers_OpenExisting [OF p])
  ultimately show ?thesis
    unfolding openLock_def
    by (intro answers_bind [where x = None] answers_bind [where x = i] answers_bind [where x = "()"]
        answers_closeOnError answers_validateOpened [OF assms] answers_return) simp_all
qed

lemma answers_acquireLock: "answers u (acquireLock h timeout) (Inr ())"
  unfolding acquireLock_def
  by (rule answers_bind [OF answers_calls(4)])
    (auto simp: answers_def lock_loop.simps quiet_def step_def same_files_def)

lemma answers_readRecord:
  assumes "private_file u q i" "length (i_data (w_inodes u i)) \<le> limit" "dec (i_data (w_inodes u i)) = Some v"
  shows "answers u (readRecord limit dec (abs_path q)) (Inr (Some v))"
proof -
  have p: "present u q i" "i_kind (w_inodes u i) = NFile" "i_kind (w_inodes u i) \<noteq> NDir"
    using assms(1) by (simp_all add: private_file_def)
  have "answers u (readBounded i limit) (Inr (i_data (w_inodes u i)))"
    unfolding readBounded_def using assms(2)
    by (intro answers_bind [OF answers_orUnavailable [OF answers_calls(6)]]) (simp add: answers_bind [OF answers_require] answers_return)
  then have "answers u (readOpened limit dec i (abs_path q)) (Inr (Some v))"
    unfolding readOpened_def
    by (intro answers_bind [OF answers_validateOpened [OF assms(1)]], elim answers_bind) (simp add: assms(3) answers_return)
  then show ?thesis
    unfolding readRecord_def
    by (intro answers_bind [OF answers_try [OF answers_Lstat [OF p(1)]]])
      (simp add: p, intro answers_bind [OF answers_require [OF TrueI]] answers_bind [OF answers_OpenExisting [OF p(1,3)]]
        answers_defer [OF _ answers_calls(1)])
qed

text \<open>The frame of an observation that returns from the comparison.\<close>

lemma answers_underLock:
  assumes root: "answers u stateRoot (Inr (abs_path d))" and ok: "list_all name_ok d"
    "name_ok (name @ ''.lock'')" "name_ok (name @ ''.json'')"
    and lock: "private_file u (d @ [name @ ''.lock'']) i"
    and body: "answers u (body (abs_path d) (abs_path (d @ [name @ ''.json'']))) r"
  shows "answers u (underLock stateRoot name body) r"
proof -
  have j: "Join [abs_path d, name @ ''.lock''] = abs_path (d @ [name @ ''.lock''])"
    "Join [abs_path d, name @ ''.json''] = abs_path (d @ [name @ ''.json''])"
    using ok by (auto intro: Join_abs_path)
  have "answers u (io_bind (acquireLock i lockTimeout) (\<lambda>_.
      io_defer (body (abs_path d) (abs_path (d @ [name @ ''.json'']))) releaseLock)) r"
    by (rule answers_bind [OF answers_acquireLock], rule answers_defer [OF body answers_calls(3)])
  then have inner: "answers u (io_defer (io_bind (acquireLock i lockTimeout) (\<lambda>_.
      io_defer (body (abs_path d) (Join [abs_path d, name @ ''.json''])) releaseLock)) (Close i)) r"
    unfolding j by (rule answers_defer [OF _ answers_calls(1)])
  have opened: "answers u (openLock (Join [abs_path d, name @ ''.lock''])) (Inr i)"
    unfolding j by (rule answers_openLock [OF lock])
  have f: "answers u (io_bind (openLock (Join [abs_path d, name @ ''.lock''])) (\<lambda>lock.
      io_defer (io_bind (acquireLock lock lockTimeout) (\<lambda>_.
        io_defer (body (abs_path d) (Join [abs_path d, name @ ''.json''])) releaseLock)) (Close lock))) r"
    by (rule answers_bind [OF opened], rule inner)
  show ?thesis unfolding underLock_def by (rule answers_bind [OF root], rule f)
qed

lemma answers_compare:
  assumes "answers u rd (Inr stored)" "early stored = Some res"
  shows "answers u (compareAndStore rd early wrt success failure) (Inr res)"
  unfolding compareAndStore_def
  by (rule answers_bind [OF assms(1)]) (simp add: assms(2) answers_return)

end
