(* ===== verification/Codec_Size.thy ===== *)
theory Codec_Size
  imports Fault_Free
begin

section \<open>Every valid record fits its file\<close>

text \<open>
  The stores refuse to write a record whose canonical bytes exceed the limit of the package.  The
  bounds below show that this never happens to a record that passes the field checks: its strings
  are short and printable and its numbers have at most twenty digits.
\<close>

definition short_scalar :: "goany \<Rightarrow> bool" where
  "short_scalar v \<longleftrightarrow> (case v of AString s \<Rightarrow> printable s \<and> length s \<le> 71
     | AInt k i \<Rightarrow> 0 \<le> i \<and> i < 10 ^ 20 | _ \<Rightarrow> False)"

lemma marshalRecord_bound: "marshalRecord limit ms = Some raw \<Longrightarrow> length raw \<le> limit"
  by (auto simp: marshalRecord_def split: sum.splits if_splits)

lemma length_dec_nat: "n < 10 ^ Suc k \<Longrightarrow> length (dec_nat n) \<le> Suc k"
proof (induction k arbitrary: n)
  case (Suc k)
  show ?case
  proof (cases "n < 10")
    case False
    have "n div 10 < 10 ^ Suc k" using Suc.prems by (simp add: div_less_iff_less_mult)
    with Suc.IH [of "n div 10"] False show ?thesis by (subst dec_nat.simps) simp
  qed simp
qed simp

lemma length_quote: "printable s \<Longrightarrow> length (quote False s) \<le> 2 * length s + 2"
proof -
  have "printable s \<Longrightarrow> length (quote_body False s) \<le> 2 * length s"
    by (induction s) (auto simp: esc_ascii_def Let_def)
  then show "printable s \<Longrightarrow> length (quote False s) \<le> 2 * length s + 2" by (simp add: quote_def)
qed

lemma length_commas: "(\<forall>x \<in> set xs. length x < b) \<Longrightarrow> length (commas xs) \<le> length xs * b"
  by (induction xs rule: commas.induct) auto

lemma length_scalar: "short_scalar v \<Longrightarrow> length (json_encode False (scalar_json v)) \<le> 144"
proof (cases v)
  case (AInt k i)
  assume "short_scalar v"
  then have "nat i < 10 ^ Suc 19" "0 \<le> i" using AInt by (auto simp: short_scalar_def)
  then have "length (dec_int i) \<le> 20" using length_dec_nat [of "nat i" 19] by (simp add: dec_int_def)
  then show ?thesis using AInt by simp
qed (auto simp: short_scalar_def dest: length_quote)

lemma length_map_put: "length (map_put k v m) \<le> Suc (length m)"
  by (induction k v m rule: map_put.induct) auto

lemma length_go_map: "length (go_map ms) \<le> length ms"
proof (induction ms rule: rev_induct)
  case (snoc m ms)
  obtain k v where "m = (k, v)" by force
  with snoc length_map_put [of k v "go_map ms"] show ?case by (simp add: go_map_def)
qed (simp add: go_map_def)

lemma marshalRecord_fits:
  assumes flat: "flat_fields fs ms" and size: "2 + 250 * length ms \<le> limit"
    and short: "\<forall>(k, v) \<in> set ms. printable k \<and> length k \<le> 50 \<and> short_scalar v"
  shows "\<exists>raw. marshalRecord limit ms = Some raw"
proof -
  let ?item = "\<lambda>(k, v). quote False k @ CHR '':'' # json_encode False v"
  have "length (?item m) < 250" if "m \<in> set (flat_doc ms)" for m
  proof -
    have "m \<in> set (map (\<lambda>(k, v). (k, scalar_json v)) ms)"
      using that go_map_sub unfolding flat_doc_def by blast
    then obtain k v where kv: "m = (k, scalar_json v)" "(k, v) \<in> set ms"
      by auto
    then have "length (quote False k) \<le> 102" "length (json_encode False (scalar_json v)) \<le> 144"
      using short length_quote [of k] length_scalar [of v] by auto
    with kv(1) show ?thesis by simp
  qed
  then have "length (commas (map ?item (flat_doc ms))) \<le> length (flat_doc ms) * 250"
    using length_commas [of "map ?item (flat_doc ms)" 250] by auto
  also have "\<dots> \<le> length ms * 250"
    using length_go_map [of "map (\<lambda>(k, v). (k, scalar_json v)) ms"] by (simp add: flat_doc_def)
  finally have "length (json_encode False (JObj (flat_doc ms))) \<le> limit" using size by simp
  then show ?thesis by (simp add: marshalRecord_def Marshal_flat [OF flat] del: json_encode.simps)
qed

end
