(* ===== verification/Trust_State.thy ===== *)
theory Trust_State
  imports State_Codec
begin

section \<open>Monotonic trust-policy state (\<^verbatim>\<open>internal/truststate\<close>)\<close>

text \<open>
  One record per authority key: the highest policy generation seen and the digest of that policy.
  \<open>Observe\<close> compares an authenticated policy with the record and initialises, confirms or
  advances it.  The inductive relation \<open>register\<close> is the specification of one observation as
  a transition of the stored record; the refinement theorem shows that every run of \<open>Observe\<close>,
  including those in which a system call fails, is such a transition.
\<close>

subsection \<open>Model\<close>

definition maxStateBytes :: nat where [go_const]: "maxStateBytes = 4096"

type_synonym Evaluation = bytes

definition EvaluationInitialized :: Evaluation where [go_const]: "EvaluationInitialized = ''initialized''"
definition EvaluationMatched :: Evaluation where [go_const]: "EvaluationMatched = ''matched''"
definition EvaluationAdvanced :: Evaluation where [go_const]: "EvaluationAdvanced = ''advanced''"
definition EvaluationRollbackRejected :: Evaluation where
  [go_const]: "EvaluationRollbackRejected = ''rollback-rejected''"
definition EvaluationEquivocationRejected :: Evaluation where
  [go_const]: "EvaluationEquivocationRejected = ''equivocation-rejected''"
definition EvaluationUnavailable :: Evaluation where [go_const]: "EvaluationUnavailable = ''unavailable''"

definition ErrGenerationRollback :: bytes where
  [go_const]: "ErrGenerationRollback = ''state-generation-rollback''"
definition ErrGenerationEquivocation :: bytes where
  [go_const]: "ErrGenerationEquivocation = ''state-generation-equivocation''"
definition ErrStateUnavailable :: bytes where
  [go_const]: "ErrStateUnavailable = ''state-unavailable''"

record Result =
  res_Evaluation :: Evaluation
  res_Generation :: nat

record state_record =
  sr_AuthorityKeyID :: bytes
  sr_Generation :: nat
  sr_PolicyDigest :: bytes
  sr_SchemaVersion :: bytes

definition record_fields :: "(bytes \<times> field_kind) list" where
  "record_fields = [(''authorityKeyId'', KString), (''generation'', KUint64), (''policyDigest'', KString),
    (''schemaVersion'', KString)]"

definition record_members :: "state_record \<Rightarrow> (bytes \<times> goany) list" where
  "record_members r = [(''authorityKeyId'', AString (sr_AuthorityKeyID r)),
     (''generation'', AInt GoUint64 (int (sr_Generation r))),
     (''policyDigest'', AString (sr_PolicyDigest r)), (''schemaVersion'', AString (sr_SchemaVersion r))]"

definition record_of_env :: "struct_env \<Rightarrow> state_record" where
  "record_of_env e = \<lparr>sr_AuthorityKeyID = str_field e ''authorityKeyId'',
     sr_Generation = uint_field e ''generation'', sr_PolicyDigest = str_field e ''policyDigest'',
     sr_SchemaVersion = str_field e ''schemaVersion''\<rparr>"

definition validKeyID :: "bytes \<Rightarrow> bool" where
  "validKeyID value \<longleftrightarrow> validDigest value"

definition valid_record :: "state_record \<Rightarrow> bool" where
  "valid_record v \<longleftrightarrow> sr_SchemaVersion v = ''1'' \<and> sr_Generation v \<noteq> 0 \<and> sr_Generation v \<le> maxGeneration \<and>
    validKeyID (sr_AuthorityKeyID v) \<and> validKeyID (sr_PolicyDigest v)"

definition canonicalRecord :: "state_record \<Rightarrow> bytes option" where
  "canonicalRecord v = (if \<not> valid_record v then None else marshalRecord maxStateBytes (record_members v))"

definition decodeRecord :: "bytes \<Rightarrow> state_record option" where
  "decodeRecord raw =
    (case decodeStrict maxStateBytes record_fields raw of
       None \<Rightarrow> None
     | Some e \<Rightarrow>
         let v = record_of_env e in
         if \<not> valid_record v then None
         else if canonicalRecord v \<noteq> Some raw then None else Some v)"

definition unavailable :: "nat \<Rightarrow> Result \<times> bytes option" where
  "unavailable generation =
    (\<lparr>res_Evaluation = EvaluationUnavailable, res_Generation = generation\<rparr>, Some ErrStateUnavailable)"

definition stateRoot :: "bytes \<Rightarrow> bytes io" where
  "stateRoot dataRoot = io_bind (dataRootPath dataRoot) (\<lambda>absolute.
     io_bind ContextErr (\<lambda>_.
     io_bind (privateDirectory 0x12 absolute) (\<lambda>_.
     let stateParent = Join [absolute, ''trust-policy-state''] in
     io_bind (privateDirectory 0x12 stateParent) (\<lambda>_.
     let root = Join [stateParent, ''v1''] in
     io_bind (privateDirectory 0x12 root) (\<lambda>_. confirmRoot root)))))"

definition writeAndVerifyRecord :: "bytes \<Rightarrow> bytes \<Rightarrow> state_record \<Rightarrow> unit io" where
  "writeAndVerifyRecord directory target v =
    (case canonicalRecord v of
       None \<Rightarrow> io_fail ErrUnavailable
     | Some raw \<Rightarrow>
         io_bind (CreateTemp directory ''.repopass-trust-state-'') (\<lambda>(h, temporaryPath).
           io_defer (io_bind (closeOnError h (Chmod h 0x180)) (\<lambda>_.
             publish maxStateBytes decodeRecord directory target h temporaryPath v raw))
             (Remove temporaryPath)))"

text \<open>An observation, the comparison with the stored record and the record it would store.\<close>

record observation =
  ob_AuthorityKeyID :: bytes
  ob_Generation :: nat
  ob_PolicyDigest :: bytes

definition compareStored :: "observation \<Rightarrow> state_record option \<Rightarrow> (Result \<times> bytes option) option" where
  "compareStored x stored =
    (case stored of
       None \<Rightarrow> None
     | Some s \<Rightarrow>
         if sr_AuthorityKeyID s \<noteq> ob_AuthorityKeyID x then Some (unavailable (sr_Generation s))
         else if ob_Generation x < sr_Generation s
         then Some (\<lparr>res_Evaluation = EvaluationRollbackRejected, res_Generation = sr_Generation s\<rparr>,
           Some ErrGenerationRollback)
         else if ob_Generation x = sr_Generation s \<and> ob_PolicyDigest x \<noteq> sr_PolicyDigest s
         then Some (\<lparr>res_Evaluation = EvaluationEquivocationRejected, res_Generation = sr_Generation s\<rparr>,
           Some ErrGenerationEquivocation)
         else if ob_Generation x = sr_Generation s
         then Some (\<lparr>res_Evaluation = EvaluationMatched, res_Generation = sr_Generation s\<rparr>, None)
         else None)"

definition next_record :: "observation \<Rightarrow> state_record" where
  "next_record x = \<lparr>sr_AuthorityKeyID = ob_AuthorityKeyID x, sr_Generation = ob_Generation x,
     sr_PolicyDigest = ob_PolicyDigest x, sr_SchemaVersion = ''1''\<rparr>"

definition stored_result :: "observation \<Rightarrow> state_record option \<Rightarrow> Result \<times> bytes option" where
  "stored_result x stored =
    (\<lparr>res_Evaluation = (case stored of None \<Rightarrow> EvaluationInitialized | Some _ \<Rightarrow> EvaluationAdvanced),
      res_Generation = ob_Generation x\<rparr>, None)"

definition failed_result :: "state_record option \<Rightarrow> Result \<times> bytes option" where
  "failed_result stored = unavailable (case stored of None \<Rightarrow> 0 | Some s \<Rightarrow> sr_Generation s)"

definition Observe :: "bytes \<Rightarrow> observation \<Rightarrow> world \<Rightarrow> (Result \<times> bytes option) \<times> world" where
  "Observe dataRoot x w =
    (if \<not> validKeyID (ob_AuthorityKeyID x) \<or> \<not> validKeyID (ob_PolicyDigest x) \<or> ob_Generation x = 0
        \<or> ob_Generation x > maxGeneration
     then (unavailable 0, w)
     else returning (unavailable 0)
       (underLock (stateRoot dataRoot) (trim_prefix (ob_AuthorityKeyID x) ''sha256:'') (\<lambda>root statePath.
          compareAndStore (readRecord maxStateBytes decodeRecord statePath) (compareStored x)
            (writeAndVerifyRecord root statePath (next_record x)) (stored_result x) failed_result)) w)"

subsection \<open>The codec\<close>

lemma trust_record_members_flat:
  assumes "valid_record v"
  shows "flat_fields record_fields (record_members v)"
    "\<forall>(k, x) \<in> set (record_members v). printable k \<and> scalar_printable x"
proof -
  have p: "printable (sr_AuthorityKeyID v)" "printable (sr_PolicyDigest v)" "sr_SchemaVersion v = ''1''"
    and g: "int (sr_Generation v) < 2 ^ 64"
    using assms printable_validDigest maxGeneration_uint64 by (simp_all add: valid_record_def validKeyID_def)
  have "printable (sr_SchemaVersion v)" using p(3) by simp
  with p g show "flat_fields record_fields (record_members v)"
    using printable_utf8
    by (simp add: flat_fields_def record_fields_def record_members_def del: valid_utf8.simps)
  show "\<forall>(k, x) \<in> set (record_members v). printable k \<and> scalar_printable x"
    using p by (simp add: record_members_def)
qed

lemma trust_record_members_env: "record_of_env (codec_env record_fields (record_members v)) = v"
  by (simp add: record_of_env_def codec_env_def record_members_def struct_field_defs)

lemma trust_canonicalRecord_valid: "canonicalRecord v = Some raw \<Longrightarrow> valid_record v"
  by (auto simp: canonicalRecord_def split: if_splits)

lemma trust_decode_canonicalRecord:
  assumes "canonicalRecord v = Some raw"
  shows "decodeRecord raw = Some v"
proof -
  have v: "valid_record v" using assms by (rule trust_canonicalRecord_valid)
  then have "marshalRecord maxStateBytes (record_members v) = Some raw"
    using assms by (simp add: canonicalRecord_def)
  from decodeStrict_marshalRecord [OF trust_record_members_flat [OF v] this] assms v show ?thesis
    by (simp add: decodeRecord_def trust_record_members_env Let_def)
qed

definition below :: "state_record \<Rightarrow> state_record \<Rightarrow> bool" where
  "below r s \<longleftrightarrow> sr_AuthorityKeyID r = sr_AuthorityKeyID s \<and> (sr_Generation r < sr_Generation s \<or> r = s)"

interpretation trust: monotonic_store canonicalRecord decodeRecord below next_record compareStored
proof
  show "canonicalRecord v = Some raw \<Longrightarrow> decodeRecord raw = Some v" for v raw
    by (rule trust_decode_canonicalRecord)
  show "decodeRecord raw = Some v \<Longrightarrow> canonicalRecord v = Some raw" for raw v
    by (auto simp: decodeRecord_def Let_def split: option.splits if_splits)
  show "below r s \<Longrightarrow> below s t \<Longrightarrow> below r t" for r s t
    by (auto simp: below_def)
  show "compareStored x (Some s) = None \<Longrightarrow> below s (next_record x)" for x s
    by (auto simp: compareStored_def below_def next_record_def split: if_splits)
qed (auto simp: decodeRecord_def below_def)


subsection \<open>Refinement\<close>

inductive register ::
  "observation \<Rightarrow> state_record option \<Rightarrow> Result \<times> bytes option \<Rightarrow> state_record option \<Rightarrow> bool"
  for x :: observation where
  refused: "g = 0 \<or> old = Some s \<and> g = sr_Generation s \<Longrightarrow> register x old (unavailable g) old"
| unconfirmed_first: "register x None (unavailable 0) (Some (next_record x))"
| unconfirmed: "sr_AuthorityKeyID s = ob_AuthorityKeyID x \<Longrightarrow> sr_Generation s < ob_Generation x \<Longrightarrow>
    register x (Some s) (unavailable (sr_Generation s)) (Some (next_record x))"
| initialized: "register x None
    (\<lparr>res_Evaluation = EvaluationInitialized, res_Generation = ob_Generation x\<rparr>, None) (Some (next_record x))"
| advanced: "sr_AuthorityKeyID s = ob_AuthorityKeyID x \<Longrightarrow> sr_Generation s < ob_Generation x \<Longrightarrow>
    register x (Some s)
      (\<lparr>res_Evaluation = EvaluationAdvanced, res_Generation = ob_Generation x\<rparr>, None) (Some (next_record x))"
| matched: "sr_AuthorityKeyID s = ob_AuthorityKeyID x \<Longrightarrow> sr_Generation s = ob_Generation x \<Longrightarrow>
    sr_PolicyDigest s = ob_PolicyDigest x \<Longrightarrow>
    register x (Some s)
      (\<lparr>res_Evaluation = EvaluationMatched, res_Generation = sr_Generation s\<rparr>, None) (Some s)"
| rollback: "sr_AuthorityKeyID s = ob_AuthorityKeyID x \<Longrightarrow> ob_Generation x < sr_Generation s \<Longrightarrow>
    register x (Some s)
      (\<lparr>res_Evaluation = EvaluationRollbackRejected, res_Generation = sr_Generation s\<rparr>,
       Some ErrGenerationRollback) (Some s)"
| equivocation: "sr_AuthorityKeyID s = ob_AuthorityKeyID x \<Longrightarrow> sr_Generation s = ob_Generation x \<Longrightarrow>
    sr_PolicyDigest s \<noteq> ob_PolicyDigest x \<Longrightarrow>
    register x (Some s)
      (\<lparr>res_Evaluation = EvaluationEquivocationRejected, res_Generation = sr_Generation s\<rparr>,
       Some ErrGenerationEquivocation) (Some s)"

definition state_dir :: "world \<Rightarrow> bytes \<Rightarrow> bytes list" where
  "state_dir w dataRoot = abs_comps w dataRoot @ [''trust-policy-state'', ''v1'']"

definition state_file :: "world \<Rightarrow> bytes \<Rightarrow> bytes \<Rightarrow> bytes list" where
  "state_file w dataRoot keyID = state_dir w dataRoot @ [trim_prefix keyID ''sha256:'' @ ''.json'']"

lemma trust_finds_stateRoot: "finds_root (stateRoot dataRoot) (\<lambda>w. state_dir w dataRoot)"
  unfolding state_dir_def
proof (rule finds_rootI [where rootOf = "\<lambda>a. Join [Join [a, ''trust-policy-state''], ''v1'']"])
  show "stateRoot dataRoot = io_bind (dataRootPath dataRoot) (\<lambda>absolute.
      io_bind (io_bind ContextErr (\<lambda>_. io_bind (privateDirectory 0x12 absolute) (\<lambda>_.
        io_bind (privateDirectory 0x12 (Join [absolute, ''trust-policy-state''])) (\<lambda>_.
          privateDirectory 0x12 (Join [Join [absolute, ''trust-policy-state''], ''v1''])))))
      (\<lambda>_. confirmRoot (Join [Join [absolute, ''trust-policy-state''], ''v1''])))"
    by (simp add: stateRoot_def io_bind_assoc Let_def)
qed (auto simp: name_ok_def intro!: keeps_intros)

lemma trust_writes_next:
  assumes "list_all name_ok d" "d \<noteq> []" "name_ok n" "\<not> has_prefix n ''.repopass-trust-state-''"
  shows "writes_record (writeAndVerifyRecord (abs_path d) (abs_path (d @ [n])) v) d n
    ''.repopass-trust-state-'' decodeRecord v"
  unfolding writeAndVerifyRecord_def
  by (rule trust.writes_staged [OF assms(1,3,4) makes_CreateTemp [OF assms(2,1)] Chmod_private])
    (simp add: temp_prefix_def)

lemma trust_Observe_outcome:
  assumes wf: "wf_world w" and valid: "validKeyID (ob_AuthorityKeyID x)"
    and run: "underLock (stateRoot dataRoot) (trim_prefix (ob_AuthorityKeyID x) ''sha256:'') (\<lambda>root statePath.
          compareAndStore (readRecord maxStateBytes decodeRecord statePath) (compareStored x)
            (writeAndVerifyRecord root statePath (next_record x)) (stored_result x) failed_result) w = (r, w')"
  shows "evolves ({state_file w dataRoot (ob_AuthorityKeyID x)}
      \<union> temps (state_dir w dataRoot) ''.repopass-trust-state-'') w w' \<and>
    store_outcome (compareStored x) (stored_result x) failed_result (next_record x)
      (record_at decodeRecord (state_file w dataRoot (ob_AuthorityKeyID x)) w) r
      (record_at decodeRecord (state_file w dataRoot (ob_AuthorityKeyID x)) w')"
proof -
  obtain h where h: "ob_AuthorityKeyID x = ''sha256:'' @ h" "length h = 64" "list_all is_lower_hex h"
    using valid digest_hex by (auto simp: validKeyID_def)
  have t: "trim_prefix (ob_AuthorityKeyID x) ''sha256:'' = h" by (simp only: h(1) trim_prefix_append)
  show ?thesis
    using trust.observe_outcome [OF wf trust_finds_stateRoot _ _ _ reads_record_plain trust_writes_next run]
      hex_name_ok [OF h(3,2)] hex_not_hidden [OF h(3,2)]
    by (simp add: state_file_def t)
qed

lemma trust_register_compare:
  assumes "compareStored x old = Some res"
  shows "register x old res old"
proof -
  obtain s where s: "old = Some s" using assms by (cases old) (auto simp: compareStored_def)
  show ?thesis
    using assms unfolding s compareStored_def
    by (auto split: if_splits intro!: register.intros)
qed

lemma trust_register_outcome:
  assumes "store_outcome (compareStored x) (stored_result x) failed_result (next_record x) old r new"
  shows "register x old (case r of Inl _ \<Rightarrow> unavailable 0 | Inr res \<Rightarrow> res) new"
proof (cases "\<exists>res. r = Inr res \<and> compareStored x old = None")
  case True
  then obtain res where res: "r = Inr res" "compareStored x old = None" by blast
  then have out: "res = stored_result x old \<and> new = Some (next_record x) \<or>
      res = failed_result old \<and> (new = old \<or> new = Some (next_record x))"
    using assms by (simp add: store_outcome_def)
  have room: "old = None \<or> (\<exists>s. old = Some s \<and> sr_AuthorityKeyID s = ob_AuthorityKeyID x \<and>
      sr_Generation s < ob_Generation x)"
    using res(2) by (cases old) (auto simp: compareStored_def split: if_splits)
  from out show ?thesis
  proof
    assume "res = stored_result x old \<and> new = Some (next_record x)"
    with room res show ?thesis
      by (auto simp: stored_result_def intro: register.initialized register.advanced)
  next
    assume "res = failed_result old \<and> (new = old \<or> new = Some (next_record x))"
    with room res show ?thesis
      by (auto simp: failed_result_def intro: register.refused register.unconfirmed register.unconfirmed_first)
  qed
next
  case False
  with assms show ?thesis
    by (auto simp: store_outcome_def split: sum.splits option.splits
        intro: trust_register_compare register.refused)
qed

abbreviation stored :: "world \<Rightarrow> bytes \<Rightarrow> bytes \<Rightarrow> world \<Rightarrow> state_record option" where
  "stored w0 dataRoot keyID w \<equiv> record_at decodeRecord (state_file w0 dataRoot keyID) w"

lemma trust_Observe_frame:
  assumes "wf_world w" "Observe dataRoot x w = (res, w')"
  shows "evolves ({state_file w dataRoot (ob_AuthorityKeyID x)}
      \<union> temps (state_dir w dataRoot) ''.repopass-trust-state-'') w w' \<and>
    (\<exists>r. res = (case r of Inl _ \<Rightarrow> unavailable 0 | Inr y \<Rightarrow> y) \<and>
      store_outcome (compareStored x) (stored_result x) failed_result (next_record x)
        (stored w dataRoot (ob_AuthorityKeyID x) w) r (stored w dataRoot (ob_AuthorityKeyID x) w'))"
proof (cases "validKeyID (ob_AuthorityKeyID x) \<and> validKeyID (ob_PolicyDigest x) \<and> ob_Generation x \<noteq> 0
    \<and> ob_Generation x \<le> maxGeneration")
  case True
  obtain r where "underLock (stateRoot dataRoot) (trim_prefix (ob_AuthorityKeyID x) ''sha256:'') (\<lambda>root statePath.
          compareAndStore (readRecord maxStateBytes decodeRecord statePath) (compareStored x)
            (writeAndVerifyRecord root statePath (next_record x)) (stored_result x) failed_result) w = (r, w')"
    and "res = (case r of Inl _ \<Rightarrow> unavailable 0 | Inr y \<Rightarrow> y)"
    using assms(2) True by (auto simp: Observe_def returning_def split: prod.splits sum.splits)
  with trust_Observe_outcome [OF assms(1)] True show ?thesis by blast
next
  case False
  then have "res = unavailable 0" "w' = w" using assms(2) by (auto simp: Observe_def)
  then show ?thesis
    using evolves_refl [OF assms(1)] by (auto simp: store_outcome_def intro!: exI [of _ "Inl ErrUnavailable"])
qed

text \<open>
  C18.  Every run of Observe is a transition of the abstract register: whatever system calls fail,
  the stored record is unchanged or the observed one, the result names exactly the transition
  made, and no other record file changes.
\<close>

theorem trust_Observe_refines_register:
  assumes "wf_world w" "Observe dataRoot x w = (res, w')"
  shows "register x (stored w dataRoot (ob_AuthorityKeyID x) w) res (stored w dataRoot (ob_AuthorityKeyID x) w') \<and>
    wf_world w' \<and>
    (\<forall>q. q \<noteq> state_file w dataRoot (ob_AuthorityKeyID x) \<longrightarrow>
      q \<notin> temps (state_dir w dataRoot) ''.repopass-trust-state-'' \<longrightarrow>
      record_at decodeRecord q w' = record_at decodeRecord q w)"
  using trust_Observe_frame [OF assms] trust_register_outcome trust.record_kept evolves_wf by blast

definition sample_observation :: observation where
  "sample_observation = \<lparr>ob_AuthorityKeyID = ''sha256:'' @ replicate 64 (CHR ''a''), ob_Generation = 5,
     ob_PolicyDigest = ''sha256:'' @ replicate 64 (CHR ''b'')\<rparr>"

theorem trust_Observe_refines_register_witness:
  "wf_world sample_world \<and>
    register sample_observation
      (stored sample_world ''/data'' (ob_AuthorityKeyID sample_observation) sample_world)
      (fst (Observe ''/data'' sample_observation sample_world))
      (stored sample_world ''/data'' (ob_AuthorityKeyID sample_observation)
        (snd (Observe ''/data'' sample_observation sample_world)))"
  using trust_Observe_refines_register
      [OF wf_sample_world surjective_pairing [of "Observe ''/data'' sample_observation sample_world"]]
    wf_sample_world by blast

end
