(* ===== verification/Rotation_State.thy ===== *)
theory Rotation_State
  imports State_Codec
begin

section \<open>Monotonic rotation state (\<^verbatim>\<open>internal/trustrotationstate\<close>)\<close>

text \<open>
  One record per trust root: the authority transition and the terminal policy last accepted.
  The record has two monotonic axes, the transition generation and the policy generation, which one
  atomic write moves together.  \<open>register\<close> is the specification of an observation as a
  transition of the stored record.  Whether the caller passed a nil context is the argument
  \<open>ctxNil\<close>.
\<close>

subsection \<open>Model\<close>

definition maxStateBytes :: nat where [go_const]: "maxStateBytes = 8192"
definition Purpose :: bytes where [go_const]: "Purpose = ''offline-trust-policy-authority-rotation''"
definition PolicyPayloadType :: bytes where
  [go_const]: "PolicyPayloadType = ''application/vnd.repopass.offline-trust-policy.v2+json''"

type_synonym Evaluation = bytes

definition EvaluationInitialized :: Evaluation where [go_const]: "EvaluationInitialized = ''initialized''"
definition EvaluationMatched :: Evaluation where [go_const]: "EvaluationMatched = ''matched''"
definition EvaluationAdvanced :: Evaluation where [go_const]: "EvaluationAdvanced = ''advanced''"
definition EvaluationRollbackRejected :: Evaluation where
  [go_const]: "EvaluationRollbackRejected = ''rollback-rejected''"
definition EvaluationAuthorityEquivocationRejected :: Evaluation where
  [go_const]: "EvaluationAuthorityEquivocationRejected = ''authority-equivocation-rejected''"
definition EvaluationPolicyEquivocationRejected :: Evaluation where
  [go_const]: "EvaluationPolicyEquivocationRejected = ''policy-equivocation-rejected''"
definition EvaluationUnavailable :: Evaluation where [go_const]: "EvaluationUnavailable = ''unavailable''"

definition ErrGenerationRollback :: bytes where
  [go_const]: "ErrGenerationRollback = ''trust-rotation-state-generation-rollback''"
definition ErrAuthorityEquivocation :: bytes where
  [go_const]: "ErrAuthorityEquivocation = ''trust-rotation-state-authority-equivocation''"
definition ErrPolicyEquivocation :: bytes where
  [go_const]: "ErrPolicyEquivocation = ''trust-rotation-state-policy-equivocation''"
definition ErrStateUnavailable :: bytes where
  [go_const]: "ErrStateUnavailable = ''trust-rotation-state-unavailable''"

record Observation =
  ob_TrustRootKeyID :: bytes
  ob_Purpose :: bytes
  ob_PolicyPayloadType :: bytes
  ob_TransitionGeneration :: nat
  ob_TransitionPayloadDigest :: bytes
  ob_TransitionEnvelopeDigest :: bytes
  ob_TerminalAuthorityKeyID :: bytes
  ob_PolicyGeneration :: nat
  ob_PolicyPayloadDigest :: bytes

record Result =
  res_Evaluation :: Evaluation
  res_TransitionGeneration :: nat
  res_PolicyGeneration :: nat

record state_record =
  sr_SchemaVersion :: bytes
  sr_TrustRootKeyID :: bytes
  sr_Purpose :: bytes
  sr_PolicyPayloadType :: bytes
  sr_TransitionGeneration :: nat
  sr_TransitionPayloadDigest :: bytes
  sr_TransitionEnvelopeDigest :: bytes
  sr_TerminalAuthorityKeyID :: bytes
  sr_PolicyGeneration :: nat
  sr_PolicyPayloadDigest :: bytes

definition record_fields :: "(bytes \<times> field_kind) list" where
  "record_fields = [(''schemaVersion'', KString),
    (''trustRootKeyId'', KString),
    (''purpose'', KString),
    (''policyPayloadType'', KString),
    (''transitionGeneration'', KUint64),
    (''transitionPayloadDigest'', KString),
    (''transitionEnvelopeDigest'', KString),
    (''terminalAuthorityKeyId'', KString),
    (''policyGeneration'', KUint64),
    (''policyPayloadDigest'', KString)]"

definition record_members :: "state_record \<Rightarrow> (bytes \<times> goany) list" where
  "record_members r = [(''schemaVersion'', AString (sr_SchemaVersion r)),
    (''trustRootKeyId'', AString (sr_TrustRootKeyID r)),
    (''purpose'', AString (sr_Purpose r)),
    (''policyPayloadType'', AString (sr_PolicyPayloadType r)),
    (''transitionGeneration'', AInt GoUint64 (int (sr_TransitionGeneration r))),
    (''transitionPayloadDigest'', AString (sr_TransitionPayloadDigest r)),
    (''transitionEnvelopeDigest'', AString (sr_TransitionEnvelopeDigest r)),
    (''terminalAuthorityKeyId'', AString (sr_TerminalAuthorityKeyID r)),
    (''policyGeneration'', AInt GoUint64 (int (sr_PolicyGeneration r))),
    (''policyPayloadDigest'', AString (sr_PolicyPayloadDigest r))]"

definition record_of_env :: "struct_env \<Rightarrow> state_record" where
  "record_of_env e = \<lparr>sr_SchemaVersion = str_field e ''schemaVersion'',
    sr_TrustRootKeyID = str_field e ''trustRootKeyId'',
    sr_Purpose = str_field e ''purpose'',
    sr_PolicyPayloadType = str_field e ''policyPayloadType'',
    sr_TransitionGeneration = uint_field e ''transitionGeneration'',
    sr_TransitionPayloadDigest = str_field e ''transitionPayloadDigest'',
    sr_TransitionEnvelopeDigest = str_field e ''transitionEnvelopeDigest'',
    sr_TerminalAuthorityKeyID = str_field e ''terminalAuthorityKeyId'',
    sr_PolicyGeneration = uint_field e ''policyGeneration'',
    sr_PolicyPayloadDigest = str_field e ''policyPayloadDigest''\<rparr>"

definition validKeyID :: "bytes \<Rightarrow> bool" where
  "validKeyID value \<longleftrightarrow> validDigest value"

definition validObservation :: "Observation \<Rightarrow> bool" where
  "validObservation x \<longleftrightarrow> validKeyID (ob_TrustRootKeyID x) \<and> ob_Purpose x = Purpose \<and>
    ob_PolicyPayloadType x = PolicyPayloadType \<and>
    ob_TransitionGeneration x > 0 \<and> ob_TransitionGeneration x \<le> maxGeneration \<and>
    validDigest (ob_TransitionPayloadDigest x) \<and> validDigest (ob_TransitionEnvelopeDigest x) \<and>
    validKeyID (ob_TerminalAuthorityKeyID x) \<and> ob_TrustRootKeyID x \<noteq> ob_TerminalAuthorityKeyID x \<and>
    ob_PolicyGeneration x > 0 \<and> ob_PolicyGeneration x \<le> maxGeneration \<and>
    validDigest (ob_PolicyPayloadDigest x)"

definition record_observation :: "state_record \<Rightarrow> Observation" where
  "record_observation r = \<lparr>ob_TrustRootKeyID = sr_TrustRootKeyID r,
    ob_Purpose = sr_Purpose r,
    ob_PolicyPayloadType = sr_PolicyPayloadType r,
    ob_TransitionGeneration = sr_TransitionGeneration r,
    ob_TransitionPayloadDigest = sr_TransitionPayloadDigest r,
    ob_TransitionEnvelopeDigest = sr_TransitionEnvelopeDigest r,
    ob_TerminalAuthorityKeyID = sr_TerminalAuthorityKeyID r,
    ob_PolicyGeneration = sr_PolicyGeneration r,
    ob_PolicyPayloadDigest = sr_PolicyPayloadDigest r\<rparr>"

definition validRecord :: "state_record \<Rightarrow> bool" where
  "validRecord r \<longleftrightarrow> sr_SchemaVersion r = ''1'' \<and> validObservation (record_observation r)"

definition recordFromObservation :: "Observation \<Rightarrow> state_record" where
  "recordFromObservation x = \<lparr>sr_SchemaVersion = ''1'',
    sr_TrustRootKeyID = ob_TrustRootKeyID x,
    sr_Purpose = ob_Purpose x,
    sr_PolicyPayloadType = ob_PolicyPayloadType x,
    sr_TransitionGeneration = ob_TransitionGeneration x,
    sr_TransitionPayloadDigest = ob_TransitionPayloadDigest x,
    sr_TransitionEnvelopeDigest = ob_TransitionEnvelopeDigest x,
    sr_TerminalAuthorityKeyID = ob_TerminalAuthorityKeyID x,
    sr_PolicyGeneration = ob_PolicyGeneration x,
    sr_PolicyPayloadDigest = ob_PolicyPayloadDigest x\<rparr>"

definition sameScope :: "state_record \<Rightarrow> Observation \<Rightarrow> bool" where
  "sameScope s x \<longleftrightarrow> sr_SchemaVersion s = ''1'' \<and> sr_TrustRootKeyID s = ob_TrustRootKeyID x \<and>
    sr_Purpose s = ob_Purpose x \<and> sr_PolicyPayloadType s = ob_PolicyPayloadType x"

definition canonicalRecord :: "state_record \<Rightarrow> bytes option" where
  "canonicalRecord v = (if \<not> validRecord v then None else marshalRecord maxStateBytes (record_members v))"

definition decodeRecord :: "bytes \<Rightarrow> state_record option" where
  "decodeRecord raw =
    (case decodeStrict maxStateBytes record_fields raw of
       None \<Rightarrow> None
     | Some e \<Rightarrow>
         let v = record_of_env e in
         if \<not> validRecord v then None
         else if canonicalRecord v \<noteq> Some raw then None else Some v)"

definition unavailable :: "nat \<Rightarrow> nat \<Rightarrow> Result \<times> bytes option" where
  "unavailable transitionGeneration policyGeneration =
    (\<lparr>res_Evaluation = EvaluationUnavailable, res_TransitionGeneration = transitionGeneration,
      res_PolicyGeneration = policyGeneration\<rparr>, Some ErrStateUnavailable)"

fun ensurePaths :: "bytes list \<Rightarrow> unit io" where
  "ensurePaths [] = io_return ()"
| "ensurePaths (path # paths) = io_bind ContextErr (\<lambda>_.
     io_bind (privateDirectory 0x3F path) (\<lambda>_. ensurePaths paths))"

definition stateRoot :: "bool \<Rightarrow> bytes \<Rightarrow> bytes io" where
  "stateRoot ctxNil dataRoot =
    (if ctxNil then io_fail ErrUnavailable
     else io_bind (dataRootPath dataRoot) (\<lambda>absolute.
       let root = Join [absolute, ''trust-policy-state'', ''v1'', ''rotated''] in
       io_bind (ensurePaths [absolute, Join [absolute, ''trust-policy-state''],
         Join [absolute, ''trust-policy-state'', ''v1''], root]) (\<lambda>_. confirmRoot root)))"

definition writeAndVerifyRecord :: "bytes \<Rightarrow> bytes \<Rightarrow> state_record \<Rightarrow> unit io" where
  "writeAndVerifyRecord directory target v =
    (case canonicalRecord v of
       None \<Rightarrow> io_fail ErrUnavailable
     | Some raw \<Rightarrow>
         io_bind (createPrivateTemporaryFile directory ''.repopass-trust-rotation-state-'')
           (\<lambda>(h, temporaryPath).
             io_defer (io_bind (closeOnError h (validateOpenedRegularFile h temporaryPath True)) (\<lambda>_.
               publish maxStateBytes decodeRecord directory target h temporaryPath v raw))
               (Remove temporaryPath)))"

text \<open>The comparison with the stored record: a result is an early return.\<close>

definition compared :: "state_record \<Rightarrow> Evaluation \<Rightarrow> bytes option \<Rightarrow> Result \<times> bytes option" where
  "compared s evaluation err = (\<lparr>res_Evaluation = evaluation, res_TransitionGeneration = sr_TransitionGeneration s,
     res_PolicyGeneration = sr_PolicyGeneration s\<rparr>, err)"

definition sameBinding :: "Observation \<Rightarrow> state_record \<Rightarrow> bool" where
  "sameBinding x s \<longleftrightarrow> ob_TransitionPayloadDigest x = sr_TransitionPayloadDigest s \<and>
    ob_TerminalAuthorityKeyID x = sr_TerminalAuthorityKeyID s"

definition compareStored :: "Observation \<Rightarrow> state_record option \<Rightarrow> (Result \<times> bytes option) option" where
  "compareStored x stored =
    (case stored of
       None \<Rightarrow> None
     | Some s \<Rightarrow>
         if \<not> sameScope s x
         then Some (unavailable (sr_TransitionGeneration s) (sr_PolicyGeneration s))
         else if ob_TransitionGeneration x < sr_TransitionGeneration s
           \<or> ob_PolicyGeneration x < sr_PolicyGeneration s
         then Some (compared s EvaluationRollbackRejected (Some ErrGenerationRollback))
         else if ob_TransitionGeneration x = sr_TransitionGeneration s \<and> \<not> sameBinding x s
         then Some (compared s EvaluationAuthorityEquivocationRejected (Some ErrAuthorityEquivocation))
         else if ob_PolicyGeneration x = sr_PolicyGeneration s
           \<and> ob_PolicyPayloadDigest x \<noteq> sr_PolicyPayloadDigest s
         then Some (compared s EvaluationPolicyEquivocationRejected (Some ErrPolicyEquivocation))
         else if ob_TransitionGeneration x = sr_TransitionGeneration s
           \<and> ob_PolicyGeneration x = sr_PolicyGeneration s
         then Some (compared s EvaluationMatched None)
         else None)"

definition stored_result :: "Observation \<Rightarrow> state_record option \<Rightarrow> Result \<times> bytes option" where
  "stored_result x stored =
    (\<lparr>res_Evaluation = (case stored of None \<Rightarrow> EvaluationInitialized | Some _ \<Rightarrow> EvaluationAdvanced),
      res_TransitionGeneration = ob_TransitionGeneration x, res_PolicyGeneration = ob_PolicyGeneration x\<rparr>, None)"

definition failed_result :: "state_record option \<Rightarrow> Result \<times> bytes option" where
  "failed_result stored =
    (case stored of None \<Rightarrow> unavailable 0 0
     | Some s \<Rightarrow> unavailable (sr_TransitionGeneration s) (sr_PolicyGeneration s))"

definition observeLocked :: "bool \<Rightarrow> bytes \<Rightarrow> Observation \<Rightarrow> (Result \<times> bytes option) io" where
  "observeLocked ctxNil dataRoot x =
    underLock (io_bind ContextErr (\<lambda>_. stateRoot ctxNil dataRoot))
      (trim_prefix (ob_TrustRootKeyID x) ''sha256:'') (\<lambda>root statePath.
        compareAndStore (io_bind ContextErr (\<lambda>_. readRecord maxStateBytes decodeRecord statePath))
          (compareStored x) (writeAndVerifyRecord root statePath (recordFromObservation x))
          (stored_result x) failed_result)"

definition Observe :: "bool \<Rightarrow> bytes \<Rightarrow> Observation \<Rightarrow> world \<Rightarrow> (Result \<times> bytes option) \<times> world" where
  "Observe ctxNil dataRoot x w =
    (if ctxNil \<or> \<not> validObservation x then (unavailable 0 0, w)
     else returning (unavailable 0 0) (observeLocked ctxNil dataRoot x) w)"

subsection \<open>The codec\<close>

lemma rotation_record_members_flat:
  assumes "validRecord v"
  shows "flat_fields record_fields (record_members v)"
    "\<forall>(k, x) \<in> set (record_members v). printable k \<and> scalar_printable x"
proof -
  note defs = validRecord_def validObservation_def record_observation_def validKeyID_def
  have p: "printable (sr_SchemaVersion v)" "printable (sr_TrustRootKeyID v)" "printable (sr_Purpose v)" "printable (sr_PolicyPayloadType v)" "printable (sr_TransitionPayloadDigest v)" "printable (sr_TransitionEnvelopeDigest v)" "printable (sr_TerminalAuthorityKeyID v)" "printable (sr_PolicyPayloadDigest v)"
    using assms printable_validDigest by (simp_all add: defs go_const)
  have g: "int (sr_TransitionGeneration v) < 2 ^ 64" "int (sr_PolicyGeneration v) < 2 ^ 64"
    using assms maxGeneration_uint64 by (simp_all add: defs)
  show "flat_fields record_fields (record_members v)"
    using p g printable_utf8
    by (simp add: flat_fields_def record_fields_def record_members_def del: valid_utf8.simps)
  show "\<forall>(k, x) \<in> set (record_members v). printable k \<and> scalar_printable x"
    using p by (simp add: record_members_def)
qed

lemma rotation_record_members_env: "record_of_env (codec_env record_fields (record_members v)) = v"
  by (simp add: record_of_env_def codec_env_def record_members_def struct_field_defs)

lemma rotation_decode_canonicalRecord:
  assumes "canonicalRecord v = Some raw"
  shows "decodeRecord raw = Some v"
proof -
  have v: "validRecord v" and m: "marshalRecord maxStateBytes (record_members v) = Some raw"
    using assms by (auto simp: canonicalRecord_def split: if_splits)
  from decodeStrict_marshalRecord [OF rotation_record_members_flat [OF v] m] assms v show ?thesis
    by (simp add: decodeRecord_def rotation_record_members_env Let_def)
qed

text \<open>
  The order on records: the scope is fixed, no axis goes back, and on an axis that stays the
  record still names the same thing.
\<close>

definition below :: "state_record \<Rightarrow> state_record \<Rightarrow> bool" where
  "below r s \<longleftrightarrow> sr_TrustRootKeyID r = sr_TrustRootKeyID s \<and> sr_Purpose r = sr_Purpose s \<and>
    sr_PolicyPayloadType r = sr_PolicyPayloadType s \<and>
    sr_TransitionGeneration r \<le> sr_TransitionGeneration s \<and> sr_PolicyGeneration r \<le> sr_PolicyGeneration s \<and>
    (sr_TransitionGeneration r = sr_TransitionGeneration s \<longrightarrow> sameBinding (record_observation s) r) \<and>
    (sr_PolicyGeneration r = sr_PolicyGeneration s \<longrightarrow> sr_PolicyPayloadDigest r = sr_PolicyPayloadDigest s)"

interpretation rotation: monotonic_store canonicalRecord decodeRecord below recordFromObservation compareStored
proof
  show "canonicalRecord v = Some raw \<Longrightarrow> decodeRecord raw = Some v" for v raw
    by (rule rotation_decode_canonicalRecord)
  show "decodeRecord raw = Some v \<Longrightarrow> canonicalRecord v = Some raw" for raw v
    by (auto simp: decodeRecord_def Let_def split: option.splits if_splits)
  show "below r s \<Longrightarrow> below s t \<Longrightarrow> below r t" for r s t
    by (auto simp: below_def sameBinding_def record_observation_def)
  show "compareStored x (Some s) = None \<Longrightarrow> below s (recordFromObservation x)" for x s
    by (auto simp: compareStored_def below_def recordFromObservation_def sameBinding_def sameScope_def
        record_observation_def split: if_splits)
qed (auto simp: decodeRecord_def below_def sameBinding_def record_observation_def)

subsection \<open>Refinement\<close>

definition advances :: "state_record \<Rightarrow> Observation \<Rightarrow> bool" where
  "advances s x \<longleftrightarrow> sameScope s x \<and>
    sr_TransitionGeneration s \<le> ob_TransitionGeneration x \<and> sr_PolicyGeneration s \<le> ob_PolicyGeneration x \<and>
    (sr_TransitionGeneration s < ob_TransitionGeneration x \<or> sameBinding x s) \<and>
    (sr_PolicyGeneration s < ob_PolicyGeneration x \<or> sr_PolicyPayloadDigest s = ob_PolicyPayloadDigest x) \<and>
    (sr_TransitionGeneration s < ob_TransitionGeneration x \<or> sr_PolicyGeneration s < ob_PolicyGeneration x)"

inductive register ::
  "Observation \<Rightarrow> state_record option \<Rightarrow> Result \<times> bytes option \<Rightarrow> state_record option \<Rightarrow> bool"
  for x :: Observation where
  refused: "g = 0 \<and> p = 0 \<or> old = Some s \<and> g = sr_TransitionGeneration s \<and> p = sr_PolicyGeneration s \<Longrightarrow>
    register x old (unavailable g p) old"
| unconfirmed_first: "register x None (unavailable 0 0) (Some (recordFromObservation x))"
| unconfirmed: "advances s x \<Longrightarrow> register x (Some s)
    (unavailable (sr_TransitionGeneration s) (sr_PolicyGeneration s)) (Some (recordFromObservation x))"
| initialized: "register x None (\<lparr>res_Evaluation = EvaluationInitialized,
    res_TransitionGeneration = ob_TransitionGeneration x, res_PolicyGeneration = ob_PolicyGeneration x\<rparr>, None)
    (Some (recordFromObservation x))"
| advanced: "advances s x \<Longrightarrow> register x (Some s) (\<lparr>res_Evaluation = EvaluationAdvanced,
    res_TransitionGeneration = ob_TransitionGeneration x, res_PolicyGeneration = ob_PolicyGeneration x\<rparr>, None)
    (Some (recordFromObservation x))"
| matched: "sameScope s x \<Longrightarrow> ob_TransitionGeneration x = sr_TransitionGeneration s \<Longrightarrow>
    ob_PolicyGeneration x = sr_PolicyGeneration s \<Longrightarrow> sameBinding x s \<Longrightarrow>
    ob_PolicyPayloadDigest x = sr_PolicyPayloadDigest s \<Longrightarrow>
    register x (Some s) (compared s EvaluationMatched None) (Some s)"
| rollback: "sameScope s x \<Longrightarrow>
    ob_TransitionGeneration x < sr_TransitionGeneration s \<or> ob_PolicyGeneration x < sr_PolicyGeneration s \<Longrightarrow>
    register x (Some s) (compared s EvaluationRollbackRejected (Some ErrGenerationRollback)) (Some s)"
| authority: "sameScope s x \<Longrightarrow> ob_TransitionGeneration x = sr_TransitionGeneration s \<Longrightarrow> \<not> sameBinding x s \<Longrightarrow>
    sr_PolicyGeneration s \<le> ob_PolicyGeneration x \<Longrightarrow>
    register x (Some s) (compared s EvaluationAuthorityEquivocationRejected (Some ErrAuthorityEquivocation)) (Some s)"
| policy: "sameScope s x \<Longrightarrow> ob_PolicyGeneration x = sr_PolicyGeneration s \<Longrightarrow>
    ob_PolicyPayloadDigest x \<noteq> sr_PolicyPayloadDigest s \<Longrightarrow> sr_TransitionGeneration s \<le> ob_TransitionGeneration x \<Longrightarrow>
    register x (Some s) (compared s EvaluationPolicyEquivocationRejected (Some ErrPolicyEquivocation)) (Some s)"

lemma rotation_register_compare:
  assumes "compareStored x old = Some res"
  shows "register x old res old"
proof -
  obtain s where s: "old = Some s" using assms by (cases old) (auto simp: compareStored_def)
  show ?thesis
    using assms unfolding s compareStored_def
    by (auto split: if_splits intro!: register.intros)
qed

lemma rotation_compareStored_None: "compareStored x (Some s) = None \<Longrightarrow> advances s x"
  by (auto simp: compareStored_def advances_def split: if_splits)

lemma rotation_register_outcome:
  assumes "store_outcome (compareStored x) (stored_result x) failed_result (recordFromObservation x) old r new"
  shows "register x old (case r of Inl _ \<Rightarrow> unavailable 0 0 | Inr res \<Rightarrow> res) new"
proof (cases "\<exists>res. r = Inr res \<and> compareStored x old = None")
  case True
  then obtain res where res: "r = Inr res" "compareStored x old = None" by blast
  then have out: "res = stored_result x old \<and> new = Some (recordFromObservation x) \<or>
      res = failed_result old \<and> (new = old \<or> new = Some (recordFromObservation x))"
    using assms by (simp add: store_outcome_def)
  have room: "old = None \<or> (\<exists>s. old = Some s \<and> advances s x)"
    using res(2) rotation_compareStored_None by (cases old) auto
  from out show ?thesis
  proof
    assume "res = stored_result x old \<and> new = Some (recordFromObservation x)"
    with room res show ?thesis
      by (auto simp: stored_result_def intro: register.initialized register.advanced)
  next
    assume "res = failed_result old \<and> (new = old \<or> new = Some (recordFromObservation x))"
    with room res show ?thesis
      by (auto simp: failed_result_def
          intro: register.refused register.unconfirmed register.unconfirmed_first)
  qed
next
  case False
  with assms show ?thesis
    by (auto simp: store_outcome_def split: sum.splits option.splits
        intro: rotation_register_compare register.refused)
qed

definition state_dir :: "world \<Rightarrow> bytes \<Rightarrow> bytes list" where
  "state_dir w dataRoot = abs_comps w dataRoot @ [''trust-policy-state'', ''v1'', ''rotated'']"

definition state_file :: "world \<Rightarrow> bytes \<Rightarrow> bytes \<Rightarrow> bytes list" where
  "state_file w dataRoot keyID = state_dir w dataRoot @ [trim_prefix keyID ''sha256:'' @ ''.json'']"

abbreviation stored :: "world \<Rightarrow> bytes \<Rightarrow> bytes \<Rightarrow> world \<Rightarrow> state_record option" where
  "stored w0 dataRoot keyID w \<equiv> record_at decodeRecord (state_file w0 dataRoot keyID) w"

lemma rotation_keeps_ensurePaths: "keeps (ensurePaths paths)"
  by (induction paths) (auto intro!: keeps_intros)

lemma rotation_finds_stateRoot: "finds_root (io_bind ContextErr (\<lambda>_. stateRoot False dataRoot)) (\<lambda>w. state_dir w dataRoot)"
proof -
  have names: "list_all name_ok [''trust-policy-state'', ''v1'', ''rotated'']"
    by (simp add: name_ok_def)
  have eq: "stateRoot False dataRoot = io_bind (dataRootPath dataRoot) (\<lambda>absolute.
      io_bind (ensurePaths [absolute, Join [absolute, ''trust-policy-state''],
         Join [absolute, ''trust-policy-state'', ''v1''],
         Join [absolute, ''trust-policy-state'', ''v1'', ''rotated'']])
      (\<lambda>_. confirmRoot (Join [absolute, ''trust-policy-state'', ''v1'', ''rotated''])))"
    by (simp add: stateRoot_def Let_def)
  have "finds_root (stateRoot False dataRoot)
      (\<lambda>w. abs_comps w dataRoot @ [''trust-policy-state'', ''v1'', ''rotated''])"
    by (rule finds_rootI [OF names list.distinct(2) rotation_keeps_ensurePaths Join_abs_path [OF _ names] eq])
  then have "finds_root (stateRoot False dataRoot) (\<lambda>w. state_dir w dataRoot)"
    by (simp only: state_dir_def)
  moreover have "state_dir w' dataRoot = state_dir w dataRoot" if "w_cwd w' = w_cwd w" for w w'
    unfolding state_dir_def abs_comps_same [OF that] ..
  ultimately show ?thesis by (rule finds_root_after [OF _ reads_ContextErr])
qed

lemma rotation_writes_next:
  assumes "list_all name_ok d" "d \<noteq> []" "name_ok n" "\<not> has_prefix n ''.repopass-trust-rotation-state-''"
  shows "writes_record (writeAndVerifyRecord (abs_path d) (abs_path (d @ [n])) v) d n
    ''.repopass-trust-rotation-state-'' decodeRecord v"
  unfolding writeAndVerifyRecord_def
  by (rule rotation.writes_staged [OF assms(1,3,4) makes_createPrivateTemporaryFile [OF assms(2,1)] validate_private])
    (simp add: temp_prefix_def)

lemma rotation_observeLocked_outcome:
  assumes wf: "wf_world w" and valid: "validKeyID (ob_TrustRootKeyID x)"
    and run: "observeLocked False dataRoot x w = (r, w')"
  shows "evolves ({state_file w dataRoot (ob_TrustRootKeyID x)}
      \<union> temps (state_dir w dataRoot) ''.repopass-trust-rotation-state-'') w w' \<and>
    store_outcome (compareStored x) (stored_result x) failed_result (recordFromObservation x)
      (stored w dataRoot (ob_TrustRootKeyID x) w) r (stored w dataRoot (ob_TrustRootKeyID x) w')"
proof -
  obtain h where h: "ob_TrustRootKeyID x = ''sha256:'' @ h" "length h = 64" "list_all is_lower_hex h"
    using valid digest_hex by (auto simp: validKeyID_def)
  have t: "trim_prefix (ob_TrustRootKeyID x) ''sha256:'' = h" by (simp only: h(1) trim_prefix_append)
  show ?thesis
    using rotation.observe_outcome [OF wf rotation_finds_stateRoot _ _ _ reads_record_after [OF reads_ContextErr] rotation_writes_next
        run [unfolded observeLocked_def]]
      hex_name_ok [OF h(3,2)] hex_not_hidden [OF h(3,2)]
    by (simp add: state_file_def t)
qed

lemma rotation_Observe_frame:
  assumes "wf_world w" "Observe ctxNil dataRoot x w = (res, w')"
  shows "evolves ({state_file w dataRoot (ob_TrustRootKeyID x)}
      \<union> temps (state_dir w dataRoot) ''.repopass-trust-rotation-state-'') w w' \<and>
    (\<exists>r. res = (case r of Inl _ \<Rightarrow> unavailable 0 0 | Inr y \<Rightarrow> y) \<and>
      store_outcome (compareStored x) (stored_result x) failed_result (recordFromObservation x)
        (stored w dataRoot (ob_TrustRootKeyID x) w) r (stored w dataRoot (ob_TrustRootKeyID x) w'))"
proof (cases "\<not> ctxNil \<and> validObservation x")
  case True
  then obtain r where "observeLocked False dataRoot x w = (r, w')"
    and "res = (case r of Inl _ \<Rightarrow> unavailable 0 0 | Inr y \<Rightarrow> y)"
    using assms(2) by (auto simp: Observe_def returning_def split: prod.splits sum.splits)
  with rotation_observeLocked_outcome [OF assms(1)] True show ?thesis unfolding validObservation_def by blast
next
  case False
  then have "res = unavailable 0 0" "w' = w" using assms(2) by (auto simp: Observe_def)
  then show ?thesis
    using evolves_refl [OF assms(1)] by (auto simp: store_outcome_def intro!: exI [of _ "Inl ErrUnavailable"])
qed

text \<open>
  C20.  Every run of Observe is a transition of the abstract two-axis register, whatever system
  calls fail; both generations move in one step, and no other record file changes.
\<close>

theorem rotation_Observe_refines_register:
  assumes "wf_world w" "Observe ctxNil dataRoot x w = (res, w')"
  shows "register x (stored w dataRoot (ob_TrustRootKeyID x) w) res (stored w dataRoot (ob_TrustRootKeyID x) w') \<and>
    wf_world w' \<and>
    (\<forall>q. q \<noteq> state_file w dataRoot (ob_TrustRootKeyID x) \<longrightarrow>
      q \<notin> temps (state_dir w dataRoot) ''.repopass-trust-rotation-state-'' \<longrightarrow>
      record_at decodeRecord q w' = record_at decodeRecord q w)"
  using rotation_Observe_frame [OF assms] rotation_register_outcome rotation.record_kept evolves_wf by blast

definition sample_observation :: Observation where
  "sample_observation = \<lparr>ob_TrustRootKeyID = ''sha256:'' @ replicate 64 (CHR ''a''), ob_Purpose = Purpose, ob_PolicyPayloadType = PolicyPayloadType, 
     ob_TransitionGeneration = 4, ob_TransitionPayloadDigest = ''sha256:'' @ replicate 64 (CHR ''b''), 
     ob_TransitionEnvelopeDigest = ''sha256:'' @ replicate 64 (CHR ''e''), ob_TerminalAuthorityKeyID = ''sha256:'' @ replicate 64 (CHR ''c''), 
     ob_PolicyGeneration = 7, ob_PolicyPayloadDigest = ''sha256:'' @ replicate 64 (CHR ''d'')\<rparr>"

theorem rotation_Observe_refines_register_witness:
  "wf_world sample_world \<and>
    register sample_observation
      (stored sample_world ''/data'' (ob_TrustRootKeyID sample_observation) sample_world)
      (fst (Observe False ''/data'' sample_observation sample_world))
      (stored sample_world ''/data'' (ob_TrustRootKeyID sample_observation)
        (snd (Observe False ''/data'' sample_observation sample_world)))"
  using rotation_Observe_refines_register
      [OF wf_sample_world surjective_pairing [of "Observe False ''/data'' sample_observation sample_world"]]
    wf_sample_world by blast

end
