(* ===== verification/Release_State.thy ===== *)
theory Release_State
  imports State_Codec
begin

section \<open>Monotonic release state (\<^verbatim>\<open>internal/releasestate\<close>)\<close>

text \<open>
  One record per kind (policy, index, authority), authority key, product and channel: the highest
  generation seen and its digest.  The file name is a SHA-256 over the length-prefixed scope;
  \<open>stateKey_injective\<close> shows that two scopes share a name only through a SHA-256 collision, and a
  record of another scope is refused by the comparison even then.  The relation
  \<open>register\<close> specifies one observation, as in the trust store.
\<close>

subsection \<open>Model\<close>

definition maxStateBytes :: nat where [go_const]: "maxStateBytes = 4096"

type_synonym Evaluation = bytes

definition EvaluationInitialized :: Evaluation where [go_const]: "EvaluationInitialized = ''initialized''"
definition EvaluationMatched :: Evaluation where [go_const]: "EvaluationMatched = ''matched''"
definition EvaluationAdvanced :: Evaluation where [go_const]: "EvaluationAdvanced = ''advanced''"
definition EvaluationRollbackRejected :: Evaluation where
  [go_const]: "EvaluationRollbackRejected = ''rollback-rejected''"
definition EvaluationEquivocationRejected :: Evaluation where
  [go_const]: "EvaluationEquivocationRejected = ''equivocation-rejected''"
definition EvaluationUnavailable :: Evaluation where [go_const]: "EvaluationUnavailable = ''unavailable''"

definition ErrGenerationRollback :: bytes where
  [go_const]: "ErrGenerationRollback = ''release-state-generation-rollback''"
definition ErrGenerationEquivocation :: bytes where
  [go_const]: "ErrGenerationEquivocation = ''release-state-generation-equivocation''"
definition ReleaseUnavailable :: bytes where
  [go_const]: "ReleaseUnavailable = ''release-state-unavailable''"

record Result =
  res_Evaluation :: Evaluation
  res_Generation :: nat

definition policyState :: bytes where [go_const]: "policyState = ''policy''"
definition indexState :: bytes where [go_const]: "indexState = ''index''"
definition authorityState :: bytes where [go_const]: "authorityState = ''authority''"

definition known_kind :: "bytes \<Rightarrow> bool" where
  "known_kind kind \<longleftrightarrow> kind = policyState \<or> kind = indexState \<or> kind = authorityState"

record state_record =
  sr_AuthorityKeyID :: bytes
  sr_Channel :: bytes
  sr_Digest :: bytes
  sr_Generation :: nat
  sr_Kind :: bytes
  sr_Product :: bytes
  sr_SchemaVersion :: bytes

definition record_fields :: "(bytes \<times> field_kind) list" where
  "record_fields = [(''authorityKeyId'', KString), (''channel'', KString), (''digest'', KString),
    (''generation'', KUint64), (''kind'', KString), (''product'', KString), (''schemaVersion'', KString)]"

definition record_members :: "state_record \<Rightarrow> (bytes \<times> goany) list" where
  "record_members r = [(''authorityKeyId'', AString (sr_AuthorityKeyID r)), (''channel'', AString (sr_Channel r)),
     (''digest'', AString (sr_Digest r)), (''generation'', AInt GoUint64 (int (sr_Generation r))),
     (''kind'', AString (sr_Kind r)), (''product'', AString (sr_Product r)),
     (''schemaVersion'', AString (sr_SchemaVersion r))]"

definition record_of_env :: "struct_env \<Rightarrow> state_record" where
  "record_of_env e = \<lparr>sr_AuthorityKeyID = str_field e ''authorityKeyId'', sr_Channel = str_field e ''channel'',
     sr_Digest = str_field e ''digest'', sr_Generation = uint_field e ''generation'',
     sr_Kind = str_field e ''kind'', sr_Product = str_field e ''product'',
     sr_SchemaVersion = str_field e ''schemaVersion''\<rparr>"

definition is_lower :: "byte \<Rightarrow> bool" where
  "is_lower c \<longleftrightarrow> 97 \<le> byte_val c \<and> byte_val c \<le> 122"

definition validScope :: "bytes \<Rightarrow> bool" where
  "validScope v \<longleftrightarrow> v \<noteq> [] \<and> length v \<le> 64 \<and> is_lower (hd v) \<and>
    list_all (\<lambda>c. is_lower c \<or> is_digit c \<or> c = CHR ''-'' \<or> c = CHR ''.'') (tl v) \<and>
    (is_lower (last v) \<or> is_digit (last v))"

definition uint64_be :: "nat \<Rightarrow> bytes" where
  "uint64_be n = map (\<lambda>i. byte_of (n div 256 ^ (7 - i) mod 256)) [0, 1, 2, 3, 4, 5, 6, 7]"

definition key_preimage :: "bytes list \<Rightarrow> bytes" where
  "key_preimage vs = ''repopass.release-state.key.v1'' @ byte_of 0 #
     concat (map (\<lambda>v. uint64_be (length v) @ v) vs)"

definition stateKey :: "bytes \<Rightarrow> bytes \<Rightarrow> bytes \<Rightarrow> bytes" where
  "stateKey authorityKeyID product channel =
    hex_encode (sum256 (key_preimage [authorityKeyID, product, channel]))"

definition validKeyID :: "bytes \<Rightarrow> bool" where
  "validKeyID value \<longleftrightarrow> validDigest value"

definition valid_record :: "state_record \<Rightarrow> bool" where
  "valid_record v \<longleftrightarrow> sr_SchemaVersion v = ''1'' \<and> known_kind (sr_Kind v) \<and>
    sr_Generation v \<noteq> 0 \<and> sr_Generation v \<le> maxGeneration \<and> validKeyID (sr_AuthorityKeyID v) \<and>
    validScope (sr_Product v) \<and> validScope (sr_Channel v) \<and> validDigest (sr_Digest v)"

definition canonicalRecord :: "state_record \<Rightarrow> bytes option" where
  "canonicalRecord v = (if \<not> valid_record v then None else marshalRecord maxStateBytes (record_members v))"

definition decodeRecord :: "bytes \<Rightarrow> state_record option" where
  "decodeRecord raw =
    (case decodeStrict maxStateBytes record_fields raw of
       None \<Rightarrow> None
     | Some e \<Rightarrow>
         let v = record_of_env e in
         if \<not> valid_record v then None
         else if canonicalRecord v \<noteq> Some raw then None else Some v)"

definition unavailable :: "nat \<Rightarrow> Result \<times> bytes option" where
  "unavailable generation =
    (\<lparr>res_Evaluation = EvaluationUnavailable, res_Generation = generation\<rparr>, Some ReleaseUnavailable)"

fun ensurePaths :: "bytes list \<Rightarrow> unit io" where
  "ensurePaths [] = io_return ()"
| "ensurePaths (path # paths) = io_bind (privateDirectory 0x12 path) (\<lambda>_. ensurePaths paths)"

definition stateRoot :: "bytes \<Rightarrow> bytes \<Rightarrow> bytes io" where
  "stateRoot dataRoot kind =
    (if \<not> known_kind kind then io_fail ErrUnavailable
     else io_bind (dataRootPath dataRoot) (\<lambda>absolute.
       io_bind ContextErr (\<lambda>_.
       let root = Join [absolute, ''release-state'', ''v1'', kind] in
       io_bind (ensurePaths [absolute, Join [absolute, ''release-state''],
         Join [absolute, ''release-state'', ''v1''], root]) (\<lambda>_. confirmRoot root))))"

definition writeAndVerifyRecord :: "bytes \<Rightarrow> bytes \<Rightarrow> state_record \<Rightarrow> unit io" where
  "writeAndVerifyRecord directory target v =
    (case canonicalRecord v of
       None \<Rightarrow> io_fail ErrUnavailable
     | Some raw \<Rightarrow>
         io_bind (CreateTemp directory ''.repopass-release-state-'') (\<lambda>(h, temporaryPath).
           io_defer (io_bind (closeOnError h (Chmod h 0x180)) (\<lambda>_.
             publish maxStateBytes decodeRecord directory target h temporaryPath v raw))
             (Remove temporaryPath)))"

text \<open>An observation, the comparison with the stored record and the record it would store.\<close>

record observation =
  ob_Kind :: bytes
  ob_AuthorityKeyID :: bytes
  ob_Product :: bytes
  ob_Channel :: bytes
  ob_Generation :: nat
  ob_Digest :: bytes

definition same_scope :: "observation \<Rightarrow> state_record \<Rightarrow> bool" where
  "same_scope x s \<longleftrightarrow> sr_AuthorityKeyID s = ob_AuthorityKeyID x \<and> sr_Product s = ob_Product x \<and>
    sr_Channel s = ob_Channel x \<and> sr_Kind s = ob_Kind x"

definition compareStored :: "observation \<Rightarrow> state_record option \<Rightarrow> (Result \<times> bytes option) option" where
  "compareStored x stored =
    (case stored of
       None \<Rightarrow> None
     | Some s \<Rightarrow>
         if \<not> same_scope x s then Some (unavailable (sr_Generation s))
         else if ob_Generation x < sr_Generation s
         then Some (\<lparr>res_Evaluation = EvaluationRollbackRejected, res_Generation = sr_Generation s\<rparr>,
           Some ErrGenerationRollback)
         else if ob_Generation x = sr_Generation s \<and> ob_Digest x \<noteq> sr_Digest s
         then Some (\<lparr>res_Evaluation = EvaluationEquivocationRejected, res_Generation = sr_Generation s\<rparr>,
           Some ErrGenerationEquivocation)
         else if ob_Generation x = sr_Generation s
         then Some (\<lparr>res_Evaluation = EvaluationMatched, res_Generation = sr_Generation s\<rparr>, None)
         else None)"

definition next_record :: "observation \<Rightarrow> state_record" where
  "next_record x = \<lparr>sr_AuthorityKeyID = ob_AuthorityKeyID x, sr_Channel = ob_Channel x, sr_Digest = ob_Digest x,
     sr_Generation = ob_Generation x, sr_Kind = ob_Kind x, sr_Product = ob_Product x, sr_SchemaVersion = ''1''\<rparr>"

definition stored_result :: "observation \<Rightarrow> state_record option \<Rightarrow> Result \<times> bytes option" where
  "stored_result x stored =
    (\<lparr>res_Evaluation = (case stored of None \<Rightarrow> EvaluationInitialized | Some _ \<Rightarrow> EvaluationAdvanced),
      res_Generation = ob_Generation x\<rparr>, None)"

definition failed_result :: "state_record option \<Rightarrow> Result \<times> bytes option" where
  "failed_result stored = unavailable (case stored of None \<Rightarrow> 0 | Some s \<Rightarrow> sr_Generation s)"

definition state_name :: "observation \<Rightarrow> bytes" where
  "state_name x = stateKey (ob_AuthorityKeyID x) (ob_Product x) (ob_Channel x)"

definition valid_observation :: "observation \<Rightarrow> bool" where
  "valid_observation x \<longleftrightarrow> validKeyID (ob_AuthorityKeyID x) \<and> validScope (ob_Product x) \<and>
    validScope (ob_Channel x) \<and> validDigest (ob_Digest x) \<and> ob_Generation x \<noteq> 0 \<and>
    ob_Generation x \<le> maxGeneration"

definition observe :: "bool \<Rightarrow> bytes \<Rightarrow> observation \<Rightarrow> world \<Rightarrow> (Result \<times> bytes option) \<times> world" where
  "observe ctxNil dataRoot x w =
    (if ctxNil \<or> \<not> valid_observation x then (unavailable 0, w)
     else returning (unavailable 0)
       (underLock (stateRoot dataRoot (ob_Kind x)) (state_name x) (\<lambda>root statePath.
          compareAndStore (readRecord maxStateBytes decodeRecord statePath) (compareStored x)
            (writeAndVerifyRecord root statePath (next_record x)) (stored_result x) failed_result)) w)"

definition ObservePolicy ::
  "bool \<Rightarrow> bytes \<Rightarrow> bytes \<Rightarrow> bytes \<Rightarrow> bytes \<Rightarrow> nat \<Rightarrow> bytes \<Rightarrow> world \<Rightarrow> (Result \<times> bytes option) \<times> world" where
  "ObservePolicy ctxNil dataRoot authorityKeyID product channel generation digest =
    observe ctxNil dataRoot \<lparr>ob_Kind = policyState, ob_AuthorityKeyID = authorityKeyID, ob_Product = product,
      ob_Channel = channel, ob_Generation = generation, ob_Digest = digest\<rparr>"

definition ObserveAuthority ::
  "bool \<Rightarrow> bytes \<Rightarrow> bytes \<Rightarrow> bytes \<Rightarrow> bytes \<Rightarrow> nat \<Rightarrow> bytes \<Rightarrow> world \<Rightarrow> (Result \<times> bytes option) \<times> world" where
  "ObserveAuthority ctxNil dataRoot authorityKeyID product channel generation digest =
    observe ctxNil dataRoot \<lparr>ob_Kind = authorityState, ob_AuthorityKeyID = authorityKeyID, ob_Product = product,
      ob_Channel = channel, ob_Generation = generation, ob_Digest = digest\<rparr>"

definition ObserveAuthorityChain ::
  "bool \<Rightarrow> bytes \<Rightarrow> bytes \<Rightarrow> bytes \<Rightarrow> bytes \<Rightarrow> nat \<Rightarrow> bytes \<Rightarrow> world \<Rightarrow> (Result \<times> bytes option) \<times> world" where
  "ObserveAuthorityChain ctxNil dataRoot authorityKeyID product channel terminalGeneration chainDigest =
    ObserveAuthority ctxNil dataRoot authorityKeyID product channel terminalGeneration chainDigest"

definition ObserveIndex ::
  "bool \<Rightarrow> bytes \<Rightarrow> bytes \<Rightarrow> bytes \<Rightarrow> bytes \<Rightarrow> nat \<Rightarrow> bytes \<Rightarrow> world \<Rightarrow> (Result \<times> bytes option) \<times> world" where
  "ObserveIndex ctxNil dataRoot authorityKeyID product channel generation digest =
    observe ctxNil dataRoot \<lparr>ob_Kind = indexState, ob_AuthorityKeyID = authorityKeyID, ob_Product = product,
      ob_Channel = channel, ob_Generation = generation, ob_Digest = digest\<rparr>"

subsection \<open>The codec\<close>

lemma printable_validScope: "validScope v \<Longrightarrow> printable v"
  by (cases v) (auto simp: validScope_def printable_def list_all_iff is_lower_def is_digit_def)

lemma printable_known_kind: "known_kind k \<Longrightarrow> printable k"
  by (auto simp: known_kind_def go_const)

lemma known_kind_name: "known_kind k \<Longrightarrow> name_ok k"
  by (auto simp: known_kind_def go_const name_ok_def)

lemma release_record_members_flat:
  assumes "valid_record v"
  shows "flat_fields record_fields (record_members v)"
    "\<forall>(k, x) \<in> set (record_members v). printable k \<and> scalar_printable x"
proof -
  have p: "printable (sr_AuthorityKeyID v)" "printable (sr_Digest v)" "printable (sr_Product v)"
    "printable (sr_Channel v)" "printable (sr_Kind v)" "printable (sr_SchemaVersion v)"
    and g: "int (sr_Generation v) < 2 ^ 64"
    using assms printable_validDigest printable_validScope printable_known_kind maxGeneration_uint64
    by (simp_all add: valid_record_def validKeyID_def)
  from p g show "flat_fields record_fields (record_members v)"
    using printable_utf8
    by (simp add: flat_fields_def record_fields_def record_members_def del: valid_utf8.simps)
  show "\<forall>(k, x) \<in> set (record_members v). printable k \<and> scalar_printable x"
    using p by (simp add: record_members_def)
qed

lemma release_record_members_env: "record_of_env (codec_env record_fields (record_members v)) = v"
  by (simp add: record_of_env_def codec_env_def record_members_def struct_field_defs)

lemma release_canonicalRecord_valid: "canonicalRecord v = Some raw \<Longrightarrow> valid_record v"
  by (auto simp: canonicalRecord_def split: if_splits)

lemma release_decode_canonicalRecord:
  assumes "canonicalRecord v = Some raw"
  shows "decodeRecord raw = Some v"
proof -
  have v: "valid_record v" using assms by (rule release_canonicalRecord_valid)
  then have "marshalRecord maxStateBytes (record_members v) = Some raw"
    using assms by (simp add: canonicalRecord_def)
  from decodeStrict_marshalRecord [OF release_record_members_flat [OF v] this] assms v show ?thesis
    by (simp add: decodeRecord_def release_record_members_env Let_def)
qed

definition below :: "state_record \<Rightarrow> state_record \<Rightarrow> bool" where
  "below r s \<longleftrightarrow> sr_AuthorityKeyID r = sr_AuthorityKeyID s \<and> sr_Product r = sr_Product s \<and>
    sr_Channel r = sr_Channel s \<and> sr_Kind r = sr_Kind s \<and> (sr_Generation r < sr_Generation s \<or> r = s)"

interpretation release: monotonic_store canonicalRecord decodeRecord below next_record compareStored
proof
  show "canonicalRecord v = Some raw \<Longrightarrow> decodeRecord raw = Some v" for v raw
    by (rule release_decode_canonicalRecord)
  show "decodeRecord raw = Some v \<Longrightarrow> canonicalRecord v = Some raw" for raw v
    by (auto simp: decodeRecord_def Let_def split: option.splits if_splits)
  show "below r s \<Longrightarrow> below s t \<Longrightarrow> below r t" for r s t
    by (auto simp: below_def)
  show "compareStored x (Some s) = None \<Longrightarrow> below s (next_record x)" for x s
    by (auto simp: compareStored_def below_def next_record_def same_scope_def split: if_splits)
qed (auto simp: decodeRecord_def below_def)


subsection \<open>Refinement\<close>

inductive register ::
  "observation \<Rightarrow> state_record option \<Rightarrow> Result \<times> bytes option \<Rightarrow> state_record option \<Rightarrow> bool"
  for x :: observation where
  refused: "g = 0 \<or> old = Some s \<and> g = sr_Generation s \<Longrightarrow> register x old (unavailable g) old"
| unconfirmed_first: "register x None (unavailable 0) (Some (next_record x))"
| unconfirmed: "same_scope x s \<Longrightarrow> sr_Generation s < ob_Generation x \<Longrightarrow>
    register x (Some s) (unavailable (sr_Generation s)) (Some (next_record x))"
| initialized: "register x None
    (\<lparr>res_Evaluation = EvaluationInitialized, res_Generation = ob_Generation x\<rparr>, None) (Some (next_record x))"
| advanced: "same_scope x s \<Longrightarrow> sr_Generation s < ob_Generation x \<Longrightarrow>
    register x (Some s)
      (\<lparr>res_Evaluation = EvaluationAdvanced, res_Generation = ob_Generation x\<rparr>, None) (Some (next_record x))"
| matched: "same_scope x s \<Longrightarrow> sr_Generation s = ob_Generation x \<Longrightarrow>
    sr_Digest s = ob_Digest x \<Longrightarrow>
    register x (Some s)
      (\<lparr>res_Evaluation = EvaluationMatched, res_Generation = sr_Generation s\<rparr>, None) (Some s)"
| rollback: "same_scope x s \<Longrightarrow> ob_Generation x < sr_Generation s \<Longrightarrow>
    register x (Some s)
      (\<lparr>res_Evaluation = EvaluationRollbackRejected, res_Generation = sr_Generation s\<rparr>,
       Some ErrGenerationRollback) (Some s)"
| equivocation: "same_scope x s \<Longrightarrow> sr_Generation s = ob_Generation x \<Longrightarrow>
    sr_Digest s \<noteq> ob_Digest x \<Longrightarrow>
    register x (Some s)
      (\<lparr>res_Evaluation = EvaluationEquivocationRejected, res_Generation = sr_Generation s\<rparr>,
       Some ErrGenerationEquivocation) (Some s)"

definition state_dir :: "world \<Rightarrow> bytes \<Rightarrow> bytes \<Rightarrow> bytes list" where
  "state_dir w dataRoot kind = abs_comps w dataRoot @ [''release-state'', ''v1'', kind]"

definition state_file :: "world \<Rightarrow> bytes \<Rightarrow> observation \<Rightarrow> bytes list" where
  "state_file w dataRoot x = state_dir w dataRoot (ob_Kind x) @ [state_name x @ ''.json'']"

lemma release_keeps_ensurePaths: "keeps (ensurePaths paths)"
  by (induction paths) (auto intro!: keeps_intros)

lemma keeps_after_context: "keeps (io_bind ContextErr (\<lambda>_. ensurePaths paths))"
  by (intro keeps_intros release_keeps_ensurePaths)

lemma release_finds_stateRoot:
  assumes "known_kind kind"
  shows "finds_root (stateRoot dataRoot kind) (\<lambda>w. state_dir w dataRoot kind)"
proof -
  have names: "list_all name_ok [''release-state'', ''v1'', kind]"
    using known_kind_name [OF assms] by (simp add: name_ok_def)
  have eq: "stateRoot dataRoot kind = io_bind (dataRootPath dataRoot) (\<lambda>absolute.
      io_bind (io_bind ContextErr (\<lambda>_. ensurePaths [absolute, Join [absolute, ''release-state''],
         Join [absolute, ''release-state'', ''v1''], Join [absolute, ''release-state'', ''v1'', kind]]))
      (\<lambda>_. confirmRoot (Join [absolute, ''release-state'', ''v1'', kind])))"
    using assms by (simp add: stateRoot_def Let_def io_bind_assoc)
  have "finds_root (stateRoot dataRoot kind) (\<lambda>w. abs_comps w dataRoot @ [''release-state'', ''v1'', kind])"
    by (rule finds_rootI [OF names list.distinct(2) keeps_after_context Join_abs_path [OF _ names] eq])
  then show ?thesis by (simp only: state_dir_def)
qed

lemma state_name_hex: "list_all is_lower_hex (state_name x)" "length (state_name x) = 64"
  using hex_encode_lower by (auto simp: state_name_def stateKey_def list_all_iff)

lemma release_writes_next:
  assumes "list_all name_ok d" "d \<noteq> []" "name_ok n" "\<not> has_prefix n ''.repopass-release-state-''"
  shows "writes_record (writeAndVerifyRecord (abs_path d) (abs_path (d @ [n])) v) d n
    ''.repopass-release-state-'' decodeRecord v"
  unfolding writeAndVerifyRecord_def
  by (rule release.writes_staged [OF assms(1,3,4) makes_CreateTemp [OF assms(2,1)] Chmod_private])
    (simp add: temp_prefix_def)

lemma release_observe_outcome:
  assumes wf: "wf_world w" and kind: "known_kind (ob_Kind x)"
    and run: "underLock (stateRoot dataRoot (ob_Kind x)) (state_name x) (\<lambda>root statePath.
          compareAndStore (readRecord maxStateBytes decodeRecord statePath) (compareStored x)
            (writeAndVerifyRecord root statePath (next_record x)) (stored_result x) failed_result) w = (r, w')"
  shows "evolves ({state_file w dataRoot x}
      \<union> temps (state_dir w dataRoot (ob_Kind x)) ''.repopass-release-state-'') w w' \<and>
    store_outcome (compareStored x) (stored_result x) failed_result (next_record x)
      (record_at decodeRecord (state_file w dataRoot x) w) r
      (record_at decodeRecord (state_file w dataRoot x) w')"
  using release.observe_outcome [OF wf release_finds_stateRoot [OF kind] _ _ _ reads_record_plain release_writes_next run]
    hex_name_ok [OF state_name_hex] hex_not_hidden [OF state_name_hex]
  by (simp add: state_file_def)

lemma release_register_compare:
  assumes "compareStored x old = Some res"
  shows "register x old res old"
proof -
  obtain s where s: "old = Some s" using assms by (cases old) (auto simp: compareStored_def)
  show ?thesis
    using assms unfolding s compareStored_def
    by (auto split: if_splits intro!: register.intros)
qed

lemma release_register_outcome:
  assumes "store_outcome (compareStored x) (stored_result x) failed_result (next_record x) old r new"
  shows "register x old (case r of Inl _ \<Rightarrow> unavailable 0 | Inr res \<Rightarrow> res) new"
proof (cases "\<exists>res. r = Inr res \<and> compareStored x old = None")
  case True
  then obtain res where res: "r = Inr res" "compareStored x old = None" by blast
  then have out: "res = stored_result x old \<and> new = Some (next_record x) \<or>
      res = failed_result old \<and> (new = old \<or> new = Some (next_record x))"
    using assms by (simp add: store_outcome_def)
  have room: "old = None \<or> (\<exists>s. old = Some s \<and> same_scope x s \<and>
      sr_Generation s < ob_Generation x)"
    using res(2) by (cases old) (auto simp: compareStored_def split: if_splits)
  from out show ?thesis
  proof
    assume "res = stored_result x old \<and> new = Some (next_record x)"
    with room res show ?thesis
      by (auto simp: stored_result_def intro: register.initialized register.advanced)
  next
    assume "res = failed_result old \<and> (new = old \<or> new = Some (next_record x))"
    with room res show ?thesis
      by (auto simp: failed_result_def intro: register.refused register.unconfirmed register.unconfirmed_first)
  qed
next
  case False
  with assms show ?thesis
    by (auto simp: store_outcome_def split: sum.splits option.splits
        intro: release_register_compare register.refused)
qed

abbreviation stored :: "world \<Rightarrow> bytes \<Rightarrow> observation \<Rightarrow> world \<Rightarrow> state_record option" where
  "stored w0 dataRoot x w \<equiv> record_at decodeRecord (state_file w0 dataRoot x) w"

lemma unknown_kind: "\<not> known_kind kind \<Longrightarrow> underLock (stateRoot dataRoot kind) n body w = (Inl ErrUnavailable, w)"
  by (simp add: underLock_def stateRoot_def io_fail_def io_bind_def)

lemma release_observe_frame:
  assumes "wf_world w" "observe ctxNil dataRoot x w = (res, w')"
  shows "evolves ({state_file w dataRoot x}
      \<union> temps (state_dir w dataRoot (ob_Kind x)) ''.repopass-release-state-'') w w' \<and>
    (\<exists>r. res = (case r of Inl _ \<Rightarrow> unavailable 0 | Inr y \<Rightarrow> y) \<and>
      store_outcome (compareStored x) (stored_result x) failed_result (next_record x)
        (stored w dataRoot x w) r (stored w dataRoot x w'))"
proof (cases "\<not> ctxNil \<and> valid_observation x \<and> known_kind (ob_Kind x)")
  case True
  obtain r where "underLock (stateRoot dataRoot (ob_Kind x)) (state_name x) (\<lambda>root statePath.
          compareAndStore (readRecord maxStateBytes decodeRecord statePath) (compareStored x)
            (writeAndVerifyRecord root statePath (next_record x)) (stored_result x) failed_result) w = (r, w')"
    and "res = (case r of Inl _ \<Rightarrow> unavailable 0 | Inr y \<Rightarrow> y)"
    using assms(2) True by (auto simp: observe_def returning_def split: prod.splits sum.splits)
  with release_observe_outcome [OF assms(1)] True show ?thesis by blast
next
  case False
  then have "res = unavailable 0" "w' = w"
    using assms(2) by (auto simp: observe_def unknown_kind returning_def split: if_splits)
  then show ?thesis
    using evolves_refl [OF assms(1)] by (auto simp: store_outcome_def intro!: exI [of _ "Inl ErrUnavailable"])
qed

text \<open>
  C21.  Every run of observe is a transition of the abstract register of its exact kind, authority,
  product and channel, whatever system calls fail, and no other record file changes.
\<close>

theorem release_observe_refines_register:
  assumes "wf_world w" "observe ctxNil dataRoot x w = (res, w')"
  shows "register x (stored w dataRoot x w) res (stored w dataRoot x w') \<and> wf_world w' \<and>
    (\<forall>q. q \<noteq> state_file w dataRoot x \<longrightarrow>
      q \<notin> temps (state_dir w dataRoot (ob_Kind x)) ''.repopass-release-state-'' \<longrightarrow>
      record_at decodeRecord q w' = record_at decodeRecord q w)"
  using release_observe_frame [OF assms] release_register_outcome release.record_kept evolves_wf by blast

definition sample_observation :: observation where
  "sample_observation = \<lparr>ob_Kind = indexState, ob_AuthorityKeyID = ''sha256:'' @ replicate 64 (CHR ''a''),
     ob_Product = ''repopass'', ob_Channel = ''stable'', ob_Generation = 5,
     ob_Digest = ''sha256:'' @ replicate 64 (CHR ''b'')\<rparr>"

theorem release_observe_refines_register_witness:
  "wf_world sample_world \<and>
    register sample_observation (stored sample_world ''/data'' sample_observation sample_world)
      (fst (observe False ''/data'' sample_observation sample_world))
      (stored sample_world ''/data'' sample_observation
        (snd (observe False ''/data'' sample_observation sample_world)))"
  using release_observe_refines_register
      [OF wf_sample_world surjective_pairing [of "observe False ''/data'' sample_observation sample_world"]]
    wf_sample_world by blast

subsection \<open>File names\<close>

lemma digit_256: "n mod 256 ^ Suc k = n div 256 ^ k mod 256 * 256 ^ k + n mod (256 ^ k :: nat)"
proof -
  have "n mod (256 ^ k * 256) = 256 ^ k * (n div 256 ^ k mod 256) + n mod 256 ^ k"
    by (rule mod_mult2_eq)
  then show ?thesis by (simp add: mult.commute)
qed

lemma uint64_be_digits: "uint64_be m = uint64_be n \<Longrightarrow> k < 8 \<Longrightarrow> m div 256 ^ k mod 256 = n div 256 ^ k mod 256"
proof -
  assume eq: "uint64_be m = uint64_be n" and k: "k < 8"
  have "byte_val (uint64_be j ! (7 - k)) = j div 256 ^ k mod 256" for j
  proof -
    have "[0, 1, 2, 3, 4, 5, 6, 7] = [0..<8]" by (simp add: upt_rec)
    moreover have "[0..<8] ! (7 - k) = 7 - k" using nth_upt [of 0 "7 - k" 8] k by simp
    ultimately show ?thesis using k unfolding uint64_be_def by simp
  qed
  with eq show ?thesis by metis
qed

lemma uint64_be_inj:
  assumes "m < 2 ^ 64" "n < 2 ^ 64" "uint64_be m = uint64_be n"
  shows "m = n"
proof -
  have "k \<le> 8 \<Longrightarrow> m mod 256 ^ k = n mod 256 ^ k" for k
  proof (induction k)
    case (Suc k)
    then show ?case using uint64_be_digits [OF assms(3), of k] by (simp only: digit_256)
  qed simp
  from this [of 8] assms(1,2) show ?thesis by simp
qed

lemma length_uint64_be [simp]: "length (uint64_be n) = 8"
  by (simp add: uint64_be_def)

lemma length_prefixed_inj:
  assumes "length vs = length us" "\<forall>v \<in> set (vs @ us). length v < 2 ^ 64"
    and "concat (map (\<lambda>v. uint64_be (length v) @ v) vs) = concat (map (\<lambda>v. uint64_be (length v) @ v) us)"
  shows "vs = us"
  using assms
proof (induction vs us rule: list_induct2)
  case (Cons v vs u us)
  have "uint64_be (length v) = uint64_be (length u)"
    and rest: "v @ concat (map (\<lambda>v. uint64_be (length v) @ v) vs) = u @ concat (map (\<lambda>v. uint64_be (length v) @ v) us)"
    using Cons.prems(2) by simp_all
  then have "length v = length u" using uint64_be_inj Cons.prems(1) by simp
  with rest Cons.IH Cons.prems(1) show ?case by simp
qed simp

lemma validScope_length: "validScope v \<Longrightarrow> length v < 18446744073709551616"
  by (simp add: validScope_def)

lemma validKeyID_length: "validKeyID v \<Longrightarrow> length v < 18446744073709551616"
  by (auto simp: validKeyID_def elim!: digest_hex)

text \<open>
  C22.  Two observations use the same record file of the same data root only when their kind and
  their whole scope agree, or when the two length-prefixed scopes are a SHA-256 collision.
\<close>

theorem stateKey_injective:
  assumes "valid_observation x" "valid_observation y" "state_file w dataRoot x = state_file w dataRoot y"
  shows "ob_Kind x = ob_Kind y \<and>
    ((ob_AuthorityKeyID x, ob_Product x, ob_Channel x) = (ob_AuthorityKeyID y, ob_Product y, ob_Channel y) \<or>
     (let p = key_preimage [ob_AuthorityKeyID x, ob_Product x, ob_Channel x];
          q = key_preimage [ob_AuthorityKeyID y, ob_Product y, ob_Channel y]
      in p \<noteq> q \<and> sum256 p = sum256 q))"
proof -
  let ?p = "key_preimage [ob_AuthorityKeyID x, ob_Product x, ob_Channel x]"
  let ?q = "key_preimage [ob_AuthorityKeyID y, ob_Product y, ob_Channel y]"
  have "ob_Kind x = ob_Kind y" "state_name x = state_name y"
    using assms(3) by (simp_all add: state_file_def state_dir_def)
  moreover have "sum256 ?p = sum256 ?q"
    using \<open>state_name x = state_name y\<close> by (simp add: state_name_def stateKey_def hex_encode_inj)
  moreover have "[ob_AuthorityKeyID x, ob_Product x, ob_Channel x] = [ob_AuthorityKeyID y, ob_Product y, ob_Channel y]"
    if "?p = ?q"
    by (rule length_prefixed_inj)
      (use that assms(1,2) in \<open>auto simp: key_preimage_def valid_observation_def
        intro: validScope_length validKeyID_length\<close>)
  ultimately show ?thesis by (auto simp: Let_def)
qed

theorem stateKey_injective_witness:
  "valid_observation sample_observation \<and>
    (let y = sample_observation\<lparr>ob_Generation := 6\<rparr>
     in state_file sample_world ''/data'' sample_observation = state_file sample_world ''/data'' y \<and>
       ob_Product sample_observation = ob_Product y)"
proof -
  have v: "valid_observation sample_observation" "valid_observation (sample_observation\<lparr>ob_Generation := 6\<rparr>)"
    by (simp_all add: valid_observation_def sample_observation_def validKeyID_def validDigest_def validScope_def
        is_lower_hex_def is_digit_def is_lower_def has_prefix_def maxGeneration_def
        list_all_iff)
  have f: "state_file sample_world ''/data'' sample_observation
      = state_file sample_world ''/data'' (sample_observation\<lparr>ob_Generation := 6\<rparr>)"
    by (simp add: state_file_def state_name_def)
  show ?thesis using stateKey_injective [OF v f] v f by (simp add: Let_def)
qed

end
