(* ===== verification/Trust_Stores.thy ===== *)
theory Trust_Stores
  imports Codec_Size Trust_State Chain_State Rotation_State Release_State
begin

section \<open>The four stores together\<close>

text \<open>
  The stores live side by side in data directories that several commands share.  A run of the
  program is a sequence of calls of their entry points, in any order, on any data roots, with any
  system call failing.  The theorems say that the sequence as a whole keeps the promise each store
  makes for one call: a record only ever moves up, so an accepted observation is never followed by
  the acceptance of an older or a conflicting one.  The last group bounds the time and the number
  of attempts of the lock every store takes first.
\<close>

subsection \<open>Model\<close>

datatype action =
    TrustObserve bytes Trust_State.observation
  | ChainObserve bool bytes Chain_State.Observation
  | RotationObserve bool bytes Rotation_State.Observation
  | PolicyObserve bool bytes bytes bytes bytes nat bytes
  | AuthorityObserve bool bytes bytes bytes bytes nat bytes
  | AuthorityChainObserve bool bytes bytes bytes bytes nat bytes
  | IndexObserve bool bytes bytes bytes bytes nat bytes

fun perform :: "action \<Rightarrow> world \<Rightarrow> world" where
  "perform (TrustObserve dataRoot x) w = snd (Trust_State.Observe dataRoot x w)"
| "perform (ChainObserve ctxNil dataRoot x) w = snd (Chain_State.Observe ctxNil dataRoot x w)"
| "perform (RotationObserve ctxNil dataRoot x) w = snd (Rotation_State.Observe ctxNil dataRoot x w)"
| "perform (PolicyObserve ctxNil dataRoot k p c g d) w = snd (ObservePolicy ctxNil dataRoot k p c g d w)"
| "perform (AuthorityObserve ctxNil dataRoot k p c g d) w = snd (ObserveAuthority ctxNil dataRoot k p c g d w)"
| "perform (AuthorityChainObserve ctxNil dataRoot k p c g d) w
    = snd (ObserveAuthorityChain ctxNil dataRoot k p c g d w)"
| "perform (IndexObserve ctxNil dataRoot k p c g d) w = snd (ObserveIndex ctxNil dataRoot k p c g d w)"

definition run :: "action list \<Rightarrow> world \<Rightarrow> world" where
  "run acts w = fold perform acts w"

subsection \<open>Where the stores write\<close>

definition record_path :: "bytes list \<Rightarrow> bool" where
  "record_path q \<longleftrightarrow> (\<exists>d h. q = d @ [h @ ''.json''] \<and> length h = 64 \<and> list_all is_lower_hex h)"

definition place :: "bytes list \<Rightarrow> bytes" where
  "place q = last (butlast q)"

lemma record_path_not_temp: "record_path q \<Longrightarrow> q \<notin> temps d (CHR ''.'' # pfx)"
  using hex_not_hidden unfolding record_path_def temps_def by auto

lemma record_path_digest:
  assumes "validDigest k"
  shows "record_path (d @ [trim_prefix k ''sha256:'' @ ''.json''])"
proof -
  obtain h where h: "k = ''sha256:'' @ h" "length h = 64" "list_all is_lower_hex h"
    using assms by (rule digest_hex)
  have "trim_prefix k ''sha256:'' = h" by (simp only: h(1) trim_prefix_append)
  with h show ?thesis unfolding record_path_def by auto
qed

lemma record_path_trust: "Trust_State.validKeyID k \<Longrightarrow> record_path (Trust_State.state_file w dataRoot k)"
  by (simp add: Trust_State.state_file_def Trust_State.validKeyID_def record_path_digest)

lemma record_path_chain: "Chain_State.validKeyID k \<Longrightarrow> record_path (Chain_State.state_file w dataRoot k)"
  by (simp add: Chain_State.state_file_def Chain_State.validKeyID_def record_path_digest)

lemma record_path_rotation: "Rotation_State.validKeyID k \<Longrightarrow> record_path (Rotation_State.state_file w dataRoot k)"
  by (simp add: Rotation_State.state_file_def Rotation_State.validKeyID_def record_path_digest)

lemma record_path_release: "record_path (Release_State.state_file w dataRoot x)"
  unfolding Release_State.state_file_def record_path_def using state_name_hex by blast

lemma place_file [simp]: "place ((cs @ [a, p]) @ [n]) = p" "place ((cs @ [a, b, p]) @ [n]) = p"
  by (simp_all add: place_def butlast_append)

lemma place_trust: "place (Trust_State.state_file w dataRoot k) = ''v1''"
  unfolding Trust_State.state_file_def Trust_State.state_dir_def by (rule place_file)

lemma place_chain: "place (Chain_State.state_file w dataRoot k) = ''rotation-chain''"
  unfolding Chain_State.state_file_def Chain_State.state_dir_def by (rule place_file)

lemma place_rotation: "place (Rotation_State.state_file w dataRoot k) = ''rotated''"
  unfolding Rotation_State.state_file_def Rotation_State.state_dir_def by (rule place_file)

lemma place_release: "place (Release_State.state_file w dataRoot x) = ob_Kind x"
  unfolding Release_State.state_file_def Release_State.state_dir_def by (rule place_file)

lemmas place_files = place_trust place_chain place_rotation place_release

definition release_observation ::
  "bytes \<Rightarrow> bytes \<Rightarrow> bytes \<Rightarrow> bytes \<Rightarrow> nat \<Rightarrow> bytes \<Rightarrow> Release_State.observation" where
  "release_observation kind k p c g d = \<lparr>ob_Kind = kind, ob_AuthorityKeyID = k, ob_Product = p, ob_Channel = c,
     ob_Generation = g, ob_Digest = d\<rparr>"

lemma ob_Kind_release_observation [simp]: "ob_Kind (release_observation kind k p c g d) = kind"
  by (simp add: release_observation_def)

lemma perform_release:
  "perform (PolicyObserve n r k p c g d) w = snd (observe n r (release_observation policyState k p c g d) w)"
  "perform (AuthorityObserve n r k p c g d) w = snd (observe n r (release_observation authorityState k p c g d) w)"
  "perform (AuthorityChainObserve n r k p c g d) w = snd (observe n r (release_observation authorityState k p c g d) w)"
  "perform (IndexObserve n r k p c g d) w = snd (observe n r (release_observation indexState k p c g d) w)"
  by (simp_all add: ObservePolicy_def ObserveAuthority_def ObserveAuthorityChain_def ObserveIndex_def
      release_observation_def)

text \<open>The store an action belongs to, by the name of the directory of its records.\<close>

fun home :: "action \<Rightarrow> bytes" where
  "home (TrustObserve _ _) = ''v1''"
| "home (ChainObserve _ _ _) = ''rotation-chain''"
| "home (RotationObserve _ _ _) = ''rotated''"
| "home (PolicyObserve _ _ _ _ _ _ _) = policyState"
| "home (AuthorityObserve _ _ _ _ _ _ _) = authorityState"
| "home (AuthorityChainObserve _ _ _ _ _ _ _) = authorityState"
| "home (IndexObserve _ _ _ _ _ _ _) = indexState"

definition writes_at :: "bytes \<Rightarrow> world \<Rightarrow> world \<Rightarrow> bool" where
  "writes_at p w w' \<longleftrightarrow> (\<exists>f d pfx. evolves ({f} \<union> temps d (CHR ''.'' # pfx)) w w' \<and> place f = p)"

lemma writes_at_trust:
  assumes "wf_world w"
  shows "writes_at ''v1'' w (snd (Trust_State.Observe dataRoot x w))"
  using trust_Observe_frame [OF assms surjective_pairing] place_trust unfolding writes_at_def by blast

lemma writes_at_chain:
  assumes "wf_world w"
  shows "writes_at ''rotation-chain'' w (snd (Chain_State.Observe ctxNil dataRoot x w))"
  using chain_Observe_frame [OF assms surjective_pairing] place_chain unfolding writes_at_def by blast

lemma writes_at_rotation:
  assumes "wf_world w"
  shows "writes_at ''rotated'' w (snd (Rotation_State.Observe ctxNil dataRoot x w))"
  using rotation_Observe_frame [OF assms surjective_pairing] place_rotation unfolding writes_at_def by blast

lemma writes_at_release:
  assumes "wf_world w"
  shows "writes_at (ob_Kind x) w (snd (observe ctxNil dataRoot x w))"
  using release_observe_frame [OF assms surjective_pairing] place_release unfolding writes_at_def by blast

lemma writes_at_home: "wf_world w \<Longrightarrow> writes_at (home a) w (perform a w)"
  using writes_at_release [where x = "release_observation _ _ _ _ _ _"]
  by (cases a) (simp_all add: writes_at_trust writes_at_chain writes_at_rotation perform_release del: perform.simps(4-7))

lemma writes_at_wf: "writes_at p w w' \<Longrightarrow> wf_world w'"
  unfolding writes_at_def using evolves_wf by blast

lemma writes_at_other:
  assumes "writes_at p w w'" "record_path q" "place q \<noteq> p" "dec [] = None"
  shows "record_at dec q w' = record_at dec q w"
proof -
  obtain f d pfx where e: "evolves ({f} \<union> temps d (CHR ''.'' # pfx)) w w'" and f: "place f = p"
    using assms(1) unfolding writes_at_def by blast
  have "q \<notin> {f} \<union> temps d (CHR ''.'' # pfx)"
    using assms(3) f record_path_not_temp [OF assms(2)] by auto
  from record_at_evolves [where dec = dec, OF e this assms(4)] show ?thesis .
qed

subsection \<open>Records move up in every sequence of calls\<close>

lemma run_induct:
  assumes "wf_world w" "\<And>w. R w w"
    and "\<And>u v a. wf_world v \<Longrightarrow> R u v \<Longrightarrow> R u (perform a v)"
  shows "wf_world (run acts w) \<and> R w (run acts w)"
proof (induction acts rule: rev_induct)
  case Nil
  then show ?case using assms(1,2) by (simp add: run_def)
next
  case (snoc a acts)
  then have "wf_world (perform a (run acts w))" using writes_at_wf [OF writes_at_home] by blast
  with snoc assms(3) show ?case by (simp add: run_def)
qed

lemma run_wf: "wf_world w \<Longrightarrow> wf_world (run acts w)"
  using run_induct [where R = "\<lambda>_ _. True"] by blast

lemma run_cwd: "wf_world w \<Longrightarrow> w_cwd (run acts w) = w_cwd w"
  using run_induct [where R = "\<lambda>u v. w_cwd v = w_cwd u"] writes_at_home
  unfolding writes_at_def evolves_def by metis

context monotonic_store
begin

text \<open>A store need only account for its own actions.\<close>

lemma run_moves_up:
  assumes "wf_world w" "record_path q"
    and own: "\<And>a v. home a = place q \<Longrightarrow> wf_world v \<Longrightarrow>
      moves_up below (record_at decode q v) (record_at decode q (perform a v))"
  shows "moves_up below (record_at decode q w) (record_at decode q (run acts w))"
proof -
  have "moves_up below (record_at decode q v) (record_at decode q (perform a v))" if "wf_world v" for a v
  proof (cases "home a = place q")
    case False
    then show ?thesis
      using writes_at_other [OF writes_at_home [OF that] assms(2)] decode_Nil moves_up_refl by metis
  qed (rule own [OF _ that])
  then show ?thesis
    using run_induct [OF assms(1), where R = "\<lambda>u v. moves_up below (record_at decode q u) (record_at decode q v)"]
      moves_up_refl moves_up_trans by blast
qed

end

lemma trust_run:
  assumes "wf_world w" "record_path q" "place q = ''v1''"
  shows "moves_up Trust_State.below (record_at Trust_State.decodeRecord q w)
    (record_at Trust_State.decodeRecord q (run acts w))"
proof (rule trust.run_moves_up [OF assms(1,2)])
  fix a v
  assume "home a = place q" and v: "wf_world v"
  then obtain dataRoot x where a: "a = TrustObserve dataRoot x"
    using assms(3) by (cases a) (simp_all add: go_const)
  show "moves_up Trust_State.below (record_at Trust_State.decodeRecord q v)
    (record_at Trust_State.decodeRecord q (perform a v))"
    using trust_Observe_frame [OF v surjective_pairing] trust.frame_moves_up record_path_not_temp [OF assms(2)]
    unfolding a perform.simps by blast
qed

lemma chain_run:
  assumes "wf_world w" "record_path q" "place q = ''rotation-chain''"
  shows "moves_up Chain_State.below (record_at Chain_State.decodeRecord q w)
    (record_at Chain_State.decodeRecord q (run acts w))"
proof (rule chain.run_moves_up [OF assms(1,2)])
  fix a v
  assume "home a = place q" and v: "wf_world v"
  then obtain n dataRoot x where a: "a = ChainObserve n dataRoot x"
    using assms(3) by (cases a) (simp_all add: go_const)
  show "moves_up Chain_State.below (record_at Chain_State.decodeRecord q v)
    (record_at Chain_State.decodeRecord q (perform a v))"
    using chain_Observe_frame [OF v surjective_pairing] chain.frame_moves_up record_path_not_temp [OF assms(2)]
    unfolding a perform.simps by blast
qed

lemma rotation_run:
  assumes "wf_world w" "record_path q" "place q = ''rotated''"
  shows "moves_up Rotation_State.below (record_at Rotation_State.decodeRecord q w)
    (record_at Rotation_State.decodeRecord q (run acts w))"
proof (rule rotation.run_moves_up [OF assms(1,2)])
  fix a v
  assume "home a = place q" and v: "wf_world v"
  then obtain n dataRoot x where a: "a = RotationObserve n dataRoot x"
    using assms(3) by (cases a) (simp_all add: go_const)
  show "moves_up Rotation_State.below (record_at Rotation_State.decodeRecord q v)
    (record_at Rotation_State.decodeRecord q (perform a v))"
    using rotation_Observe_frame [OF v surjective_pairing] rotation.frame_moves_up record_path_not_temp [OF assms(2)]
    unfolding a perform.simps by blast
qed

lemma release_run:
  assumes "wf_world w" "record_path q" "known_kind (place q)"
  shows "moves_up Release_State.below (record_at Release_State.decodeRecord q w)
    (record_at Release_State.decodeRecord q (run acts w))"
proof (rule release.run_moves_up [OF assms(1,2)])
  fix a v
  assume a: "home a = place q" and v: "wf_world v"
  obtain n dataRoot x where p: "perform a v = snd (observe n dataRoot x v)"
    using a assms(3) perform_release by (cases a) (force simp: known_kind_def go_const)+
  show "moves_up Release_State.below (record_at Release_State.decodeRecord q v)
    (record_at Release_State.decodeRecord q (perform a v))"
    using release_observe_frame [OF v surjective_pairing] release.frame_moves_up record_path_not_temp [OF assms(2)]
    unfolding p by blast
qed

text \<open>
  C23.  After any sequence of calls of the four stores, in any order, on any data roots and with
  any system call failing, every stored record of every store is still there or has been replaced
  by one above it; no call of one store ever touches a record of another.
\<close>

theorem stores_only_move_up:
  assumes "wf_world w"
  shows "(\<forall>dataRoot k. Trust_State.validKeyID k \<longrightarrow> moves_up Trust_State.below
      (Trust_State.stored w dataRoot k w) (Trust_State.stored w dataRoot k (run acts w))) \<and>
    (\<forall>dataRoot k. Chain_State.validKeyID k \<longrightarrow> moves_up Chain_State.below
      (Chain_State.stored w dataRoot k w) (Chain_State.stored w dataRoot k (run acts w))) \<and>
    (\<forall>dataRoot k. Rotation_State.validKeyID k \<longrightarrow> moves_up Rotation_State.below
      (Rotation_State.stored w dataRoot k w) (Rotation_State.stored w dataRoot k (run acts w))) \<and>
    (\<forall>dataRoot x. known_kind (ob_Kind x) \<longrightarrow> moves_up Release_State.below
      (Release_State.stored w dataRoot x w) (Release_State.stored w dataRoot x (run acts w)))"
  using trust_run [OF assms record_path_trust place_trust] chain_run [OF assms record_path_chain place_chain]
    rotation_run [OF assms record_path_rotation place_rotation]
    release_run [OF assms record_path_release] by (simp add: place_release)

theorem stores_only_move_up_witness:
  "wf_world sample_world \<and> moves_up Release_State.below
    (Release_State.stored sample_world ''/data'' Release_State.sample_observation sample_world)
    (Release_State.stored sample_world ''/data'' Release_State.sample_observation
      (run [IndexObserve False ''/data'' ''k'' ''p'' ''c'' 3 ''d''] sample_world))"
proof -
  have "known_kind (ob_Kind Release_State.sample_observation)"
    by (simp add: Release_State.sample_observation_def known_kind_def)
  with stores_only_move_up [OF wf_sample_world] wf_sample_world show ?thesis by blast
qed

subsection \<open>An accepted observation is final\<close>

lemma trust_accepted:
  assumes "wf_world w" "Trust_State.Observe dataRoot x w = ((res, None), w')"
  shows "\<exists>s. Trust_State.stored w dataRoot (Trust_State.ob_AuthorityKeyID x) w' = Some s \<and>
      Trust_State.sr_Generation s = Trust_State.ob_Generation x \<and> sr_PolicyDigest s = ob_PolicyDigest x"
    and "Trust_State.stored w dataRoot (Trust_State.ob_AuthorityKeyID x) w = Some r \<Longrightarrow>
      Trust_State.sr_Generation r < Trust_State.ob_Generation x \<or>
      Trust_State.sr_Generation r = Trust_State.ob_Generation x \<and> sr_PolicyDigest r = ob_PolicyDigest x"
    and "Trust_State.validKeyID (Trust_State.ob_AuthorityKeyID x)"
    and "wf_world w'" "w_cwd w' = w_cwd w"
proof -
  have reg: "Trust_State.register x (Trust_State.stored w dataRoot (Trust_State.ob_AuthorityKeyID x) w) (res, None)
      (Trust_State.stored w dataRoot (Trust_State.ob_AuthorityKeyID x) w')"
    using trust_Observe_frame [OF assms] trust_register_outcome by metis
  then show "\<exists>s. Trust_State.stored w dataRoot (Trust_State.ob_AuthorityKeyID x) w' = Some s \<and>
      Trust_State.sr_Generation s = Trust_State.ob_Generation x \<and> sr_PolicyDigest s = ob_PolicyDigest x"
    by cases (auto simp: Trust_State.unavailable_def Trust_State.next_record_def)
  show "Trust_State.stored w dataRoot (Trust_State.ob_AuthorityKeyID x) w = Some r \<Longrightarrow>
      Trust_State.sr_Generation r < Trust_State.ob_Generation x \<or>
      Trust_State.sr_Generation r = Trust_State.ob_Generation x \<and> sr_PolicyDigest r = ob_PolicyDigest x"
    using reg by cases (auto simp: Trust_State.unavailable_def)
  show "Trust_State.validKeyID (Trust_State.ob_AuthorityKeyID x)"
    using assms(2) by (auto simp: Trust_State.Observe_def Trust_State.unavailable_def split: if_splits)
  show "wf_world w'" "w_cwd w' = w_cwd w"
    using trust_Observe_frame [OF assms] by (simp_all add: evolves_def)
qed

lemma trust_file_same: "w_cwd w' = w_cwd w \<Longrightarrow> Trust_State.state_file w' d k = Trust_State.state_file w d k"
  using abs_comps_same [of w' w d] by (simp add: Trust_State.state_file_def Trust_State.state_dir_def)

lemma release_file_same: "w_cwd w' = w_cwd w \<Longrightarrow> Release_State.state_file w' d x = Release_State.state_file w d x"
  using abs_comps_same [of w' w d] by (simp add: Release_State.state_file_def Release_State.state_dir_def)


subsection \<open>The lock\<close>

definition lockWaits :: "int \<Rightarrow> world \<Rightarrow> nat" where
  "lockWaits deadline w = nat ((deadline - w_now w + 19999999) div 20000000)"

lemma waitForLock_outcome:
  assumes "waitForLock deadline w = (r, w')"
  shows "w_flock w' = w_flock w" "w_tick w < w_tick w'"
    "w_tick w' \<le> w_tick w + (if w_now w + int (w_lag w (w_tick w)) < deadline then 2 else 1)"
    "r = Inr () \<Longrightarrow> w_now w < deadline \<and> (w_now w + 20000000 \<le> w_now w' \<or> deadline \<le> w_now w')"
  using assms
  by (auto simp: waitForLock_def io_bind_def ContextErr_def step_def Let_def min_def split: if_splits)

lemma lockWaits_later: "w_now w \<le> w_now w' \<Longrightarrow> lockWaits deadline w' \<le> lockWaits deadline w"
  by (simp add: lockWaits_def nat_mono zdiv_mono1)

lemma lockWaits_step: "lockWaits deadline (step w) \<le> lockWaits deadline w"
  by (rule lockWaits_later) (simp add: step_def)

lemma lockWaits_progress:
  assumes "w_now w < deadline" "w_now w + 20000000 \<le> w_now w' \<or> deadline \<le> w_now w'"
  shows "Suc (lockWaits deadline w') \<le> lockWaits deadline w"
proof -
  let ?a = "deadline - w_now w + 19999999" and ?b = "deadline - w_now w' + 19999999"
  have one: "1 \<le> ?a div 20000000" using zdiv_mono1 [of 20000000 ?a 20000000] assms(1) by simp
  have "(?a - 20000000) div 20000000 = ?a div 20000000 - 1" using div_add_self2 [of 20000000 "?a - 20000000"] by simp
  then have "?b div 20000000 \<le> ?a div 20000000 - 1 \<or> ?b div 20000000 \<le> 0"
    using assms(2) zdiv_mono1 [of ?b "?a - 20000000" 20000000] zdiv_mono1 [of ?b 19999999 20000000] by auto
  with one show ?thesis unfolding lockWaits_def by auto
qed

lemma lock_loop_bound:
  "lock_loop deadline w = (r, w') \<Longrightarrow>
    w_tick w < w_tick w' \<and> w_tick w' \<le> w_tick w + 3 * lockWaits deadline w + 2 \<and>
    (r = Inr () \<longrightarrow> (\<exists>t. w_tick w \<le> t \<and> t < w_tick w' \<and> w_flock w t = Locked))"
proof (induction deadline w arbitrary: r w' rule: lock_loop.induct)
  case (1 deadline w)
  have tick: "w_tick (step w) = Suc (w_tick w)" "w_flock (step w) = w_flock w" by (simp_all add: step_def)
  show ?case
  proof (cases "w_flock w (w_tick w)")
    case WouldBlock
    obtain r1 w1 where w1: "waitForLock deadline (step w) = (r1, w1)" by force
    note wait = waitForLock_outcome [OF w1]
    show ?thesis
    proof (cases r1)
      case (Inl e)
      then have "r = Inl e" "w' = w1" using 1(2) WouldBlock w1 by (simp_all add: lock_loop.simps [of deadline w])
      moreover have "w_tick w1 \<le> w_tick w + 3 * lockWaits deadline w + 2"
      proof (cases "w_now (step w) < deadline")
        case True
        then have "1 \<le> lockWaits deadline (step w)" unfolding lockWaits_def by linarith
        with lockWaits_step [of deadline w] wait(3) tick show ?thesis by (auto split: if_splits)
      next
        case False
        then have "\<not> w_now (step w) + int (w_lag (step w) (w_tick (step w))) < deadline" by simp
        with wait(3) tick show ?thesis by simp
      qed
      ultimately show ?thesis using wait(2) tick by simp
    next
      case (Inr u)
      then have run: "lock_loop deadline w1 = (r, w')" using 1(2) WouldBlock w1 by (simp add: lock_loop.simps [of deadline w])
      have ih: "w_tick w1 < w_tick w' \<and> w_tick w' \<le> w_tick w1 + 3 * lockWaits deadline w1 + 2 \<and>
          (r = Inr () \<longrightarrow> (\<exists>t. w_tick w1 \<le> t \<and> t < w_tick w' \<and> w_flock w1 t = Locked))"
        using 1(1) [OF WouldBlock w1 [symmetric] Inr run] by simp
      have "Suc (lockWaits deadline w1) \<le> lockWaits deadline (step w)"
        using lockWaits_progress [of "step w" deadline w1] wait(4) Inr by simp
      then have "w_tick w' \<le> w_tick w + 3 * lockWaits deadline w + 2"
        using ih lockWaits_step [of deadline w] wait(3) tick by (auto split: if_splits)
      moreover have "\<exists>t. w_tick w \<le> t \<and> t < w_tick w' \<and> w_flock w t = Locked" if "r = Inr ()"
        using ih that wait(1,2) tick by (metis Suc_leD less_imp_le_nat order_trans)
      ultimately show ?thesis using ih wait(2) tick by simp
    qed
  qed (use 1(2) tick in \<open>auto simp: lock_loop.simps [of deadline w]\<close>)
qed

text \<open>
  C25.  Taking the lock always ends: with the five-second timeout of the package it makes at most
  753 calls (attempts to lock and looks at the context together), whatever the other processes do,
  and it reports success only when one of its attempts was granted.
\<close>

theorem acquireLock_bounded:
  assumes "acquireLock h lockTimeout w = (r, w')"
  shows "w_tick w' \<le> w_tick w + 753 \<and>
    (r = Inr () \<longrightarrow> (\<exists>t. w_tick w \<le> t \<and> t < w_tick w' \<and> w_flock w t = Locked))"
proof (cases "w_done w (w_tick w)")
  case True
  then show ?thesis using assms by (auto simp: acquireLock_def io_bind_def ContextErr_def step_def)
next
  case False
  then have "lock_loop (w_now (step w) + lockTimeout) (step w) = (r, w')"
    using assms by (simp add: acquireLock_def io_bind_def ContextErr_def)
  moreover have "lockWaits (w_now (step w) + lockTimeout) (step w) = 250"
    by (simp add: lockWaits_def lockTimeout_def)
  moreover have "w_tick (step w) = Suc (w_tick w)" "w_flock (step w) = w_flock w" by (simp_all add: step_def)
  ultimately show ?thesis
    using lock_loop_bound [of "w_now (step w) + lockTimeout" "step w" r w'] by (auto dest: Suc_leD)
qed

theorem acquireLock_bounded_witness:
  "\<exists>w'. acquireLock 0 lockTimeout (sample_world\<lparr>w_flock := \<lambda>t. if t < 7 then WouldBlock else Locked\<rparr>) = (Inr (), w') \<and>
    w_tick w' \<le> 753"
proof -
  let ?w = "sample_world\<lparr>w_flock := \<lambda>t. if t < 7 then WouldBlock else Locked\<rparr>"
  have "fst (acquireLock 0 lockTimeout ?w) = Inr ()" by code_simp
  then show ?thesis
    using acquireLock_bounded [of 0 ?w "Inr ()" "snd (acquireLock 0 lockTimeout ?w)"]
    by (auto simp: sample_world_def prod_eq_iff)
qed

subsection \<open>Valid records always encode\<close>

lemma short_digest: "validDigest s \<Longrightarrow> short_scalar (AString s)"
  by (auto simp: short_scalar_def printable_validDigest validDigest_def)

lemma short_text: "printable s \<Longrightarrow> length s \<le> 71 \<Longrightarrow> short_scalar (AString s)"
  by (simp add: short_scalar_def)

lemma short_number: "n \<le> maxGeneration \<Longrightarrow> short_scalar (AInt k (int n))"
  by (simp add: short_scalar_def maxGeneration_def)

lemma short_scope: "validScope s \<Longrightarrow> short_scalar (AString s)"
  by (simp add: short_scalar_def printable_validScope validScope_def)

lemma short_kind: "known_kind s \<Longrightarrow> short_scalar (AString s)"
  by (rule short_text [OF printable_known_kind]) (auto simp: known_kind_def go_const)

lemmas short_facts = short_digest short_text short_number short_scope short_kind

lemma trust_encodes: "Trust_State.valid_record v \<Longrightarrow> \<exists>raw. Trust_State.canonicalRecord v = Some raw"
  using marshalRecord_fits [OF trust_record_members_flat(1), of v Trust_State.maxStateBytes]
  by (simp add: Trust_State.canonicalRecord_def Trust_State.record_members_def Trust_State.maxStateBytes_def
      Trust_State.valid_record_def Trust_State.validKeyID_def short_facts)

lemma chain_encodes: "Chain_State.validRecord v \<Longrightarrow> \<exists>raw. Chain_State.canonicalRecord v = Some raw"
  using marshalRecord_fits [OF chain_record_members_flat(1), of v Chain_State.maxStateBytes]
  by (simp add: Chain_State.canonicalRecord_def Chain_State.record_members_def Chain_State.maxStateBytes_def
      Chain_State.validRecord_def Chain_State.validObservation_def Chain_State.record_observation_def
      Chain_State.validKeyID_def Chain_State.Purpose_def Chain_State.PolicyPayloadType_def short_facts maxGeneration_def)

lemma rotation_encodes: "Rotation_State.validRecord v \<Longrightarrow> \<exists>raw. Rotation_State.canonicalRecord v = Some raw"
  using marshalRecord_fits [OF rotation_record_members_flat(1), of v Rotation_State.maxStateBytes]
  by (simp add: Rotation_State.canonicalRecord_def Rotation_State.record_members_def Rotation_State.maxStateBytes_def
      Rotation_State.validRecord_def Rotation_State.validObservation_def Rotation_State.record_observation_def
      Rotation_State.validKeyID_def Rotation_State.Purpose_def Rotation_State.PolicyPayloadType_def short_facts)

lemma release_encodes: "Release_State.valid_record v \<Longrightarrow> \<exists>raw. Release_State.canonicalRecord v = Some raw"
  using marshalRecord_fits [OF release_record_members_flat(1), of v Release_State.maxStateBytes]
  by (simp add: Release_State.canonicalRecord_def Release_State.record_members_def Release_State.maxStateBytes_def
      Release_State.valid_record_def Release_State.validKeyID_def short_facts)

text \<open>
  C26.  In every store a record passes the field checks exactly when it has canonical bytes within
  the size limit of the store that decode to it again; so the limit never rejects a valid record.
\<close>

theorem store_records_round_trip:
  "(Trust_State.valid_record t \<longleftrightarrow> (\<exists>raw. Trust_State.canonicalRecord t = Some raw \<and>
      length raw \<le> Trust_State.maxStateBytes \<and> Trust_State.decodeRecord raw = Some t)) \<and>
   (Chain_State.validRecord c \<longleftrightarrow> (\<exists>raw. Chain_State.canonicalRecord c = Some raw \<and>
      length raw \<le> Chain_State.maxStateBytes \<and> Chain_State.decodeRecord raw = Some c)) \<and>
   (Rotation_State.validRecord r \<longleftrightarrow> (\<exists>raw. Rotation_State.canonicalRecord r = Some raw \<and>
      length raw \<le> Rotation_State.maxStateBytes \<and> Rotation_State.decodeRecord raw = Some r)) \<and>
   (valid_record s \<longleftrightarrow> (\<exists>raw. canonicalRecord s = Some raw \<and>
      length raw \<le> maxStateBytes \<and> decodeRecord raw = Some s))"
proof (intro conjI)
  show "Trust_State.valid_record t \<longleftrightarrow> (\<exists>raw. Trust_State.canonicalRecord t = Some raw \<and>
      length raw \<le> Trust_State.maxStateBytes \<and> Trust_State.decodeRecord raw = Some t)"
    using trust_encodes [of t] trust.decode_canonical [of t] marshalRecord_bound
    by (auto simp: Trust_State.canonicalRecord_def split: if_splits)
  show "Chain_State.validRecord c \<longleftrightarrow> (\<exists>raw. Chain_State.canonicalRecord c = Some raw \<and>
      length raw \<le> Chain_State.maxStateBytes \<and> Chain_State.decodeRecord raw = Some c)"
    using chain_encodes [of c] chain.decode_canonical [of c] marshalRecord_bound
    by (auto simp: Chain_State.canonicalRecord_def split: if_splits)
  show "Rotation_State.validRecord r \<longleftrightarrow> (\<exists>raw. Rotation_State.canonicalRecord r = Some raw \<and>
      length raw \<le> Rotation_State.maxStateBytes \<and> Rotation_State.decodeRecord raw = Some r)"
    using rotation_encodes [of r] rotation.decode_canonical [of r] marshalRecord_bound
    by (auto simp: Rotation_State.canonicalRecord_def split: if_splits)
  show "Release_State.valid_record s \<longleftrightarrow> (\<exists>raw. Release_State.canonicalRecord s = Some raw \<and>
      length raw \<le> Release_State.maxStateBytes \<and> Release_State.decodeRecord raw = Some s)"
    using release_encodes [of s] release.decode_canonical [of s] marshalRecord_bound
    by (auto simp: Release_State.canonicalRecord_def split: if_splits)
qed

subsection \<open>A fault-free run of the trust store\<close>

definition trust_ready :: "world \<Rightarrow> bytes list \<Rightarrow> bytes \<Rightarrow> nat \<Rightarrow> nat \<Rightarrow> bool" where
  "trust_ready w q k i j \<longleftrightarrow> quiet w \<and> outside_repository w q \<and> \<not> containsNUL (abs_path q) \<and>
    (\<forall>p \<in> {[], [''trust-policy-state''], [''trust-policy-state'', ''v1'']}. private_dir 0x12 w (q @ p)) \<and>
    private_file w (q @ [''trust-policy-state'', ''v1'', trim_prefix k ''sha256:'' @ ''.lock'']) i \<and>
    private_file w (q @ [''trust-policy-state'', ''v1'', trim_prefix k ''sha256:'' @ ''.json'']) j"

lemma trust_stateRoot_answers:
  assumes "trust_ready w q k i j"
  shows "answers w (Trust_State.stateRoot (abs_path q)) (Inr (abs_path (q @ [''trust-policy-state'', ''v1''])))"
proof -
  have d: "private_dir 0x12 w q" "private_dir 0x12 w (q @ [''trust-policy-state''])"
    "private_dir 0x12 w (q @ [''trust-policy-state'', ''v1''])" and ok: "list_all name_ok q"
    using assms by (simp_all add: trust_ready_def private_dir_def dir_at_def)
  have names: "list_all name_ok [''trust-policy-state'']" "list_all name_ok [''v1'']"
    "list_all name_ok (q @ [''trust-policy-state''])" using ok by (simp_all add: name_ok_def)
  have j: "Join [abs_path q, ''trust-policy-state''] = abs_path (q @ [''trust-policy-state''])"
    "Join [abs_path (q @ [''trust-policy-state'']), ''v1''] = abs_path (q @ [''trust-policy-state'', ''v1''])"
    using Join_abs_path [OF ok names(1)] Join_abs_path [OF names(3,2)] by simp_all
  have r: "answers w (dataRootPath (abs_path q)) (Inr (abs_path q))"
    using assms d(1) by (intro answers_dataRootPath) (simp_all add: trust_ready_def private_dir_def)
  have c: "answers w (confirmRoot (abs_path (q @ [''trust-policy-state'', ''v1''])))
      (Inr (abs_path (q @ [''trust-policy-state'', ''v1''])))"
    using d(3) by (intro answers_confirmRoot) (simp add: private_dir_def)
  show ?thesis
    unfolding Trust_State.stateRoot_def Let_def
    by (rule answers_bind [OF r], rule answers_bind [OF answers_calls(4)],
        rule answers_bind [OF answers_privateDirectory [OF d(1)]], unfold j,
        rule answers_bind [OF answers_privateDirectory [OF d(2)]],
        rule answers_bind [OF answers_privateDirectory [OF d(3)]], rule c)
qed

lemma trust_Observe_run:
  assumes ready: "trust_ready w q (Trust_State.ob_AuthorityKeyID x) i j"
    and x: "Trust_State.valid_record (Trust_State.next_record x)"
    and s: "Trust_State.decodeRecord (i_data (w_inodes w j)) = Some s"
    and early: "Trust_State.compareStored x (Some s) = Some res" and v: "same_files w v" "quiet v"
  shows "\<exists>v'. Trust_State.Observe (abs_path q) x v = (res, v') \<and> same_files w v' \<and> quiet v'"
proof -
  let ?d = "q @ [''trust-policy-state'', ''v1'']" and ?n = "trim_prefix (Trust_State.ob_AuthorityKeyID x) ''sha256:''"
  have files: "private_file w (?d @ [?n @ ''.lock'']) i" "private_file w (?d @ [?n @ ''.json'']) j"
    using ready by (simp_all add: trust_ready_def)
  then have ok: "list_all name_ok ?d" "name_ok (?n @ ''.lock'')" "name_ok (?n @ ''.json'')"
    by (simp_all add: private_file_def present_def)
  have "length (i_data (w_inodes w j)) \<le> Trust_State.maxStateBytes"
    using s by (auto simp: Trust_State.decodeRecord_def decodeStrict_def split: if_splits option.splits)
  with files(2) s have rd: "answers w (readRecord Trust_State.maxStateBytes Trust_State.decodeRecord
      (abs_path (?d @ [?n @ ''.json'']))) (Inr (Some s))" by (intro answers_readRecord)
  have "answers w (underLock (Trust_State.stateRoot (abs_path q)) ?n (\<lambda>root statePath.
      compareAndStore (readRecord Trust_State.maxStateBytes Trust_State.decodeRecord statePath)
        (Trust_State.compareStored x) (Trust_State.writeAndVerifyRecord root statePath (Trust_State.next_record x))
        (Trust_State.stored_result x) Trust_State.failed_result)) (Inr res)"
    by (rule answers_underLock [OF trust_stateRoot_answers [OF ready] ok files(1)], rule answers_compare [OF rd], rule early)
  from answersD [OF this v] show ?thesis
    using x by (auto simp: Trust_State.Observe_def returning_def Trust_State.valid_record_def
        Trust_State.next_record_def)
qed

text \<open>
  C27.  When no call fails, the lock is free and the data directory is in order, Observe returns the
  comparison with the stored record: the very record matches, an older generation is a rollback, a
  different policy of the same generation an equivocation; no file changes.
\<close>

theorem trust_Observe_answers:
  assumes "trust_ready w q (Trust_State.ob_AuthorityKeyID x) i j"
    and "Trust_State.valid_record (Trust_State.next_record x)"
    and "Trust_State.decodeRecord (i_data (w_inodes w j)) = Some s"
    and "Trust_State.compareStored x (Some s) = Some res"
  shows "\<exists>w'. Trust_State.Observe (abs_path q) x w = (res, w') \<and> same_files w w'"
proof -
  have "same_files w w" "quiet w" using assms(1) by (simp_all add: trust_ready_def same_files_def)
  from trust_Observe_run [OF assms this] show ?thesis by blast
qed

text \<open>A data directory that holds the record of the sample observation.\<close>

definition sample_hex :: bytes where
  "sample_hex = replicate 64 (CHR ''a'')"

definition sample_raw :: bytes where
  "sample_raw = the (Trust_State.canonicalRecord (Trust_State.next_record Trust_State.sample_observation))"

definition ready_world :: world where
  "ready_world = \<lparr>w_names = Map.empty([] \<mapsto> 0, [''data''] \<mapsto> 1, [''data'', ''trust-policy-state''] \<mapsto> 2,
       [''data'', ''trust-policy-state'', ''v1''] \<mapsto> 3,
       [''data'', ''trust-policy-state'', ''v1'', sample_hex @ ''.lock''] \<mapsto> 4,
       [''data'', ''trust-policy-state'', ''v1'', sample_hex @ ''.json''] \<mapsto> 5),
     w_inodes = (\<lambda>i. if i < 4 then \<lparr>i_kind = NDir, i_perm = 0x1C0, i_uid = 1000, i_nlink = 2, i_data = []\<rparr>
       else \<lparr>i_kind = NFile, i_perm = 0x180, i_uid = 1000, i_nlink = 1, i_data = (if i = 5 then sample_raw else [])\<rparr>),
     w_next = 6, w_cwd = ''/'', w_euid = 1000, w_umask = 0x12, w_tick = 0, w_now = 0, w_fault = (\<lambda>_. False),
     w_short = (\<lambda>_. 0), w_random = (\<lambda>n. n), w_done = (\<lambda>_. False), w_flock = (\<lambda>_. Locked), w_lag = (\<lambda>_. 1)\<rparr>"

lemma sample_valid: "Trust_State.valid_record (Trust_State.next_record Trust_State.sample_observation)"
  by (simp add: Trust_State.valid_record_def Trust_State.next_record_def Trust_State.sample_observation_def
      Trust_State.validKeyID_def validDigest_def has_prefix_def list_all_iff is_lower_hex_def is_digit_def maxGeneration_def)

lemma sample_raw_decodes:
  "Trust_State.decodeRecord sample_raw = Some (Trust_State.next_record Trust_State.sample_observation)"
  using trust_encodes [OF sample_valid] trust.decode_canonical by (auto simp: sample_raw_def)

lemma sample_hex_ok: "name_ok (sample_hex @ ''.lock'')" "name_ok (sample_hex @ ''.json'')"
  by (rule hex_name_ok; simp add: sample_hex_def list_all_iff is_lower_hex_def is_digit_def)+

lemma wf_ready_world: "wf_world ready_world"
proof -
  have names: "w_names ready_world q = Some i \<Longrightarrow> i < 6 \<and> is_dir ready_world (butlast q)" for q i
    by (auto simp: ready_world_def is_dir_def node_def split: if_splits)
  then have "is_dir ready_world q" if "w_names ready_world (q @ [c]) = Some i" for q c i
    using names [OF that] by simp
  then show ?thesis
    using names by (auto simp: wf_world_def ready_world_def IsAbs_def is_dir_def node_def split: if_splits)
qed

lemma trust_ready_world:
  "trust_ready ready_world [''data''] (Trust_State.ob_AuthorityKeyID Trust_State.sample_observation) 4 5"
proof -
  have "trim_prefix (Trust_State.ob_AuthorityKeyID Trust_State.sample_observation) ''sha256:'' = sample_hex"
    unfolding Trust_State.sample_observation_def sample_hex_def by (simp only: Trust_State.observation.simps trim_prefix_append)
  moreover have "private_dir 0x12 ready_world (''data'' # p)"
    if "p \<in> {[], [''trust-policy-state''], [''trust-policy-state'', ''v1'']}" for p
    using that wf_ready_world
    by (auto simp: private_dir_def dir_at_def is_dir_def node_def ready_world_def name_ok_def)
  moreover have "private_file ready_world [''data'', ''trust-policy-state'', ''v1'', sample_hex @ ''.lock''] 4"
    "private_file ready_world [''data'', ''trust-policy-state'', ''v1'', sample_hex @ ''.json''] 5"
    using wf_ready_world sample_hex_ok by (auto simp: private_file_def present_def ready_world_def name_ok_def)
  moreover have "outside_repository ready_world [''data'']"
    by (auto simp: outside_repository_def ready_world_def le_Suc_eq)
  ultimately show ?thesis
    by (auto simp: trust_ready_def quiet_def ready_world_def containsNUL_def abs_path_def)
qed

definition sample_matched :: "Trust_State.Result \<times> bytes option" where
  "sample_matched = (\<lparr>Trust_State.Result.res_Evaluation = Trust_State.EvaluationMatched,
     Trust_State.Result.res_Generation = 5\<rparr>, None)"

lemma sample_comparison: "Trust_State.compareStored Trust_State.sample_observation
    (Some (Trust_State.next_record Trust_State.sample_observation)) = Some sample_matched"
  by (simp add: Trust_State.compareStored_def Trust_State.next_record_def Trust_State.sample_observation_def
      sample_matched_def)

lemma ready_record: "Trust_State.decodeRecord (i_data (w_inodes ready_world 5))
    = Some (Trust_State.next_record Trust_State.sample_observation)"
  using sample_raw_decodes by (simp add: ready_world_def)

lemma data_path: "abs_path [''data''] = ''/data''"
  by (simp add: abs_path_def)

theorem trust_Observe_answers_witness:
  "\<exists>w'. Trust_State.Observe ''/data'' Trust_State.sample_observation ready_world = (sample_matched, w') \<and>
    same_files ready_world w'"
  using trust_Observe_answers [OF trust_ready_world sample_valid ready_record sample_comparison]
  by (simp only: data_path)


end
