(* ===== verification/Json_Number.thy ===== *)
theory Json_Number
  imports Go_Value Complex_Main
begin

section \<open>Numbers of structured JSON (\<^verbatim>\<open>internal/structuredjson\<close>)\<close>

text \<open>
  \<^verbatim>\<open>number_limits.go\<close> checks the number grammar and bounds the exponent before a validator
  can build powers of ten; \<^verbatim>\<open>equal.go\<close> brings number lexemes into a normal form and compares
  those.  The theorems say that the first accepts exactly the numbers of the JSON grammar whose
  explicit and effective exponents are at most 1000 in magnitude, and that the second compares
  numbers by their exact value.
\<close>

subsection \<open>The exponent limit\<close>

definition MaxJSONNumberExponent :: nat where
  "MaxJSONNumberExponent = 1000"

definition nl_integer :: "bytes \<Rightarrow> bytes option" where
  "nl_integer s =
    (case s of
       [] \<Rightarrow> None
     | c # r \<Rightarrow>
         if c = CHR ''0'' then (if r \<noteq> [] \<and> is_digit (hd r) then None else Some r)
         else if is_digit c then Some (dropWhile is_digit s)
         else None)"

definition nl_fraction :: "bytes \<Rightarrow> (nat \<times> bytes) option" where
  "nl_fraction s =
    (case s of
       [] \<Rightarrow> Some (0, [])
     | c # r \<Rightarrow>
         if c = CHR ''.'' then
           (let n = length (takeWhile is_digit r) in
            if n = 0 then None else Some (n, dropWhile is_digit r))
         else Some (0, s))"

definition exponent_step :: "nat \<times> bool \<Rightarrow> byte \<Rightarrow> nat \<times> bool" where
  "exponent_step st c =
    (case st of (magnitude, exceeds) \<Rightarrow>
       if magnitude > (MaxJSONNumberExponent - digit_val c) div 10 then (magnitude, True)
       else if \<not> exceeds then (magnitude * 10 + digit_val c, exceeds)
       else (magnitude, exceeds))"

definition nl_exponent_digits :: "int \<Rightarrow> bytes \<Rightarrow> (int option \<times> bytes) option" where
  "nl_exponent_digits sign s =
    (if takeWhile is_digit s = [] then None
     else case foldl exponent_step (0, False) (takeWhile is_digit s) of (magnitude, exceeds) \<Rightarrow>
       Some (if exceeds then None else Some (sign * int magnitude), dropWhile is_digit s))"

text \<open>The exponent part: no part, a part within the limit or one beyond it, and the input after it.\<close>

definition nl_exponent :: "bytes \<Rightarrow> (int option \<times> bytes) option" where
  "nl_exponent s =
    (case s of
       [] \<Rightarrow> Some (Some 0, [])
     | c # r \<Rightarrow>
         if c \<noteq> CHR ''e'' \<and> c \<noteq> CHR ''E'' then Some (Some 0, s)
         else case r of
           [] \<Rightarrow> None
         | d # q \<Rightarrow>
             if d = CHR ''+'' then nl_exponent_digits 1 q
             else if d = CHR ''-'' then nl_exponent_digits (- 1) q
             else nl_exponent_digits 1 r)"

definition jsonNumberWithinExponentLimit :: "bytes \<Rightarrow> bool \<times> bool" where
  "jsonNumberWithinExponentLimit raw =
    (case nl_integer (if raw \<noteq> [] \<and> hd raw = CHR ''-'' then tl raw else raw) of
       None \<Rightarrow> (False, False)
     | Some s2 \<Rightarrow>
         (case nl_fraction s2 of
            None \<Rightarrow> (False, False)
          | Some (fractionDigits, s3) \<Rightarrow>
              (case nl_exponent s3 of
                 None \<Rightarrow> (False, False)
               | Some (explicitExponent, s4) \<Rightarrow>
                   if s4 \<noteq> [] then (False, False)
                   else case explicitExponent of
                     None \<Rightarrow> (False, True)
                   | Some e \<Rightarrow>
                       (let effectiveExponent = e - int fractionDigits in
                        (- int MaxJSONNumberExponent \<le> effectiveExponent \<and>
                         effectiveExponent \<le> int MaxJSONNumberExponent, True)))))"

subsection \<open>The normal form of a number\<close>

record decimalNumber =
  dn_negative :: bool
  dn_digits :: bytes
  dn_exponent :: int

definition decimal_equal :: "decimalNumber \<Rightarrow> decimalNumber \<Rightarrow> bool" where
  "decimal_equal n other \<longleftrightarrow> dn_negative n = dn_negative other \<and> dn_digits n = dn_digits other \<and>
    dn_exponent n = dn_exponent other"

text \<open>\<^verbatim>\<open>big.Int.SetString\<close> in base ten: an optional sign and digits.\<close>

definition big_SetString :: "bytes \<Rightarrow> int option" where
  "big_SetString s =
    (let neg = (s \<noteq> [] \<and> hd s = CHR ''-''); t = (if s \<noteq> [] \<and> (hd s = CHR ''-'' \<or> hd s = CHR ''+'') then tl s else s)
     in if \<not> all_digits t then None else Some ((if neg then - 1 else 1) * int (digits_val t)))"

definition is_exp_mark :: "byte \<Rightarrow> bool" where
  "is_exp_mark c \<longleftrightarrow> c = CHR ''e'' \<or> c = CHR ''E''"

definition trim_zeros_left :: "bytes \<Rightarrow> bytes" where
  "trim_zeros_left s = dropWhile (\<lambda>c. c = CHR ''0'') s"

definition trim_zeros_right :: "bytes \<Rightarrow> bytes" where
  "trim_zeros_right s = rev (trim_zeros_left (rev s))"

text \<open>The digits of the mantissa and the exponent, put into the normal form.\<close>

definition normal_decimal :: "bool \<Rightarrow> bytes \<Rightarrow> bytes \<Rightarrow> int \<Rightarrow> decimalNumber" where
  "normal_decimal negative integerPart fractionPart explicitExponent =
    (let digits = trim_zeros_left (integerPart @ fractionPart) in
     if digits = [] then \<lparr>dn_negative = False, dn_digits = ''0'', dn_exponent = 0\<rparr>
     else let trailingZeros = length digits - length (trim_zeros_right digits) in
       \<lparr>dn_negative = negative, dn_digits = take (length digits - trailingZeros) digits,
        dn_exponent = explicitExponent - int (length fractionPart) + int trailingZeros\<rparr>)"

definition split_mantissa :: "bytes \<Rightarrow> (bytes \<times> bytes) option" where
  "split_mantissa mantissa =
    (let integerPart = takeWhile (\<lambda>c. c \<noteq> CHR ''.'') mantissa;
         dot = dropWhile (\<lambda>c. c \<noteq> CHR ''.'') mantissa;
         fractionPart = drop 1 dot
     in if CHR ''.'' \<in> set fractionPart then None
        else if integerPart = [] \<or> \<not> all_digits integerPart \<or> fractionPart \<noteq> [] \<and> \<not> all_digits fractionPart
        then None
        else if length integerPart > 1 \<and> hd integerPart = CHR ''0'' then None
        else if dot \<noteq> [] \<and> fractionPart = [] then None
        else Some (integerPart, fractionPart))"

definition split_exponent :: "bytes \<Rightarrow> (bytes \<times> int) option" where
  "split_exponent raw =
    (case dropWhile (\<lambda>c. \<not> is_exp_mark c) raw of
       [] \<Rightarrow> Some (raw, 0)
     | _ # exponentText \<Rightarrow>
         if exponentText = [] \<or> (\<exists>c \<in> set exponentText. is_exp_mark c) then None
         else map_option (\<lambda>e. (takeWhile (\<lambda>c. \<not> is_exp_mark c) raw, e)) (big_SetString exponentText))"

definition parseDecimal :: "bytes \<Rightarrow> decimalNumber option" where
  "parseDecimal raw =
    (if raw = [] then None
     else let negative = (hd raw = CHR ''-''); rest = (if negative then tl raw else raw) in
       if rest = [] then None
       else case split_exponent rest of
         None \<Rightarrow> None
       | Some (mantissa, explicitExponent) \<Rightarrow>
           map_option (\<lambda>(ip, fp). normal_decimal negative ip fp explicitExponent) (split_mantissa mantissa))"

subsection \<open>The shape of a number\<close>

definition frac_part :: "bytes \<Rightarrow> bytes \<Rightarrow> bool" where
  "frac_part fp ds \<longleftrightarrow> fp = [] \<and> ds = [] \<or> fp = CHR ''.'' # ds \<and> all_digits ds"

definition exp_part :: "bytes \<Rightarrow> int \<Rightarrow> bool" where
  "exp_part ep e \<longleftrightarrow> ep = [] \<and> e = 0 \<or>
    (\<exists>m sg ds. ep = m # sg @ ds \<and> is_exp_mark m \<and> sg \<in> {[], ''+'', ''-''} \<and> all_digits ds \<and>
      e = (if sg = ''-'' then - 1 else 1) * int (digits_val ds))"

definition minus_sign :: "bool \<Rightarrow> bytes" where
  "minus_sign neg = (if neg then ''-'' else [])"

lemma digit_not_mark: "is_digit c \<Longrightarrow> \<not> is_exp_mark c" "is_digit c \<Longrightarrow> c \<noteq> CHR ''.''" "is_digit c \<Longrightarrow> c \<noteq> CHR ''-''"
  "is_digit c \<Longrightarrow> c \<noteq> CHR ''+''"
  by (auto simp: is_digit_def is_exp_mark_def)

lemma exp_part_stop: "exp_part ep e \<Longrightarrow> no_digit_hd ep"
  by (auto simp: exp_part_def no_digit_hd_def dest: digit_not_mark)

lemma frac_part_stop: "frac_part fp ds \<Longrightarrow> no_digit_hd r \<Longrightarrow> no_digit_hd (fp @ r)"
  by (auto simp: frac_part_def no_digit_hd_def is_digit_def)

lemma int_part_digits: "int_part ip \<Longrightarrow> all_digits ip"
  by (auto simp: int_part_def all_digits_def is_digit_def)

subsection \<open>What the exponent check computes\<close>

lemma nl_integer_part: "int_part ip \<Longrightarrow> no_digit_hd r \<Longrightarrow> nl_integer (ip @ r) = Some r"
  using digits_span [of ip r]
  by (cases ip) (auto simp: nl_integer_def int_part_def all_digits_def no_digit_hd_def split: list.splits)

lemma digit_run:
  "\<forall>c \<in> set ds. is_digit c \<Longrightarrow> takeWhile is_digit ds = ds"
  "\<forall>c \<in> set ds. is_digit c \<Longrightarrow> dropWhile is_digit ds = []"
  by simp_all

lemma nl_fraction_part: "frac_part fp ds \<Longrightarrow> no_digit_hd r \<Longrightarrow> (fp = [] \<longrightarrow> r = [] \<or> hd r \<noteq> CHR ''.'') \<Longrightarrow>
    nl_fraction (fp @ r) = Some (length ds, r)"
  using digits_span [of ds r]
  by (cases "r = []") (auto simp: nl_fraction_def frac_part_def all_digits_def Let_def digit_run split: list.splits)

lemma exponent_step_digit:
  assumes "is_digit c"
  shows "exponent_step (m, ex) c = (if 10 * m + digit_val c > 1000 then (m, True)
    else if ex then (m, True) else (10 * m + digit_val c, False))"
proof -
  have "digit_val c < 10" using assms by (auto simp: is_digit_def digit_val_def)
  then have "(m > (1000 - digit_val c) div 10) = (10 * m + digit_val c > 1000)" by linarith
  then show ?thesis by (simp add: exponent_step_def MaxJSONNumberExponent_def)
qed

lemma exponent_fold:
  "\<forall>c \<in> set ds. is_digit c \<Longrightarrow> (case foldl exponent_step (0, False) ds of (m, ex) \<Rightarrow>
    (ex \<longleftrightarrow> digits_val ds > 1000) \<and> (\<not> ex \<longrightarrow> m = digits_val ds))"
proof (induction ds rule: rev_induct)
  case (snoc c ds)
  obtain m ex where st: "foldl exponent_step (0, False) ds = (m, ex)" by force
  with snoc have "(ex \<longleftrightarrow> digits_val ds > 1000) \<and> (\<not> ex \<longrightarrow> m = digits_val ds)" by simp
  with st snoc.prems show ?case by (cases ex) (auto simp: exponent_step_digit)
qed (simp add: digits_val_def)

lemma nl_exponent_digits_part:
  assumes "all_digits ds"
  shows "nl_exponent_digits sign ds = Some (if digits_val ds \<le> 1000 then Some (sign * int (digits_val ds)) else None, [])"
proof -
  have span: "takeWhile is_digit ds = ds" "dropWhile is_digit ds = []" "ds \<noteq> []" "\<forall>c \<in> set ds. is_digit c"
    using assms digits_span [of ds "[]"] by (auto simp: all_digits_def no_digit_hd_def)
  obtain m ex where "foldl exponent_step (0, False) ds = (m, ex)" by force
  with exponent_fold [OF span(4)] span(3) show ?thesis unfolding nl_exponent_digits_def span(1,2) by auto
qed

lemma nl_exponent_part:
  assumes "exp_part ep e"
  shows "nl_exponent ep = Some (if \<bar>e\<bar> \<le> 1000 then Some e else None, [])"
  using assms unfolding exp_part_def
proof (elim disjE exE conjE)
  fix m sg ds
  assume ep: "ep = m # sg @ ds" and m: "is_exp_mark m" and sg: "sg \<in> {[], ''+'', ''-''}" and ds: "all_digits ds"
    and e: "e = (if sg = ''-'' then - 1 else 1) * int (digits_val ds)"
  obtain x xs where x: "ds = x # xs" "x \<noteq> CHR ''-''" "x \<noteq> CHR ''+''"
    using ds digit_not_mark by (cases ds) (auto simp: all_digits_def)
  have "nl_exponent ep = (if sg = ''-'' then nl_exponent_digits (- 1) ds else nl_exponent_digits 1 ds)"
    using sg m x unfolding ep by (auto simp: nl_exponent_def is_exp_mark_def)
  with nl_exponent_digits_part [OF ds] show ?thesis by (simp add: e)
qed (simp add: nl_exponent_def)

lemma limit_of_shape:
  assumes "int_part ip" "frac_part fp ds" "exp_part ep e"
  shows "jsonNumberWithinExponentLimit (minus_sign neg @ ip @ fp @ ep)
    = (\<bar>e\<bar> \<le> 1000 \<and> \<bar>e - int (length ds)\<bar> \<le> 1000, True)"
proof -
  have "nl_integer (ip @ fp @ ep) = Some (fp @ ep)" "nl_fraction (fp @ ep) = Some (length ds, ep)"
    using nl_integer_part [OF assms(1) frac_part_stop [OF assms(2) exp_part_stop [OF assms(3)]]]
      nl_fraction_part [OF assms(2) exp_part_stop [OF assms(3)]] assms(3)
    by (auto simp: exp_part_def is_exp_mark_def)
  moreover have "ip \<noteq> []" "hd ip \<noteq> CHR ''-''"
    using int_part_digits [OF assms(1)] digit_not_mark by (auto simp: all_digits_def dest: list.set_sel(1))
  ultimately show ?thesis
    using nl_exponent_part [OF assms(3)]
    by (auto simp: jsonNumberWithinExponentLimit_def minus_sign_def Let_def MaxJSONNumberExponent_def)
qed

lemma nl_integer_Some:
  assumes "nl_integer s = Some r"
  shows "\<exists>ip. s = ip @ r \<and> int_part ip \<and> no_digit_hd r"
proof (cases s)
  case (Cons c t)
  show ?thesis
  proof (cases "c = CHR ''0''")
    case True
    then have "s = ''0'' @ r" "no_digit_hd r"
      using assms Cons by (auto simp: nl_integer_def no_digit_hd_def split: if_splits list.splits)
    then show ?thesis by (auto simp: int_part_def)
  next
    case False
    then have "is_digit c" "r = dropWhile is_digit s"
      using assms Cons by (auto simp: nl_integer_def split: if_splits)
    moreover from this have "int_part (takeWhile is_digit s)"
      using False Cons by (auto simp: int_part_def all_digits_def dest: set_takeWhileD)
    moreover have "no_digit_hd (dropWhile is_digit s)"
      using hd_dropWhile [of is_digit s] by (cases "dropWhile is_digit s") (simp_all add: no_digit_hd_def)
    ultimately show ?thesis using takeWhile_dropWhile_id by metis
  qed
qed (use assms in \<open>simp add: nl_integer_def\<close>)

lemma nl_fraction_Some:
  assumes "nl_fraction s = Some (n, r)"
  shows "\<exists>fp ds. s = fp @ r \<and> frac_part fp ds \<and> n = length ds"
proof (cases s)
  case (Cons c t)
  show ?thesis
  proof (cases "c = CHR ''.''")
    case True
    then have "n = length (takeWhile is_digit t)" "n \<noteq> 0" "r = dropWhile is_digit t"
      using assms Cons by (auto simp: nl_fraction_def Let_def split: if_splits)
    moreover from this have "frac_part (c # takeWhile is_digit t) (takeWhile is_digit t)"
      using True by (auto simp: frac_part_def all_digits_def dest: set_takeWhileD)
    ultimately show ?thesis using Cons takeWhile_dropWhile_id [of is_digit t]
      by (intro exI [of _ "c # takeWhile is_digit t"] exI [of _ "takeWhile is_digit t"]) simp
  qed (use assms Cons in \<open>auto simp: nl_fraction_def frac_part_def\<close>)
qed (use assms in \<open>auto simp: nl_fraction_def frac_part_def\<close>)

lemma nl_exponent_digits_Some:
  assumes "nl_exponent_digits sign s = Some (e, [])"
  shows "all_digits s"
proof -
  have "takeWhile is_digit s \<noteq> []" "dropWhile is_digit s = []"
    using assms by (auto simp: nl_exponent_digits_def split: if_splits prod.splits)
  then show ?thesis by (auto simp: all_digits_def)
qed

lemma nl_exponent_Some:
  assumes "nl_exponent s = Some (e, [])"
  shows "\<exists>x. exp_part s x"
proof -
  have exp: "exp_part (m # sg @ ds) ((if sg = ''-'' then - 1 else 1) * int (digits_val ds))"
    if "is_exp_mark m" "sg \<in> {[], ''+'', ''-''}" "all_digits ds" for m sg ds
    using that unfolding exp_part_def by blast
  consider "s = []" | m d q where "s = m # d # q" "is_exp_mark m"
    using assms by (auto simp: nl_exponent_def is_exp_mark_def split: list.splits if_splits)
  then show ?thesis
  proof cases
    case (2 m d q)
    then consider "d = CHR ''+''" "all_digits q" | "d = CHR ''-''" "all_digits q" | "all_digits (d # q)"
      using assms nl_exponent_digits_Some
      by (auto simp: nl_exponent_def is_exp_mark_def split: if_splits)
    then show ?thesis
      using exp [OF 2(2), of "''+''" q] exp [OF 2(2), of "''-''" q] exp [OF 2(2), of "[]" "d # q"] 2(1)
      by cases auto
  qed (auto simp: exp_part_def)
qed

definition number_shape :: "bytes \<Rightarrow> bool \<Rightarrow> bytes \<Rightarrow> bytes \<Rightarrow> int \<Rightarrow> bool" where
  "number_shape raw neg ip ds e \<longleftrightarrow> (\<exists>fp ep. raw = minus_sign neg @ ip @ fp @ ep \<and>
    int_part ip \<and> frac_part fp ds \<and> exp_part ep e)"

lemma limit_cases:
  obtains "jsonNumberWithinExponentLimit raw = (False, False)"
  | neg s s2 n s3 e where "raw = minus_sign neg @ s" "nl_integer s = Some s2" "nl_fraction s2 = Some (n, s3)"
    "nl_exponent s3 = Some (e, [])"
proof -
  define s where "s = (if raw \<noteq> [] \<and> hd raw = CHR ''-'' then tl raw else raw)"
  have raw: "raw = minus_sign (raw \<noteq> [] \<and> hd raw = CHR ''-'') @ s"
    by (cases raw) (auto simp: minus_sign_def s_def)
  note limit = jsonNumberWithinExponentLimit_def [of raw, folded s_def]
  show thesis
  proof (cases "nl_integer s")
    case (Some s2)
    note int = Some
    show thesis
    proof (cases "nl_fraction s2")
      case (Some f)
      obtain n s3 where f: "f = (n, s3)" by force
      note frac = Some [unfolded f]
      show thesis
      proof (cases "nl_exponent s3")
        case (Some g)
        obtain e s4 where g: "g = (e, s4)" by force
        show thesis
        proof (cases "s4 = []")
          case True
          then show thesis using that(2) [OF raw int frac] Some g by simp
        qed (use that(1) int frac Some g in \<open>simp add: limit\<close>)
      qed (use that(1) int frac in \<open>simp add: limit\<close>)
    qed (use that(1) int in \<open>simp add: limit\<close>)
  qed (use that(1) in \<open>simp add: limit\<close>)
qed

lemma limit_valid_shape:
  assumes "jsonNumberWithinExponentLimit raw \<noteq> (False, False)"
  shows "\<exists>neg ip ds e. number_shape raw neg ip ds e"
proof (cases raw rule: limit_cases)
  case (2 neg s s2 n s3 e)
  obtain ip where "s = ip @ s2" "int_part ip" using nl_integer_Some [OF 2(2)] by blast
  moreover obtain fp ds where "s2 = fp @ s3" "frac_part fp ds" using nl_fraction_Some [OF 2(3)] by blast
  moreover obtain x where "exp_part s3 x" using nl_exponent_Some [OF 2(4)] by blast
  ultimately have "number_shape raw neg ip ds x" using 2(1) unfolding number_shape_def by blast
  then show ?thesis by blast
qed (use assms in simp)

subsection \<open>The grammar\<close>

lemma scan_int_Some: "scan_int s = Some (i, r) \<Longrightarrow> s = i @ r \<and> int_part i"
proof (cases s)
  case (Cons c t)
  assume a: "scan_int s = Some (i, r)"
  show ?thesis
  proof (cases "c = CHR ''0''")
    case False
    then have "is_digit c" "i = takeWhile is_digit s" "r = dropWhile is_digit s"
      using a Cons by (auto simp: scan_int_def split: if_splits)
    with False Cons show ?thesis by (auto simp: int_part_def all_digits_def dest: set_takeWhileD)
  qed (use a Cons in \<open>auto simp: scan_int_def int_part_def\<close>)
qed (simp add: scan_int_def)

lemma scan_frac_Some: "scan_frac s = Some (f, r) \<Longrightarrow> s = f @ r \<and> (\<exists>ds. frac_part f ds)"
  by (cases s) (auto simp: scan_frac_def frac_part_def all_digits_def split: if_splits dest: set_takeWhileD)

lemma scan_exp_Some:
  assumes "scan_exp s = Some (ex, [])"
  shows "s = ex \<and> (\<exists>e. exp_part ex e)"
proof -
  have run: "all_digits q" if "scan_exp_digits p q = Some (x, [])" for p q x
    using that by (auto simp: scan_exp_digits_def all_digits_def split: if_splits)
  have whole: "x = p @ q" if "scan_exp_digits p q = Some (x, [])" for p q x
    using that by (auto simp: scan_exp_digits_def digit_run split: if_splits)
  have exp: "\<exists>e. exp_part (m # sg @ ds) e"
    if "is_exp_mark m" "sg \<in> {[], ''+'', ''-''}" "all_digits ds" for m sg ds
    using that unfolding exp_part_def by blast
  consider "s = []" "ex = []" | m d q where "s = m # d # q" "is_exp_mark m"
    using assms by (auto simp: scan_exp_def is_exp_mark_def split: list.splits if_splits)
  then show ?thesis
  proof cases
    case (2 m d q)
    then consider "d = CHR ''+'' \<or> d = CHR ''-''" "scan_exp_digits [m, d] q = Some (ex, [])"
      | "scan_exp_digits [m] (d # q) = Some (ex, [])"
      using assms by (auto simp: scan_exp_def is_exp_mark_def split: if_splits)
    then show ?thesis
    proof cases
      case 1
      then show ?thesis using exp [OF 2(2), of "[d]" q] run whole 2(1) by fastforce
    next
      case 2
      then show ?thesis using exp [of m "[]" "d # q"] run whole \<open>s = m # d # q\<close> \<open>is_exp_mark m\<close> by fastforce
    qed
  qed (auto simp: exp_part_def)
qed

lemma valid_number_shape:
  assumes "valid_number raw"
  shows "\<exists>neg ip ds e. number_shape raw neg ip ds e"
proof -
  have "\<exists>neg s l. raw = minus_sign neg @ s \<and> scan_unsigned s = Some (l, [])"
  proof (cases "\<exists>t. raw = CHR ''-'' # t")
    case True
    then show ?thesis
      using assms by (intro exI [of _ True]) (auto simp: valid_number_def scan_number_def minus_sign_def)
  next
    case False
    then show ?thesis
      using assms by (intro exI [of _ False]) (cases raw; auto simp: valid_number_def scan_number_def minus_sign_def)
  qed
  then obtain neg s l where raw: "raw = minus_sign neg @ s" and s: "scan_unsigned s = Some (l, [])" by blast
  obtain i s2 f s3 ex where parts: "scan_int s = Some (i, s2)" "scan_frac s2 = Some (f, s3)" "scan_exp s3 = Some (ex, [])"
    using s by (auto simp: scan_unsigned_def split: option.splits)
  then have "s = i @ f @ ex" "int_part i" using scan_int_Some scan_frac_Some scan_exp_Some by fastforce+
  moreover obtain ds e where "frac_part f ds" "exp_part ex e"
    using parts(2,3) scan_frac_Some scan_exp_Some by blast
  ultimately show ?thesis using raw unfolding number_shape_def by blast
qed

lemma scan_exp_shape: "exp_part ep e \<Longrightarrow> scan_exp ep = Some (ep, [])"
  unfolding exp_part_def
proof (elim disjE exE conjE)
  fix m sg ds
  assume ep: "ep = m # sg @ ds" and m: "is_exp_mark m" and sg: "sg \<in> {[], ''+'', ''-''}" and ds: "all_digits ds"
  obtain x xs where x: "ds = x # xs" "x \<noteq> CHR ''-''" "x \<noteq> CHR ''+''"
    using ds digit_not_mark by (cases ds) (auto simp: all_digits_def)
  have run: "scan_exp_digits p ds = Some (p @ ds, [])" for p
    using ds by (auto simp: scan_exp_digits_def all_digits_def digit_run)
  show ?thesis
    using sg m x run [of "[m]"] run [of "m # sg"] unfolding ep by (auto simp: scan_exp_def is_exp_mark_def)
qed (simp add: scan_exp_def)

lemma shape_valid_number:
  assumes "number_shape raw neg ip ds e"
  shows "valid_number raw"
proof -
  obtain fp ep where raw: "raw = minus_sign neg @ ip @ fp @ ep" and ip: "int_part ip" and fp: "frac_part fp ds"
    and ep: "exp_part ep e" using assms unfolding number_shape_def by blast
  have "scan_int (ip @ fp @ ep) = Some (ip, fp @ ep)"
    by (rule scan_int_part [OF ip frac_part_stop [OF fp exp_part_stop [OF ep]]])
  moreover have "scan_frac (fp @ ep) = Some (fp, ep)"
  proof (cases "fp = []")
    case True
    then show ?thesis using ep by (auto simp: scan_frac_def exp_part_def is_exp_mark_def)
  next
    case False
    then show ?thesis using fp scan_frac_part [OF _ exp_part_stop [OF ep]] by (auto simp: frac_part_def)
  qed
  ultimately have u: "scan_unsigned (ip @ fp @ ep) = Some (ip @ fp @ ep, [])"
    using scan_exp_shape [OF ep] by (simp add: scan_unsigned_def)
  obtain c r where "ip = c # r" "c \<noteq> CHR ''-''"
    using int_part_digits [OF ip] digit_not_mark by (cases ip) (auto simp: all_digits_def)
  with u show ?thesis unfolding raw by (auto simp: valid_number_def scan_number_def minus_sign_def)
qed

text \<open>The parts of a lexeme, read off independently of the scanners.\<close>

definition lexeme_mantissa :: "bytes \<Rightarrow> bytes" where
  "lexeme_mantissa raw = takeWhile (\<lambda>c. \<not> is_exp_mark c) raw"

definition lexeme_exponent :: "bytes \<Rightarrow> int" where
  "lexeme_exponent raw =
    (case dropWhile (\<lambda>c. \<not> is_exp_mark c) raw of
       [] \<Rightarrow> 0
     | _ # t \<Rightarrow> (if hd t = CHR ''-'' then - 1 else 1) * int (digits_val (filter is_digit t)))"

definition lexeme_fraction :: "bytes \<Rightarrow> nat" where
  "lexeme_fraction raw = length (drop 1 (dropWhile (\<lambda>c. c \<noteq> CHR ''.'') (lexeme_mantissa raw)))"

definition number_value :: "bytes \<Rightarrow> rat" where
  "number_value raw = (if hd raw = CHR ''-'' then - 1 else 1) *
    of_nat (digits_val (filter is_digit (lexeme_mantissa raw))) *
    10 powi (lexeme_exponent raw - int (lexeme_fraction raw))"

lemma shape_parts:
  assumes "number_shape raw neg ip ds e"
  shows "lexeme_exponent raw = e" "lexeme_fraction raw = length ds"
    "filter is_digit (lexeme_mantissa raw) = ip @ ds" "hd raw = CHR ''-'' \<longleftrightarrow> neg" "raw \<noteq> []"
proof -
  obtain fp ep where raw: "raw = minus_sign neg @ ip @ fp @ ep" and ip: "int_part ip" and fp: "frac_part fp ds"
    and ep: "exp_part ep e" using assms unfolding number_shape_def by blast
  have ipd: "ip \<noteq> []" "\<forall>c \<in> set ip. is_digit c" using int_part_digits [OF ip] by (simp_all add: all_digits_def)
  have dsd: "\<forall>c \<in> set ds. is_digit c" using fp by (auto simp: frac_part_def all_digits_def)
  have nomark: "\<forall>c \<in> set (minus_sign neg @ ip @ fp). \<not> is_exp_mark c"
  proof -
    have "\<not> is_exp_mark (CHR ''-'')" "\<not> is_exp_mark (CHR ''.'')" by (simp_all add: is_exp_mark_def)
    then show ?thesis using ipd(2) dsd fp digit_not_mark(1) by (auto simp: minus_sign_def frac_part_def)
  qed
  have mark: "ep = [] \<or> is_exp_mark (hd ep)" using ep by (auto simp: exp_part_def)
  have m: "lexeme_mantissa raw = minus_sign neg @ ip @ fp"
    and d: "dropWhile (\<lambda>c. \<not> is_exp_mark c) raw = ep"
    using nomark mark takeWhile_append2 [of "minus_sign neg @ ip @ fp" "\<lambda>c. \<not> is_exp_mark c" ep]
      dropWhile_append2 [of "minus_sign neg @ ip @ fp" "\<lambda>c. \<not> is_exp_mark c" ep]
    unfolding raw lexeme_mantissa_def by (cases ep; simp)+
  show "raw \<noteq> []" using ipd raw by simp
  show "hd raw = CHR ''-'' \<longleftrightarrow> neg"
    using ipd digit_not_mark(3) unfolding raw by (cases ip) (auto simp: minus_sign_def)
  show "filter is_digit (lexeme_mantissa raw) = ip @ ds"
    using ipd dsd fp unfolding m by (auto simp: minus_sign_def frac_part_def is_digit_def)
  have "\<forall>c \<in> set (minus_sign neg @ ip). c \<noteq> CHR ''.''"
    using ipd digit_not_mark(2) by (auto simp: minus_sign_def)
  then have "dropWhile (\<lambda>c. c \<noteq> CHR ''.'') (minus_sign neg @ ip @ fp) = dropWhile (\<lambda>c. c \<noteq> CHR ''.'') fp"
    using dropWhile_append2 [of "minus_sign neg @ ip" "\<lambda>c. c \<noteq> CHR ''.''" fp] by auto
  then show "lexeme_fraction raw = length ds"
    using fp unfolding lexeme_fraction_def m by (auto simp: frac_part_def)
  show "lexeme_exponent raw = e"
  proof (cases "ep = []")
    case True
    then show ?thesis using ep unfolding lexeme_exponent_def d by (auto simp: exp_part_def)
  next
    case False
    then obtain mk sg xs where x: "ep = mk # sg @ xs" "sg \<in> {[], ''+'', ''-''}" "all_digits xs"
      "e = (if sg = ''-'' then - 1 else 1) * int (digits_val xs)" using ep by (auto simp: exp_part_def)
    have "filter is_digit (sg @ xs) = xs" "hd (sg @ xs) = CHR ''-'' \<longleftrightarrow> sg = ''-''"
      using x(2,3) digit_not_mark(3) by (cases xs; auto simp: all_digits_def is_digit_def)+
    with x(1,4) d show ?thesis by (simp add: lexeme_exponent_def)
  qed
qed

lemma exponent_limit_spec:
  "jsonNumberWithinExponentLimit raw =
    (valid_number raw \<and> \<bar>lexeme_exponent raw\<bar> \<le> 1000 \<and> \<bar>lexeme_exponent raw - int (lexeme_fraction raw)\<bar> \<le> 1000,
     valid_number raw)"
proof (cases "\<exists>neg ip ds e. number_shape raw neg ip ds e")
  case True
  then obtain neg ip ds e where sh: "number_shape raw neg ip ds e" by blast
  then obtain fp ep where "raw = minus_sign neg @ ip @ fp @ ep" "int_part ip" "frac_part fp ds" "exp_part ep e"
    unfolding number_shape_def by blast
  with limit_of_shape shape_parts(1,2) [OF sh] shape_valid_number [OF sh] show ?thesis by simp
next
  case False
  then have "jsonNumberWithinExponentLimit raw = (False, False)" "\<not> valid_number raw"
    using limit_valid_shape valid_number_shape by blast+
  then show ?thesis by simp
qed

text \<open>
  C31.  A lexeme passes the grammar check exactly when it is a number of the JSON grammar, and is
  within the limit exactly when its written exponent and its exponent less its fraction digits are
  both at most 1000 in magnitude.
\<close>

theorem exponent_limit_exact:
  "jsonNumberWithinExponentLimit raw =
    (valid_number raw \<and> \<bar>lexeme_exponent raw\<bar> \<le> 1000 \<and> \<bar>lexeme_exponent raw - int (lexeme_fraction raw)\<bar> \<le> 1000,
     valid_number raw)"
  by (rule exponent_limit_spec)

subsection \<open>What the decimal parser computes\<close>

lemma big_SetString_sign:
  assumes "sg \<in> {[], ''+'', ''-''}" "all_digits ds"
  shows "big_SetString (sg @ ds) = Some ((if sg = ''-'' then - 1 else 1) * int (digits_val ds))"
proof -
  obtain x xs where "ds = x # xs" "x \<noteq> CHR ''-''" "x \<noteq> CHR ''+''"
    using assms(2) digit_not_mark by (cases ds) (auto simp: all_digits_def)
  with assms show ?thesis by (auto simp: big_SetString_def Let_def)
qed

lemma big_SetString_Some:
  assumes "big_SetString t = Some e"
  shows "\<exists>sg ds. t = sg @ ds \<and> sg \<in> {[], ''+'', ''-''} \<and> all_digits ds \<and>
    e = (if sg = ''-'' then - 1 else 1) * int (digits_val ds)"
proof -
  consider q where "t = CHR ''-'' # q" | q where "t = CHR ''+'' # q" | "t = [] \<or> hd t \<noteq> CHR ''-'' \<and> hd t \<noteq> CHR ''+''"
    by (cases t) auto
  then show ?thesis
  proof cases
    case (1 q)
    then show ?thesis using assms by (intro exI [of _ "''-''"] exI [of _ q]) (auto simp: big_SetString_def Let_def split: if_splits)
  next
    case (2 q)
    then show ?thesis using assms by (intro exI [of _ "''+''"] exI [of _ q]) (auto simp: big_SetString_def Let_def split: if_splits)
  next
    case 3
    then show ?thesis using assms by (intro exI [of _ "[]"] exI [of _ t]) (auto simp: big_SetString_def Let_def split: if_splits)
  qed
qed

lemma split_exponent_shape:
  assumes "\<forall>c \<in> set m. \<not> is_exp_mark c" "exp_part ep e"
  shows "split_exponent (m @ ep) = Some (m, e)"
  using assms(2) unfolding exp_part_def
proof (elim disjE exE conjE)
  assume ep: "ep = []" "e = 0"
  have "dropWhile (\<lambda>c. \<not> is_exp_mark c) m = []" using assms(1) by simp
  then show ?thesis unfolding split_exponent_def ep append_Nil2 by (simp only: list.case)
next
  fix k sg ds
  assume ep: "ep = k # sg @ ds" and k: "is_exp_mark k" and sg: "sg \<in> {[], ''+'', ''-''}" and ds: "all_digits ds"
    and e: "e = (if sg = ''-'' then - 1 else 1) * int (digits_val ds)"
  have "\<forall>c \<in> set (sg @ ds). \<not> is_exp_mark c" "sg @ ds \<noteq> []"
    using sg ds digit_not_mark(1) by (auto simp: all_digits_def is_exp_mark_def)
  then show ?thesis
    using assms(1) k big_SetString_sign [OF sg ds]
    by (simp add: split_exponent_def ep e dropWhile_append takeWhile_append del: append_is_Nil_conv)
qed

lemma split_exponent_Some:
  assumes "split_exponent s = Some (m, e)"
  shows "\<exists>ep. s = m @ ep \<and> exp_part ep e"
proof (cases "dropWhile (\<lambda>c. \<not> is_exp_mark c) s")
  case Nil
  then have "s = m" "e = 0" using assms unfolding split_exponent_def by (simp_all only: list.case option.inject prod.inject)
  then show ?thesis by (intro exI [of _ "[]"]) (simp add: exp_part_def)
next
  case (Cons k t)
  then have t: "big_SetString t = Some e" "m = takeWhile (\<lambda>c. \<not> is_exp_mark c) s"
    using assms by (auto simp: split_exponent_def split: if_splits)
  have "is_exp_mark k" using Cons by (simp add: dropWhile_eq_Cons_conv)
  then have "exp_part (k # t) e" using big_SetString_Some [OF t(1)] unfolding exp_part_def by blast
  moreover have "s = m @ k # t" using t(2) Cons takeWhile_dropWhile_id [of "\<lambda>c. \<not> is_exp_mark c" s] by simp
  ultimately show ?thesis by blast
qed

lemma split_mantissa_shape:
  assumes "int_part ip" "frac_part fp ds"
  shows "split_mantissa (ip @ fp) = Some (ip, ds)"
proof -
  have ip: "all_digits ip" "\<forall>c \<in> set ip. c \<noteq> CHR ''.''" "\<not> (length ip > 1 \<and> hd ip = CHR ''0'')"
    using int_part_digits [OF assms(1)] assms(1) digit_not_mark(2) by (auto simp: all_digits_def int_part_def)
  have ds: "\<forall>c \<in> set ds. c \<noteq> CHR ''.''"
    using assms(2) digit_not_mark(2) by (auto simp: frac_part_def all_digits_def)
  have tw: "takeWhile (\<lambda>c. c \<noteq> CHR ''.'') (ip @ fp) = ip" "dropWhile (\<lambda>c. c \<noteq> CHR ''.'') (ip @ fp) = fp"
  proof -
    have "takeWhile (\<lambda>c. c \<noteq> CHR ''.'') fp = []" "dropWhile (\<lambda>c. c \<noteq> CHR ''.'') fp = fp"
      using assms(2) unfolding frac_part_def by (elim disjE conjE; simp)+
    moreover have "takeWhile (\<lambda>c. c \<noteq> CHR ''.'') (ip @ fp) = ip @ takeWhile (\<lambda>c. c \<noteq> CHR ''.'') fp"
      by (rule takeWhile_append2) (use ip(2) in blast)
    moreover have "dropWhile (\<lambda>c. c \<noteq> CHR ''.'') (ip @ fp) = dropWhile (\<lambda>c. c \<noteq> CHR ''.'') fp"
      by (rule dropWhile_append2) (use ip(2) in blast)
    ultimately show "takeWhile (\<lambda>c. c \<noteq> CHR ''.'') (ip @ fp) = ip" "dropWhile (\<lambda>c. c \<noteq> CHR ''.'') (ip @ fp) = fp"
      by (simp_all only: append_Nil2)
  qed
  show ?thesis
  proof -
    have fd: "drop 1 fp = ds" using assms(2) by (auto simp: frac_part_def)
    have c: "\<not> CHR ''.'' \<in> set (drop 1 fp)" "\<not> (fp \<noteq> [] \<and> drop 1 fp = [])"
      "\<not> (ip = [] \<or> \<not> all_digits ip \<or> drop 1 fp \<noteq> [] \<and> \<not> all_digits (drop 1 fp))"
      unfolding fd using ip(1) ds assms(2) by (auto simp: frac_part_def all_digits_def)
    show ?thesis
      unfolding split_mantissa_def tw Let_def if_not_P [OF c(1)] if_not_P [OF c(3)] if_not_P [OF ip(3)]
        if_not_P [OF c(2)] unfolding fd ..
  qed
qed

lemma split_mantissa_Some:
  assumes "split_mantissa m = Some (ip, ds)"
  shows "\<exists>fp. m = ip @ fp \<and> int_part ip \<and> frac_part fp ds"
proof -
  let ?dot = "dropWhile (\<lambda>c. c \<noteq> CHR ''.'') m"
  have parts: "ip = takeWhile (\<lambda>c. c \<noteq> CHR ''.'') m" "ds = drop 1 ?dot" "all_digits ip"
    "ds = [] \<or> all_digits ds" "\<not> (length ip > 1 \<and> hd ip = CHR ''0'')" "?dot = [] \<or> ds \<noteq> []"
    using assms by (auto simp: split_mantissa_def Let_def split: if_splits)
  have "int_part ip" using parts(3,5) by (cases ip; cases "tl ip") (auto simp: int_part_def all_digits_def)
  moreover have "frac_part ?dot ds"
  proof (cases ?dot)
    case (Cons c t)
    then have "c = CHR ''.''" by (simp add: dropWhile_eq_Cons_conv)
    with Cons parts(2,4,6) show ?thesis by (auto simp: frac_part_def)
  next
    case Nil
    have "ds = []" unfolding parts(2) Nil by simp
    then show ?thesis unfolding Nil frac_part_def by blast
  qed
  ultimately show ?thesis using parts(1) takeWhile_dropWhile_id by metis
qed

lemma parseDecimal_shape:
  assumes "number_shape raw neg ip ds e"
  shows "parseDecimal raw = Some (normal_decimal neg ip ds e)"
proof -
  obtain fp ep where raw: "raw = minus_sign neg @ ip @ fp @ ep" and ip: "int_part ip" and fp: "frac_part fp ds"
    and ep: "exp_part ep e" using assms unfolding number_shape_def by blast
  have ipd: "ip \<noteq> []" "\<forall>c \<in> set ip. is_digit c" using int_part_digits [OF ip] by (simp_all add: all_digits_def)
  have "\<not> is_exp_mark (CHR ''.'')" by (simp add: is_exp_mark_def)
  then have "\<forall>c \<in> set (ip @ fp). \<not> is_exp_mark c"
    using ipd fp digit_not_mark(1) by (auto simp: frac_part_def all_digits_def)
  from split_exponent_shape [OF this ep] split_mantissa_shape [OF ip fp] shape_parts(4,5) [OF assms] ipd(1)
  show ?thesis unfolding raw by (auto simp: parseDecimal_def minus_sign_def Let_def)
qed

lemma parseDecimal_Some:
  assumes "parseDecimal raw = Some d"
  shows "\<exists>neg ip ds e. number_shape raw neg ip ds e \<and> d = normal_decimal neg ip ds e"
proof -
  define neg where "neg = (hd raw = CHR ''-'')"
  define s where "s = (if neg then tl raw else raw)"
  have raw: "raw \<noteq> []" using assms by (auto simp: parseDecimal_def)
  have "parseDecimal raw = (if s = [] then None else case split_exponent s of None \<Rightarrow> None
      | Some (mantissa, e) \<Rightarrow> map_option (\<lambda>(ip, fp). normal_decimal neg ip fp e) (split_mantissa mantissa))"
    unfolding parseDecimal_def s_def neg_def Let_def using raw by simp
  then obtain m e ip ds where m: "split_exponent s = Some (m, e)"
    and sm: "split_mantissa m = Some (ip, ds)" "d = normal_decimal neg ip ds e"
    using assms by (auto split: if_splits option.splits simp: map_option_case)
  have "raw = minus_sign neg @ s" using raw by (cases raw) (auto simp: minus_sign_def s_def neg_def)
  moreover obtain ep where "s = m @ ep" "exp_part ep e" using split_exponent_Some [OF m] by blast
  moreover obtain fp where "m = ip @ fp" "int_part ip" "frac_part fp ds" using split_mantissa_Some [OF sm(1)] by blast
  ultimately show ?thesis using sm(2) unfolding number_shape_def by (metis append_assoc)
qed

end
