(* ===== verification/Json_Equal.thy ===== *)
theory Json_Equal
  imports Json_Number
begin

section \<open>Equality of structured JSON values (\<^verbatim>\<open>internal/structuredjson/equal.go\<close>)\<close>

text \<open>
  The equality of JSON values that the assertions of a recipe use.  Numbers of every Go type are
  written out as decimal lexemes and compared in the normal form of \<open>parseDecimal\<close>; the walk over
  arrays and objects has a budget of nodes, threaded through the calls, and a depth limit.  A Go map
  is a list of members with distinct keys, visited in the order of the list.  The theorem compares
  this walk with a denotation of values in which numbers are rationals and objects are functions.
\<close>

subsection \<open>The code\<close>

definition maxEqualityDepth :: nat where
  "maxEqualityDepth = 256"

definition maxEqualityNodes :: int where
  "maxEqualityNodes = 200000"

text \<open>\<^verbatim>\<open>strconv.FormatFloat(x, 'g', -1, bits)\<close> on the shortest decimal of \<open>x\<close>.\<close>

definition float_exp :: "bytes \<Rightarrow> int \<Rightarrow> bytes" where
  "float_exp ds dp =
    (let e = dp - 1 in
     take 1 ds @ (if length ds \<le> 1 then [] else CHR ''.'' # drop 1 ds) @
     (if e < 0 then ''e-'' else ''e+'') @ (if \<bar>e\<bar> < 10 then ''0'' else []) @ dec_nat (nat \<bar>e\<bar>))"

definition format_float :: "go_float \<Rightarrow> bytes option" where
  "format_float f =
    (case f of
       FNaN \<Rightarrow> None
     | FInf _ \<Rightarrow> None
     | FDec neg m e \<Rightarrow>
         Some (minus_sign neg @
           (if m = 0 then ''0''
            else let ds = dec_nat m; dp = int (length ds) + e in
              if dp - 1 < - 4 \<or> dp - 1 \<ge> 6 then float_exp ds dp else float_plain ds dp)))"

definition supportedNumberLexeme :: "goany \<Rightarrow> bytes option" where
  "supportedNumberLexeme value =
    (case value of
       ANumber raw \<Rightarrow> Some raw
     | AInt _ i \<Rightarrow> Some (dec_int i)
     | AFloat32 f \<Rightarrow> format_float f
     | AFloat64 f \<Rightarrow> format_float f
     | _ \<Rightarrow> None)"

definition canonicalNumber :: "goany \<Rightarrow> decimalNumber option" where
  "canonicalNumber value = (case supportedNumberLexeme value of None \<Rightarrow> None | Some raw \<Rightarrow> parseDecimal raw)"

text \<open>The result and the budget left; the two loops stop at the first difference.\<close>

function (sequential) semanticEqual :: "goany \<Rightarrow> goany \<Rightarrow> nat \<Rightarrow> int \<Rightarrow> bool \<times> int"
  and equal_items :: "goany list \<Rightarrow> goany list \<Rightarrow> nat \<Rightarrow> int \<Rightarrow> bool \<times> int"
  and equal_members :: "(bytes \<times> goany) list \<Rightarrow> (bytes \<times> goany) list \<Rightarrow> nat \<Rightarrow> int \<Rightarrow> bool \<times> int"
where
  "semanticEqual left right depth budget =
    (let b = budget - 1 in
     if b < 0 \<or> depth > maxEqualityDepth then (False, b)
     else if canonicalNumber left \<noteq> None \<or> canonicalNumber right \<noteq> None then
       (case (canonicalNumber left, canonicalNumber right) of
          (Some l, Some r) \<Rightarrow> (decimal_equal l r, b)
        | _ \<Rightarrow> (False, b))
     else (case left of
         ANil \<Rightarrow> (right = ANil, b)
       | ABool l \<Rightarrow> (case right of ABool r \<Rightarrow> (l = r, b) | _ \<Rightarrow> (False, b))
       | AString l \<Rightarrow> (case right of AString r \<Rightarrow> (l = r, b) | _ \<Rightarrow> (False, b))
       | ASlice ls \<Rightarrow>
           (case right of
              ASlice rs \<Rightarrow> if length ls \<noteq> length rs then (False, b) else equal_items ls rs (depth + 1) b
            | _ \<Rightarrow> (False, b))
       | AMap ls \<Rightarrow>
           (case right of
              AMap rs \<Rightarrow> if length ls \<noteq> length rs then (False, b) else equal_members ls rs (depth + 1) b
            | _ \<Rightarrow> (False, b))
       | _ \<Rightarrow> (False, b)))"
| "equal_items (l # ls) (r # rs) depth budget =
    (case semanticEqual l r depth budget of
       (True, b) \<Rightarrow> equal_items ls rs depth b
     | (False, b) \<Rightarrow> (False, b))"
| "equal_items ls rs depth budget = (True, budget)"
| "equal_members [] rs depth budget = (True, budget)"
| "equal_members ((key, item) # ls) rs depth budget =
    (case map_of rs key of
       None \<Rightarrow> (False, budget)
     | Some other \<Rightarrow>
         (case semanticEqual item other depth budget of
            (True, b) \<Rightarrow> equal_members ls rs depth b
          | (False, b) \<Rightarrow> (False, b)))"
  by pat_completeness auto
termination
  by (relation "measure (\<lambda>x. case x of Inl (l, r, d, b) \<Rightarrow> 2 * size l | Inr (Inl (ls, rs, d, b)) \<Rightarrow> Suc (2 * size_list size ls)
      | Inr (Inr (ms, rs, d, b)) \<Rightarrow> Suc (2 * size_list (size_prod (\<lambda>_. 0) size) ms))") auto

declare semanticEqual.simps [simp del]

definition SemanticEqual :: "goany \<Rightarrow> goany \<Rightarrow> bool" where
  "SemanticEqual left right = fst (semanticEqual left right 0 maxEqualityNodes)"

subsection \<open>Numbers are compared by value\<close>

definition decimal_value :: "decimalNumber \<Rightarrow> rat" where
  "decimal_value d = (if dn_negative d then - 1 else 1) * of_nat (digits_val (dn_digits d)) * 10 powi dn_exponent d"

text \<open>The normal form: zero has one form, another number no zero at either end of its digits.\<close>

definition normal_form :: "decimalNumber \<Rightarrow> bool" where
  "normal_form d \<longleftrightarrow> (\<forall>c \<in> set (dn_digits d). is_digit c) \<and>
    (d = \<lparr>dn_negative = False, dn_digits = ''0'', dn_exponent = 0\<rparr> \<or>
     dn_digits d \<noteq> [] \<and> hd (dn_digits d) \<noteq> CHR ''0'' \<and> last (dn_digits d) \<noteq> CHR ''0'')"

lemma digits_val_zeros: "digits_val (s @ replicate k (CHR ''0'')) = digits_val s * 10 ^ k"
proof (induction k)
  case (Suc k)
  have "digits_val (s @ replicate (Suc k) (CHR ''0'')) = digits_val ((s @ replicate k (CHR ''0'')) @ [CHR ''0''])"
    by (simp add: replicate_append_same)
  also have "\<dots> = 10 * digits_val (s @ replicate k (CHR ''0''))"
    unfolding digits_val_append by (simp add: digit_val_def)
  finally show ?case using Suc by simp
qed simp

lemma trim_left_value: "digits_val (trim_zeros_left s) = digits_val s"
  by (induction s) (auto simp: trim_zeros_left_def digits_val_def digit_val_def)

lemma trim_right_split: "s = trim_zeros_right s @ replicate (length s - length (trim_zeros_right s)) (CHR ''0'')"
proof -
  let ?z = "takeWhile (\<lambda>c. c = CHR ''0'') (rev s)"
  have s: "s = trim_zeros_right s @ rev ?z"
    using takeWhile_dropWhile_id [of "\<lambda>c. c = CHR ''0''" "rev s"]
    unfolding trim_zeros_right_def trim_zeros_left_def by (metis rev_append rev_rev_ident)
  have "\<forall>c \<in> set (rev ?z). c = CHR ''0''" using set_takeWhileD by fastforce
  then have "rev ?z = replicate (length ?z) (CHR ''0'')" by (metis length_rev replicate_length_same)
  moreover have "length s - length (trim_zeros_right s) = length ?z" using arg_cong [OF s, of length] by simp
  ultimately show ?thesis using s by simp
qed

lemma normal_decimal_digits:
  "trim_zeros_left (ip @ ds) \<noteq> [] \<Longrightarrow> dn_digits (normal_decimal neg ip ds e) = trim_zeros_right (trim_zeros_left (ip @ ds))"
  using trim_right_split [of "trim_zeros_left (ip @ ds)"]
  by (simp add: normal_decimal_def Let_def) (metis append_eq_conv_conj length_append length_replicate add_diff_cancel_right')

lemma normal_decimal_value:
  "decimal_value (normal_decimal neg ip ds e) =
    (if neg then - 1 else 1) * of_nat (digits_val (ip @ ds)) * 10 powi (e - int (length ds))"
proof (cases "trim_zeros_left (ip @ ds) = []")
  case True
  then have "digits_val (ip @ ds) = 0" using trim_left_value [of "ip @ ds"] by (simp add: digits_val_def)
  then show ?thesis using True by (simp add: decimal_value_def normal_decimal_def Let_def digits_val_def digit_val_def)
next
  case False
  let ?d = "trim_zeros_left (ip @ ds)"
  let ?k = "length ?d - length (trim_zeros_right ?d)"
  have "digits_val (ip @ ds) = digits_val (trim_zeros_right ?d) * 10 ^ ?k"
    using digits_val_zeros [of "trim_zeros_right ?d" ?k] trim_right_split [of ?d] trim_left_value [of "ip @ ds"] by simp
  moreover have "(10::rat) powi (e - int (length ds) + int ?k) = 10 powi (e - int (length ds)) * 10 ^ ?k"
    by (simp add: power_int_add del: of_nat_diff)
  moreover have "dn_exponent (normal_decimal neg ip ds e) = e - int (length ds) + int ?k"
    "dn_negative (normal_decimal neg ip ds e) = neg"
    using False by (simp_all add: normal_decimal_def Let_def)
  ultimately show ?thesis
    using normal_decimal_digits [OF False, of neg e] by (simp add: decimal_value_def del: of_nat_diff)
qed

lemma normal_decimal_form:
  assumes "\<forall>c \<in> set (ip @ ds). is_digit c"
  shows "normal_form (normal_decimal neg ip ds e)"
proof (cases "trim_zeros_left (ip @ ds) = []")
  case True
  then show ?thesis by (simp add: normal_form_def normal_decimal_def Let_def is_digit_def)
next
  case False
  let ?d = "trim_zeros_left (ip @ ds)"
  have hd: "hd ?d \<noteq> CHR ''0''"
    using False hd_dropWhile [of "\<lambda>c. c = CHR ''0''" "ip @ ds"] by (simp add: trim_zeros_left_def)
  have "hd ?d \<in> set (rev ?d)" using False by simp
  with hd have "trim_zeros_left (rev ?d) \<noteq> []"
    unfolding trim_zeros_left_def [of "rev ?d"] dropWhile_eq_Nil_conv by blast
  then have r: "trim_zeros_right ?d \<noteq> []" "last (trim_zeros_right ?d) \<noteq> CHR ''0''"
    using hd_dropWhile [of "\<lambda>c. c = CHR ''0''" "rev ?d"] by (simp_all add: trim_zeros_right_def trim_zeros_left_def last_rev)
  have "hd (trim_zeros_right ?d) = hd ?d" using r(1) trim_right_split [of ?d] by (metis hd_append2)
  moreover have "set (trim_zeros_right ?d) \<subseteq> set (ip @ ds)"
    by (auto simp: trim_zeros_right_def trim_zeros_left_def dest!: set_dropWhileD)
  ultimately show ?thesis
    using assms r hd normal_decimal_digits [OF False, of neg e] unfolding normal_form_def by auto
qed

lemma last_digit_dvd:
  assumes "s \<noteq> []" "\<forall>c \<in> set s. is_digit c" "last s \<noteq> CHR ''0''"
  shows "\<not> 10 dvd digits_val s"
proof -
  obtain t c where s: "s = t @ [c]" using assms(1) by (metis rev_exhaust)
  then have c: "is_digit c" "c \<noteq> CHR ''0''" using assms by auto
  have "byte_val c \<noteq> byte_val (CHR ''0'')" using c(2) by (simp only: of_char_eq_iff) simp
  then have "digit_val c \<noteq> 0" "digit_val c < 10"
    using c(1) by (auto simp: is_digit_def digit_val_def)
  then show ?thesis unfolding s digits_val_append by presburger
qed

lemma digits_val_pos:
  assumes "s \<noteq> []" "\<forall>c \<in> set s. is_digit c" "last s \<noteq> CHR ''0''"
  shows "0 < digits_val s"
  using last_digit_dvd [OF assms] by (cases "digits_val s") auto

lemma digits_val_bounds:
  "\<forall>c \<in> set s. is_digit c \<Longrightarrow> digits_val s < 10 ^ length s"
proof (induction s rule: rev_induct)
  case (snoc c s)
  have "digit_val c < 10" using snoc.prems by (auto simp: is_digit_def digit_val_def)
  with snoc show ?case by (simp del: One_nat_def)
qed (simp add: digits_val_def)

lemma dec_nat_digits_val:
  "s \<noteq> [] \<Longrightarrow> \<forall>c \<in> set s. is_digit c \<Longrightarrow> hd s \<noteq> CHR ''0'' \<Longrightarrow> dec_nat (digits_val s) = s"
proof (induction s rule: rev_induct)
  case (snoc c s)
  have c: "is_digit c" using snoc.prems by simp
  have d: "digit_val c < 10" "digit_char (digit_val c) = c"
    using c by (auto simp: is_digit_def digit_val_def digit_char_def)
  show ?case
  proof (cases "s = []")
    case True
    have "digits_val [c] = digit_val c" by (simp add: digits_val_def)
    with True d show ?thesis by simp
  next
    case False
    then have IH: "dec_nat (digits_val s) = s" using snoc by simp
    have "digits_val s \<noteq> 0"
    proof
      assume "digits_val s = 0"
      with IH have "s = [digit_char 0]" by simp
      moreover have "byte_val (digit_char 0) = byte_val (CHR ''0'')" by simp
      then have "digit_char 0 = CHR ''0''" by (simp only: of_char_eq_iff)
      ultimately show False using snoc.prems(3) False by simp
    qed
    then have "\<not> digits_val (s @ [c]) < 10" by simp
    then show ?thesis using d IH by (subst dec_nat.simps) simp
  qed
qed simp

lemma scaled_le:
  assumes "\<not> 10 dvd m" "of_nat m * 10 powi a = (of_nat n * 10 powi b :: rat)" "a \<le> b"
  shows "a = b \<and> m = n"
proof -
  define k where "k = nat (b - a)"
  have b: "b = a + int k" using assms(3) by (simp add: k_def)
  have "of_nat m * 10 powi a = (of_nat (n * 10 ^ k) * 10 powi a :: rat)"
    using assms(2) unfolding b by (simp add: power_int_add)
  then have "(of_nat m :: rat) = of_nat (n * 10 ^ k)" by (simp only: mult_cancel_right) simp
  then have m: "m = n * 10 ^ k" by (simp only: of_nat_eq_iff)
  then have "k = 0" using assms(1) by (cases k) auto
  with m b show ?thesis by simp
qed

lemma scaled_unique:
  assumes "\<not> 10 dvd m" "\<not> 10 dvd n" "of_nat m * 10 powi a = (of_nat n * 10 powi b :: rat)"
  shows "a = b \<and> m = n"
  using scaled_le [OF assms(1,3)] scaled_le [OF assms(2) assms(3) [symmetric]] by linarith

lemma normal_form_unique:
  assumes "normal_form a" "normal_form b" "decimal_value a = decimal_value b"
  shows "a = b"
proof -
  let ?zero = "\<lparr>dn_negative = False, dn_digits = ''0'', dn_exponent = 0\<rparr>"
  have zero: "decimal_value d = 0 \<longleftrightarrow> d = ?zero" if "normal_form d" for d
  proof (cases "d = ?zero")
    case False
    then have "0 < digits_val (dn_digits d)"
      using that digits_val_pos unfolding normal_form_def by blast
    then show ?thesis using False by (simp add: decimal_value_def)
  qed (simp add: decimal_value_def digits_val_def digit_val_def)
  show ?thesis
  proof (cases "a = ?zero \<or> b = ?zero")
    case True
    then show ?thesis using zero [OF assms(1)] zero [OF assms(2)] assms(3) by auto
  next
    case False
    then have a: "dn_digits a \<noteq> []" "\<forall>c \<in> set (dn_digits a). is_digit c" "hd (dn_digits a) \<noteq> CHR ''0''" "last (dn_digits a) \<noteq> CHR ''0''"
      and b: "dn_digits b \<noteq> []" "\<forall>c \<in> set (dn_digits b). is_digit c" "hd (dn_digits b) \<noteq> CHR ''0''" "last (dn_digits b) \<noteq> CHR ''0''"
      using assms(1,2) unfolding normal_form_def by auto
    define m where "m = digits_val (dn_digits a)"
    define n where "n = digits_val (dn_digits b)"
    have m: "\<not> 10 dvd m" "0 < m" and n: "\<not> 10 dvd n" "0 < n"
      unfolding m_def n_def using last_digit_dvd digits_val_pos a b by blast+
    have eq: "(if dn_negative a then - 1 else 1) * of_nat m * 10 powi dn_exponent a
        = ((if dn_negative b then - 1 else 1) * of_nat n * 10 powi dn_exponent b :: rat)"
      using assms(3) by (simp add: decimal_value_def m_def n_def)
    have pos: "0 < (of_nat m * 10 powi dn_exponent a :: rat)" "0 < (of_nat n * 10 powi dn_exponent b :: rat)"
      using m n by simp_all
    have neg: "dn_negative a = dn_negative b"
      using eq pos by (auto split: if_splits)
    with eq have mag: "of_nat m * 10 powi dn_exponent a = (of_nat n * 10 powi dn_exponent b :: rat)" by (auto split: if_splits)
    have "dn_exponent a = dn_exponent b \<and> m = n"
      using scaled_unique [OF m(1) n(1) mag] .
    moreover have "dec_nat m = dn_digits a" "dec_nat n = dn_digits b"
      unfolding m_def n_def by (rule dec_nat_digits_val [OF a(1-3)], rule dec_nat_digits_val [OF b(1-3)])
    ultimately show ?thesis using neg by simp
  qed
qed

lemma number_value_shape:
  assumes "number_shape raw neg ip ds e"
  shows "number_value raw = (if neg then - 1 else 1) * of_nat (digits_val (ip @ ds)) * 10 powi (e - int (length ds))"
  by (simp add: number_value_def shape_parts [OF assms])

lemma shape_digits:
  assumes "number_shape raw neg ip ds e"
  shows "\<forall>c \<in> set (ip @ ds). is_digit c"
proof -
  have "\<forall>c \<in> set (filter is_digit (lexeme_mantissa raw)). is_digit c" by simp
  then show ?thesis unfolding shape_parts(3) [OF assms] .
qed

lemma parseDecimal_spec:
  shows parseDecimal_None: "parseDecimal raw = None \<longleftrightarrow> \<not> valid_number raw"
    and parseDecimal_value: "parseDecimal raw = Some d \<Longrightarrow> normal_form d \<and> decimal_value d = number_value raw"
proof -
  show "parseDecimal raw = None \<longleftrightarrow> \<not> valid_number raw"
    using valid_number_shape [of raw] parseDecimal_shape [of raw] parseDecimal_Some [of raw] shape_valid_number [of raw]
    by (metis not_None_eq)
  assume "parseDecimal raw = Some d"
  then obtain neg ip ds e where sh: "number_shape raw neg ip ds e" and d: "d = normal_decimal neg ip ds e"
    using parseDecimal_Some by blast
  show "normal_form d \<and> decimal_value d = number_value raw"
    unfolding d number_value_shape [OF sh] normal_decimal_value using normal_decimal_form [OF shape_digits [OF sh]] by simp
qed

subsection \<open>The lexemes of Go numbers\<close>

definition float_value :: "go_float \<Rightarrow> rat" where
  "float_value f = (case f of FDec neg m e \<Rightarrow> (if neg then - 1 else 1) * of_nat m * 10 powi e | _ \<Rightarrow> 0)"

definition finite_float :: "go_float \<Rightarrow> bool" where
  "finite_float f \<longleftrightarrow> (case f of FDec _ _ _ \<Rightarrow> True | _ \<Rightarrow> False)"

lemma number_shapeI:
  "int_part ip \<Longrightarrow> frac_part fp ds \<Longrightarrow> exp_part ep e \<Longrightarrow> number_shape (minus_sign neg @ ip @ fp @ ep) neg ip ds e"
  unfolding number_shape_def by blast

lemma dec_nat_int_part: "int_part (dec_nat n)"
proof (cases "n = 0")
  case True
  have "byte_val (digit_char 0) = byte_val (CHR ''0'')" by simp
  then have "digit_char 0 = CHR ''0''" by (simp only: of_char_eq_iff)
  with True show ?thesis by (simp add: int_part_def)
qed (simp add: int_part_def all_digits_def hd_dec_nat_nonzero dec_nat_digits)

lemma int_part_pad: "0 < n \<Longrightarrow> int_part (dec_nat n @ replicate k (CHR ''0''))"
  using hd_dec_nat_nonzero [of n] dec_nat_digits [of _ n]
  by (auto simp: int_part_def all_digits_def is_digit_def)

lemma digits_val_zero_cons: "digits_val (CHR ''0'' # s) = digits_val s"
  by (simp add: digits_val_def digit_val_def)

lemma digits_val_zero_lead: "digits_val (replicate k (CHR ''0'') @ s) = digits_val s"
  by (induction k) (simp_all add: digits_val_zero_cons)

lemma parts_frac: "all_digits ds \<Longrightarrow> frac_part (CHR ''.'' # ds) ds" "frac_part [] []"
  by (simp_all add: frac_part_def)

lemma float_plain_shape:
  assumes "0 < m" and dp: "dp = int (length (dec_nat m)) + e"
  shows "\<exists>ip ds. number_shape (minus_sign neg @ float_plain (dec_nat m) dp) neg ip ds 0 \<and>
    of_nat (digits_val (ip @ ds)) * 10 powi (0 - int (length ds)) = (of_nat m * 10 powi e :: rat)"
proof -
  let ?d = "dec_nat m"
  have dig: "\<forall>c \<in> set ?d. is_digit c" using dec_nat_digits by blast
  have ep: "exp_part [] 0" by (simp add: exp_part_def)
  consider "dp \<le> 0" | "0 < dp" "int (length ?d) \<le> dp" | "0 < dp" "dp < int (length ?d)" by linarith
  then show ?thesis
  proof cases
    case 1
    let ?z = "replicate (nat (- dp)) (CHR ''0'')"
    have "all_digits (?z @ ?d)" using dig by (auto simp: all_digits_def is_digit_def)
    from number_shapeI [OF _ parts_frac(1) [OF this] ep, of "''0''" neg]
    have "number_shape (minus_sign neg @ float_plain ?d dp) neg ''0'' (?z @ ?d) 0"
      using 1 by (simp add: float_plain_def int_part_def)
    moreover have "digits_val (''0'' @ ?z @ ?d) = m"
      using digits_val_zero_cons [of "?z @ ?d"] digits_val_zero_lead [of "nat (- dp)" ?d] by simp
    moreover have "0 - int (length (?z @ ?d)) = e" using 1 dp by simp
    ultimately show ?thesis by metis
  next
    case 2
    let ?k = "nat dp - length ?d"
    have k: "?k = nat e" "0 \<le> e" using 2 dp by simp_all
    from number_shapeI [OF int_part_pad [OF assms(1)] parts_frac(2) ep, of neg]
    have "number_shape (minus_sign neg @ float_plain ?d dp) neg (?d @ replicate ?k (CHR ''0'')) [] 0"
      using 2 by (simp add: float_plain_def)
    moreover have "of_nat (digits_val ((?d @ replicate ?k (CHR ''0'')) @ [])) * 10 powi (0 - int (length ([]::bytes)))
        = (of_nat m * 10 powi e :: rat)"
      unfolding append_Nil2 digits_val_zeros unfolding k(1) using k(2) by (simp add: power_int_def)
    ultimately show ?thesis by blast
  next
    case 3
    let ?i = "take (nat dp) ?d" and ?f = "drop (nat dp) ?d"
    have "?i \<noteq> []" "?f \<noteq> []" "hd ?i = hd ?d" using 3 by (auto simp: hd_take)
    moreover have "\<forall>c \<in> set ?i. is_digit c" "\<forall>c \<in> set ?f. is_digit c"
      using dig in_set_takeD in_set_dropD by fast+
    ultimately have "int_part ?i" "all_digits ?f"
      using hd_dec_nat_nonzero [OF assms(1)] by (simp_all add: int_part_def all_digits_def)
    from number_shapeI [OF this(1) parts_frac(1) [OF this(2)] ep, of neg]
    have "number_shape (minus_sign neg @ float_plain ?d dp) neg ?i ?f 0"
      using 3 by (simp add: float_plain_def)
    moreover have "0 - int (length ?f) = e" using 3 dp by (simp add: of_nat_diff)
    ultimately show ?thesis by (metis append_take_drop_id digits_val_dec_nat)
  qed
qed

lemma exp_part_mark:
  "is_exp_mark m \<Longrightarrow> sg \<in> {[], ''+'', ''-''} \<Longrightarrow> all_digits ds \<Longrightarrow> ep = m # sg @ ds \<Longrightarrow>
    e = (if sg = ''-'' then - 1 else 1) * int (digits_val ds) \<Longrightarrow> exp_part ep e"
  unfolding exp_part_def by blast

lemma float_exp_shape:
  assumes "0 < m" and dp: "dp = int (length (dec_nat m)) + e"
  shows "\<exists>ip ds x. number_shape (minus_sign neg @ float_exp (dec_nat m) dp) neg ip ds x \<and>
    of_nat (digits_val (ip @ ds)) * 10 powi (x - int (length ds)) = (of_nat m * 10 powi e :: rat)"
proof -
  let ?d = "dec_nat m"
  let ?i = "take 1 ?d" and ?f = "drop 1 ?d"
  let ?fp = "if length ?d \<le> 1 then [] else CHR ''.'' # ?f"
  let ?x = "dp - 1"
  let ?xs = "(if \<bar>?x\<bar> < 10 then ''0'' else []) @ dec_nat (nat \<bar>?x\<bar>)"
  let ?ep = "(if ?x < 0 then ''e-'' else ''e+'') @ ?xs"
  have dig: "\<forall>c \<in> set ?d. is_digit c" using dec_nat_digits by blast
  have len: "0 < length ?d" by simp
  have "?i \<noteq> []" "hd ?i = hd ?d" "\<forall>c \<in> set ?i. is_digit c" "\<forall>c \<in> set ?f. is_digit c"
    using dig by (auto simp: hd_take dest: in_set_takeD in_set_dropD)
  then have ip: "int_part ?i" and fp: "frac_part ?fp ?f"
    using hd_dec_nat_nonzero [OF assms(1)] by (auto simp: int_part_def all_digits_def frac_part_def)
  have xs: "all_digits ?xs" "digits_val ?xs = nat \<bar>?x\<bar>"
    using dec_nat_digits digits_val_zero_cons [of "dec_nat (nat \<bar>?x\<bar>)"] digits_val_dec_nat [of "nat \<bar>?x\<bar>"]
    by (auto simp: all_digits_def is_digit_def simp del: dec_nat_small)
  have "exp_part ?ep ?x"
  proof (cases "?x < 0")
    case True
    with xs show ?thesis
      by (intro exp_part_mark [where m = "CHR ''e''" and sg = "''-''" and ds = ?xs]) (simp_all add: is_exp_mark_def)
  next
    case False
    with xs show ?thesis
      by (intro exp_part_mark [where m = "CHR ''e''" and sg = "''+''" and ds = ?xs]) (simp_all add: is_exp_mark_def)
  qed
  from number_shapeI [OF ip fp this, of neg]
  have "number_shape (minus_sign neg @ float_exp ?d dp) neg ?i ?f ?x"
    unfolding float_exp_def Let_def .
  moreover have "?x - int (length ?f) = e" using dp len unfolding length_drop by linarith
  moreover have "digits_val (?i @ ?f) = m" by (metis append_take_drop_id digits_val_dec_nat)
  ultimately show ?thesis by metis
qed

lemma sign_commute: "(if b then - 1 else 1) * x * y = (if b then - 1 else 1) * (x * y :: rat)"
  by simp

lemma format_float_shape:
  assumes "format_float f = Some raw"
  shows "finite_float f \<and> (\<exists>neg ip ds e. number_shape raw neg ip ds e) \<and> number_value raw = float_value f"
proof -
  obtain neg m e where f: "f = FDec neg m e" using assms by (cases f) (auto simp: format_float_def)
  let ?dp = "int (length (dec_nat m)) + e"
  have "\<exists>ip ds x. number_shape raw neg ip ds x \<and>
      of_nat (digits_val (ip @ ds)) * 10 powi (x - int (length ds)) = (of_nat m * 10 powi e :: rat)"
  proof (cases "m = 0")
    case True
    have "number_shape raw neg ''0'' [] 0"
      using assms True number_shapeI [OF _ parts_frac(2), of "''0''" "[]" 0 neg]
      by (simp add: f format_float_def int_part_def exp_part_def)
    moreover have "digits_val (''0'' @ []) = 0" by (simp add: digits_val_def digit_val_def)
    ultimately show ?thesis using True by (intro exI [of _ "''0''"] exI [of _ "[]"] exI [of _ 0]) simp
  next
    case False
    then have "raw = minus_sign neg @ (if ?dp - 1 < - 4 \<or> ?dp - 1 \<ge> 6 then float_exp (dec_nat m) ?dp
        else float_plain (dec_nat m) ?dp)"
      using assms by (simp add: f format_float_def Let_def)
    then consider "raw = minus_sign neg @ float_exp (dec_nat m) ?dp" | "raw = minus_sign neg @ float_plain (dec_nat m) ?dp"
      by (cases "?dp - 1 < - 4 \<or> ?dp - 1 \<ge> 6") (simp_all only: if_True if_False)
    then show ?thesis
    proof cases
      case 1
      then show ?thesis using float_exp_shape [OF _ refl, of m neg e] False by simp
    next
      case 2
      then show ?thesis using float_plain_shape [OF _ refl, of m neg e] False by blast
    qed
  qed
  then show ?thesis
    using number_value_shape unfolding f finite_float_def float_value_def go_float.case sign_commute by metis
qed

lemma finite_format_float: "finite_float f \<longleftrightarrow> format_float f \<noteq> None"
  by (cases f) (simp_all add: finite_float_def format_float_def)

lemma dec_int_shape: "number_shape (dec_int i) (i < 0) (dec_nat (nat \<bar>i\<bar>)) [] 0"
  using number_shapeI [OF dec_nat_int_part parts_frac(2), of "[]" 0 "i < 0" "nat \<bar>i\<bar>"]
  by (auto simp: dec_int_def minus_sign_def exp_part_def)

lemma dec_int_value: "number_value (dec_int i) = of_int i"
  unfolding number_value_shape [OF dec_int_shape] by (simp add: of_nat_nat)

subsection \<open>The denotation\<close>

datatype jvalue =
    DNull
  | DBool bool
  | DNum rat
  | DStr bytes
  | DArr "jvalue list"
  | DObj "bytes \<Rightarrow> jvalue option"

text \<open>The values of the JSON data model, and what they denote (other values denote null).\<close>

fun in_json_model :: "goany \<Rightarrow> bool" where
  "in_json_model ANil = True"
| "in_json_model (ABool b) = True"
| "in_json_model (AInt k i) = True"
| "in_json_model (AFloat32 f) = finite_float f"
| "in_json_model (AFloat64 f) = finite_float f"
| "in_json_model (ANumber raw) = valid_number raw"
| "in_json_model (AString s) = True"
| "in_json_model (ASlice vs) = list_all in_json_model vs"
| "in_json_model (AMap ms) = list_all (\<lambda>(k, v). in_json_model v) ms"
| "in_json_model _ = False"

fun denote :: "goany \<Rightarrow> jvalue" where
  "denote ANil = DNull"
| "denote (ABool b) = DBool b"
| "denote (AInt k i) = DNum (of_int i)"
| "denote (AFloat32 f) = DNum (float_value f)"
| "denote (AFloat64 f) = DNum (float_value f)"
| "denote (ANumber raw) = DNum (number_value raw)"
| "denote (AString s) = DStr s"
| "denote (ASlice vs) = DArr (map denote vs)"
| "denote (AMap ms) = DObj (map_of (map (\<lambda>(k, v). (k, denote v)) ms))"
| "denote _ = DNull"

fun go_maps :: "goany \<Rightarrow> bool" where
  "go_maps (ASlice vs) = list_all go_maps vs"
| "go_maps (AMap ms) = (distinct (map fst ms) \<and> list_all (\<lambda>(k, v). go_maps v) ms)"
| "go_maps _ = True"

fun node_count :: "goany \<Rightarrow> nat" where
  "node_count (ASlice vs) = Suc (sum_list (map node_count vs))"
| "node_count (AMap ms) = Suc (sum_list (map (\<lambda>(k, v). node_count v) ms))"
| "node_count _ = 1"

text \<open>No value lies deeper than the limit, counted from a depth.\<close>

fun within_depth :: "nat \<Rightarrow> goany \<Rightarrow> bool" where
  "within_depth d (ASlice vs) = (d \<le> maxEqualityDepth \<and> list_all (within_depth (d + 1)) vs)"
| "within_depth d (AMap ms) = (d \<le> maxEqualityDepth \<and> list_all (\<lambda>(k, v). within_depth (d + 1) v) ms)"
| "within_depth d _ = (d \<le> maxEqualityDepth)"

definition is_number :: "goany \<Rightarrow> bool" where
  "is_number v \<longleftrightarrow> (case v of AInt _ _ \<Rightarrow> True | AFloat32 f \<Rightarrow> finite_float f | AFloat64 f \<Rightarrow> finite_float f
    | ANumber raw \<Rightarrow> valid_number raw | _ \<Rightarrow> False)"

subsection \<open>The walk compares denotations\<close>

lemma number_lexeme_cases:
  "is_number v \<Longrightarrow> \<exists>raw. supportedNumberLexeme v = Some raw \<and> valid_number raw \<and> denote v = DNum (number_value raw)"
proof (cases v)
  case (AInt k i)
  then show ?thesis using shape_valid_number [OF dec_int_shape [of i]] dec_int_value [of i] by (simp add: supportedNumberLexeme_def)
next
  case (AFloat32 f)
  moreover assume "is_number v"
  ultimately obtain raw where "format_float f = Some raw" by (auto simp: is_number_def finite_format_float)
  with AFloat32 format_float_shape [of f raw] shape_valid_number show ?thesis by (auto simp: supportedNumberLexeme_def)
next
  case (AFloat64 f)
  moreover assume "is_number v"
  ultimately obtain raw where "format_float f = Some raw" by (auto simp: is_number_def finite_format_float)
  with AFloat64 format_float_shape [of f raw] shape_valid_number show ?thesis by (auto simp: supportedNumberLexeme_def)
qed (simp_all add: is_number_def supportedNumberLexeme_def)

lemma canonicalNumber_Some:
  assumes "is_number v"
  shows "\<exists>d. canonicalNumber v = Some d \<and> normal_form d \<and> denote v = DNum (decimal_value d)"
proof -
  obtain raw where raw: "supportedNumberLexeme v = Some raw" "valid_number raw" "denote v = DNum (number_value raw)"
    using number_lexeme_cases [OF assms] by blast
  then obtain d where "parseDecimal raw = Some d" using parseDecimal_None [of raw] by auto
  with raw parseDecimal_value [OF this] show ?thesis by (simp add: canonicalNumber_def)
qed

lemma canonicalNumber_None: "\<not> is_number v \<Longrightarrow> canonicalNumber v = None"
  using parseDecimal_None finite_format_float
  by (cases v) (auto simp: canonicalNumber_def is_number_def supportedNumberLexeme_def split: option.splits)

lemma canonicalNumber_iff: "canonicalNumber v = None \<longleftrightarrow> \<not> is_number v"
  using canonicalNumber_None [of v] canonicalNumber_Some [of v] by auto

lemma number_model:
  "is_number v \<Longrightarrow> in_json_model v" "is_number v \<Longrightarrow> node_count v = 1" "is_number v \<Longrightarrow> within_depth d v \<longleftrightarrow> d \<le> maxEqualityDepth"
  by (cases v; simp add: is_number_def)+

lemma number_of_denote: "in_json_model v \<Longrightarrow> denote v = DNum x \<Longrightarrow> is_number v"
  by (cases v) (simp_all add: is_number_def)

lemma node_count_pos: "0 < node_count v"
  by (cases v) simp_all

text \<open>What a call of the walk promises: it succeeds exactly on equal values within both limits, and
  then takes one unit of the budget for each node.\<close>

definition same_value :: "goany \<Rightarrow> goany \<Rightarrow> bool" where
  "same_value l r \<longleftrightarrow> in_json_model l \<and> in_json_model r \<and> denote l = denote r"

definition walk_ok :: "goany \<Rightarrow> goany \<Rightarrow> nat \<Rightarrow> int \<Rightarrow> bool \<times> int \<Rightarrow> bool" where
  "walk_ok l r d b res \<longleftrightarrow>
    (fst res \<longleftrightarrow> same_value l r \<and> int (node_count l) \<le> b \<and> within_depth d l) \<and>
    (fst res \<longrightarrow> snd res = b - int (node_count l))"

lemma walk_number:
  assumes "is_number l \<or> is_number r" "0 \<le> b - 1" "d \<le> maxEqualityDepth"
  shows "walk_ok l r d b (case (canonicalNumber l, canonicalNumber r) of
      (Some x, Some y) \<Rightarrow> (decimal_equal x y, b - 1) | _ \<Rightarrow> (False, b - 1))"
proof (cases "is_number l \<and> is_number r")
  case True
  then obtain x y where x: "canonicalNumber l = Some x" "normal_form x" "denote l = DNum (decimal_value x)"
    and y: "canonicalNumber r = Some y" "normal_form y" "denote r = DNum (decimal_value y)"
    using canonicalNumber_Some by blast
  have "decimal_equal x y \<longleftrightarrow> x = y" by (cases x; cases y) (simp add: decimal_equal_def)
  also have "\<dots> \<longleftrightarrow> denote l = denote r" using normal_form_unique [OF x(2) y(2)] x(3) y(3) by auto
  finally show ?thesis
    using True x(1) y(1) assms by (simp add: walk_ok_def same_value_def number_model)
next
  case False
  then have "canonicalNumber l = None \<or> canonicalNumber r = None" by (auto simp: canonicalNumber_iff)
  moreover have "\<not> same_value l r"
    using False assms(1) canonicalNumber_Some number_of_denote unfolding same_value_def by metis
  ultimately show ?thesis by (auto simp: walk_ok_def split: option.splits)
qed

lemma map_of_denote: "map_of (map (\<lambda>(k, v). (k, denote v)) ms) k = map_option denote (map_of ms k)"
  by (induction ms) auto

lemma same_members:
  assumes "distinct (map fst ls)" "distinct (map fst rs)" "length ls = length rs"
  shows "same_value (AMap ls) (AMap rs) \<longleftrightarrow>
    (\<forall>(k, v) \<in> set ls. \<exists>w. map_of rs k = Some w \<and> same_value v w)" (is "?A \<longleftrightarrow> ?B")
proof
  assume A: ?A
  then have eq: "map_option denote (map_of ls k) = map_option denote (map_of rs k)" for k
    using map_of_denote unfolding same_value_def by (metis denote.simps(9) jvalue.inject(5))
  show ?B
  proof (clarify)
    fix k v assume kv: "(k, v) \<in> set ls"
    then have "map_of ls k = Some v" using assms(1) by simp
    then obtain w where w: "map_of rs k = Some w" "denote w = denote v" using eq [of k] by (cases "map_of rs k") auto
    then have "(k, w) \<in> set rs" by (simp add: map_of_SomeD)
    with A kv w show "\<exists>w. map_of rs k = Some w \<and> same_value v w"
      by (auto simp: same_value_def list_all_iff)
  qed
next
  assume B: ?B
  have sub: "fst ` set ls \<subseteq> fst ` set rs"
  proof (clarify)
    fix k v assume "(k, v) \<in> set ls"
    with B obtain w where "map_of rs k = Some w" by auto
    then show "fst (k, v) \<in> fst ` set rs" using map_of_SomeD by force
  qed
  have "card (fst ` set ls) = length ls" "card (fst ` set rs) = length rs"
    using distinct_card [OF assms(1)] distinct_card [OF assms(2)] by simp_all
  then have keys: "fst ` set ls = fst ` set rs"
    using sub assms(3) by (intro card_subset_eq) simp_all
  have match: "\<exists>v. (k, v) \<in> set ls \<and> same_value v w" if "(k, w) \<in> set rs" for k w
  proof -
    have "k \<in> fst ` set rs" using that by force
    then obtain v where v: "(k, v) \<in> set ls" unfolding keys [symmetric] by auto
    moreover have "\<exists>w. map_of rs k = Some w \<and> same_value v w" using bspec [OF B v] by simp
    moreover have "map_of rs k = Some w" using that assms(2) by simp
    ultimately show ?thesis by auto
  qed
  have "map_option denote (map_of ls k) = map_option denote (map_of rs k)" for k
  proof (cases "map_of ls k")
    case None
    then have "map_of rs k = None" using keys by (simp add: map_of_eq_None_iff)
    with None show ?thesis by simp
  next
    case (Some v)
    then show ?thesis using B map_of_SomeD [OF Some] by (force simp: same_value_def)
  qed
  then have "denote (AMap ls) = denote (AMap rs)" by (simp add: map_of_denote fun_eq_iff)
  moreover have "in_json_model (AMap ls)" "in_json_model (AMap rs)"
    using B match by (force simp: list_all_iff same_value_def)+
  ultimately show ?A by (simp add: same_value_def)
qed

lemma same_members_length:
  assumes "distinct (map fst ls)" "distinct (map fst rs)" "same_value (AMap ls) (AMap rs)"
  shows "length ls = length rs"
proof -
  have "dom (map_of (map (\<lambda>(k, v). (k, denote v)) ls)) = dom (map_of (map (\<lambda>(k, v). (k, denote v)) rs))"
    using assms(3) by (simp add: same_value_def)
  then have "fst ` set ls = fst ` set rs" by (simp add: map_of_denote dom_def dom_map_of_conv_image_fst [unfolded dom_def, symmetric])
  then show ?thesis using distinct_card [OF assms(1)] distinct_card [OF assms(2)] by simp
qed

lemma walk_items_step:
  assumes "walk_ok l r d b (x, b1)"
    and "x \<Longrightarrow> 0 \<le> b1 \<Longrightarrow> (fst res \<longleftrightarrow> list_all2 same_value ls rs \<and> int (sum_list (map node_count ls)) \<le> b1 \<and> list_all (within_depth d) ls) \<and>
      (fst res \<longrightarrow> snd res = b1 - int (sum_list (map node_count ls)))"
    and "\<not> x \<Longrightarrow> \<not> fst res"
  shows "(fst res \<longleftrightarrow> list_all2 same_value (l # ls) (r # rs) \<and> int (sum_list (map node_count (l # ls))) \<le> b \<and>
      list_all (within_depth d) (l # ls)) \<and>
    (fst res \<longrightarrow> snd res = b - int (sum_list (map node_count (l # ls))))"
proof (cases x)
  case True
  then have "same_value l r" "int (node_count l) \<le> b" "within_depth d l" "b1 = b - int (node_count l)"
    using assms(1) by (simp_all add: walk_ok_def)
  with assms(2) [OF True] show ?thesis by auto
next
  case False
  then have "\<not> (same_value l r \<and> int (node_count l) \<le> b \<and> within_depth d l)"
    using assms(1) by (simp add: walk_ok_def)
  with assms(3) [OF False] show ?thesis by auto
qed

lemma walk_members_step:
  assumes "map_of rs k = Some r" "walk_ok l r d b (x, b1)"
    and "x \<Longrightarrow> 0 \<le> b1 \<Longrightarrow> (fst res \<longleftrightarrow> (\<forall>(k, v) \<in> set ls. \<exists>w. map_of rs k = Some w \<and> same_value v w) \<and>
        int (sum_list (map (\<lambda>(k, v). node_count v) ls)) \<le> b1 \<and> list_all (\<lambda>(k, v). within_depth d v) ls) \<and>
      (fst res \<longrightarrow> snd res = b1 - int (sum_list (map (\<lambda>(k, v). node_count v) ls)))"
    and "\<not> x \<Longrightarrow> \<not> fst res"
  shows "(fst res \<longleftrightarrow> (\<forall>(k, v) \<in> set ((k, l) # ls). \<exists>w. map_of rs k = Some w \<and> same_value v w) \<and>
        int (sum_list (map (\<lambda>(k, v). node_count v) ((k, l) # ls))) \<le> b \<and> list_all (\<lambda>(k, v). within_depth d v) ((k, l) # ls)) \<and>
      (fst res \<longrightarrow> snd res = b - int (sum_list (map (\<lambda>(k, v). node_count v) ((k, l) # ls))))"
proof (cases x)
  case True
  then have "same_value l r" "int (node_count l) \<le> b" "within_depth d l" "b1 = b - int (node_count l)"
    using assms(2) by (simp_all add: walk_ok_def)
  with assms(3) [OF True] assms(1) show ?thesis by auto
next
  case False
  then have "\<not> (same_value l r \<and> int (node_count l) \<le> b \<and> within_depth d l)"
    using assms(2) by (simp add: walk_ok_def)
  with assms(4) [OF False] assms(1) show ?thesis by auto
qed

lemma same_slices: "same_value (ASlice ls) (ASlice rs) \<longleftrightarrow> list_all2 same_value ls rs"
proof -
  have "list_all2 same_value ls rs \<longleftrightarrow>
      list_all in_json_model ls \<and> list_all in_json_model rs \<and> map denote ls = map denote rs" for ls rs
  proof (induction ls arbitrary: rs)
    case (Cons l ls)
    then show ?case by (cases rs) (auto simp: same_value_def)
  qed auto
  then show ?thesis by (simp add: same_value_def)
qed

text \<open>The values a non-number equals have its own constructor.\<close>

lemma same_value_scalar:
  assumes "\<not> is_number l" "\<not> is_number r" "\<forall>ls rs. \<not> (l = ASlice ls \<and> r = ASlice rs)"
    "\<forall>ls rs. \<not> (l = AMap ls \<and> r = AMap rs)"
  shows "same_value l r \<longleftrightarrow>
    (case (l, r) of
       (ANil, ANil) \<Rightarrow> True
     | (ABool x, ABool y) \<Rightarrow> x = y
     | (AString x, AString y) \<Rightarrow> x = y
     | _ \<Rightarrow> False)"
  using assms by (cases l; cases r) (simp_all add: same_value_def is_number_def)

lemma walk_unequal: "\<not> (same_value l r \<and> int (node_count l) \<le> b \<and> within_depth d l) \<Longrightarrow> walk_ok l r d b (False, c)"
  by (simp add: walk_ok_def)

lemma depth_or_budget:
  "b - 1 < 0 \<or> d > maxEqualityDepth \<Longrightarrow> \<not> (int (node_count l) \<le> b \<and> within_depth d l)"
  using node_count_pos [of l] by (cases l) auto

lemma semanticEqual_other:
  assumes "1 \<le> b" "d \<le> maxEqualityDepth" "\<not> is_number l" "\<not> is_number r"
  shows "semanticEqual l r d b = (case (l, r) of
      (ANil, _) \<Rightarrow> (r = ANil, b - 1)
    | (ABool x, ABool y) \<Rightarrow> (x = y, b - 1)
    | (AString x, AString y) \<Rightarrow> (x = y, b - 1)
    | (ASlice x, ASlice y) \<Rightarrow> if length x \<noteq> length y then (False, b - 1) else equal_items x y (d + 1) (b - 1)
    | (AMap x, AMap y) \<Rightarrow> if length x \<noteq> length y then (False, b - 1) else equal_members x y (d + 1) (b - 1)
    | _ \<Rightarrow> (False, b - 1))"
proof -
  have "\<not> (b - 1 < 0 \<or> d > maxEqualityDepth)" "\<not> (canonicalNumber l \<noteq> None \<or> canonicalNumber r \<noteq> None)"
    using assms by (simp_all add: canonicalNumber_iff)
  then show ?thesis
    unfolding semanticEqual.simps [of l r d b] Let_def by (simp only: if_False) (cases l; cases r; simp)
qed

lemma semanticEqual_walk:
  "go_maps l \<Longrightarrow> go_maps r \<Longrightarrow> walk_ok l r d b (semanticEqual l r d b)"
  "0 \<le> b \<Longrightarrow> list_all go_maps ls \<Longrightarrow> list_all go_maps rs \<Longrightarrow> length ls = length rs \<Longrightarrow>
    (fst (equal_items ls rs d b) \<longleftrightarrow>
      list_all2 same_value ls rs \<and> int (sum_list (map node_count ls)) \<le> b \<and> list_all (within_depth d) ls) \<and>
    (fst (equal_items ls rs d b) \<longrightarrow> snd (equal_items ls rs d b) = b - int (sum_list (map node_count ls)))"
  "0 \<le> b \<Longrightarrow> list_all (\<lambda>(k, v). go_maps v) ms \<Longrightarrow> list_all (\<lambda>(k, v). go_maps v) ns \<Longrightarrow>
    (fst (equal_members ms ns d b) \<longleftrightarrow> (\<forall>(k, v) \<in> set ms. \<exists>w. map_of ns k = Some w \<and> same_value v w) \<and>
      int (sum_list (map (\<lambda>(k, v). node_count v) ms)) \<le> b \<and> list_all (\<lambda>(k, v). within_depth d v) ms) \<and>
    (fst (equal_members ms ns d b) \<longrightarrow> snd (equal_members ms ns d b) = b - int (sum_list (map (\<lambda>(k, v). node_count v) ms)))"
proof (induction l r d b and ls rs d b and ms ns d b rule: semanticEqual_equal_items_equal_members.induct)
  case (1 l r d b)
  show ?case
  proof (cases "b - 1 < 0 \<or> d > maxEqualityDepth")
    case True
    with depth_or_budget [OF True, of l] show ?thesis
      by (subst semanticEqual.simps) (simp add: walk_ok_def Let_def)
  next
    case False
    then have lim: "1 \<le> b" "d \<le> maxEqualityDepth" by simp_all
    show ?thesis
    proof (cases "is_number l \<or> is_number r")
      case True
      then have c: "canonicalNumber l \<noteq> None \<or> canonicalNumber r \<noteq> None" by (simp add: canonicalNumber_iff)
      show ?thesis
        unfolding semanticEqual.simps [of l r d b] Let_def if_not_P [OF False] if_P [OF c]
        by (rule walk_number [OF True _ lim(2)]) (use lim in simp)
    next
      case num: False
      then have nn: "\<not> is_number l" "\<not> is_number r" by simp_all
      note step = semanticEqual_other [OF lim nn]
      have off: "\<not> (b - 1 < 0 \<or> maxEqualityDepth < d)" "\<not> (canonicalNumber l \<noteq> None \<or> canonicalNumber r \<noteq> None)"
        using False nn by (simp_all add: canonicalNumber_iff)
      consider (slices) ls rs where "l = ASlice ls" "r = ASlice rs" | (maps) ls rs where "l = AMap ls" "r = AMap rs"
        | (scalar) "\<forall>ls rs. \<not> (l = ASlice ls \<and> r = ASlice rs)" "\<forall>ls rs. \<not> (l = AMap ls \<and> r = AMap rs)" by blast
      then show ?thesis
      proof cases
        case slices
        show ?thesis
        proof (cases "length ls = length rs")
          case True
          have "walk_ok l r d b (equal_items ls rs (d + 1) (b - 1))"
            using 1(1) [OF refl off slices _] 1(3,4) slices lim True by (auto simp: walk_ok_def same_slices)
          with True show ?thesis unfolding step unfolding slices by simp
        next
          case False
          then have "\<not> same_value l r" using slices by (auto simp: same_slices dest: list_all2_lengthD)
          then have "walk_ok l r d b (False, b - 1)" by (intro walk_unequal) blast
          with False show ?thesis unfolding step unfolding slices by simp
        qed
      next
        case maps
        have dist: "distinct (map fst ls)" "distinct (map fst rs)" using 1(3,4) maps by simp_all
        show ?thesis
        proof (cases "length ls = length rs")
          case True
          have "walk_ok l r d b (equal_members ls rs (d + 1) (b - 1))"
            using 1(2) [OF refl off maps _] 1(3,4) maps lim True same_members [OF dist True] by (auto simp: walk_ok_def)
          with True show ?thesis unfolding step unfolding maps by simp
        next
          case False
          then have "\<not> same_value l r" using maps same_members_length [OF dist] by blast
          then have "walk_ok l r d b (False, b - 1)" by (intro walk_unequal) blast
          with False show ?thesis unfolding step unfolding maps by simp
        qed
      next
        case scalar
        have eq: "semanticEqual l r d b = (same_value l r, b - 1)"
          using scalar unfolding step same_value_scalar [OF nn scalar] by (cases l; cases r; simp)
        have "node_count l = 1 \<and> within_depth d l" if "same_value l r"
          using that lim unfolding same_value_scalar [OF nn scalar] by (cases l; cases r; simp)
        then show ?thesis using lim unfolding eq by (auto simp: walk_ok_def)
      qed
    qed
  qed
next
  case (2 l ls r rs d b)
  obtain x b1 where x: "semanticEqual l r d b = (x, b1)" by force
  show ?case
  proof (rule walk_items_step [of l r d b x b1])
    show "walk_ok l r d b (x, b1)" using 2 x by simp
  qed (use 2 x in auto)
next
  case (4 rs d b)
  then show ?case by simp
next
  case (5 key item ls rs d b)
  show ?case
  proof (cases "map_of rs key")
    case (Some other)
    obtain x b1 where x: "semanticEqual item other d b = (x, b1)" by force
    have "go_maps other" using map_of_SomeD [OF Some] 5(5) by (auto simp: list_all_iff)
    then have "walk_ok item other d b (x, b1)" using 5(1) [OF Some] 5(4) x by simp
    with Some 5 x show ?thesis by (intro walk_members_step [of rs key other item d b x b1]) auto
  qed simp
qed (simp_all)

subsection \<open>Properties\<close>

text \<open>
  C30.  The decimal parser reads exactly the numbers of the JSON grammar, and two numbers it reads
  are equal exactly when the lexemes denote the same rational number, however long their digits and
  exponents are.
\<close>

theorem decimals_equal_by_value:
  assumes "valid_number a" and "valid_number b"
  shows "\<exists>x y. parseDecimal a = Some x \<and> parseDecimal b = Some y \<and>
    (decimal_equal x y \<longleftrightarrow> number_value a = number_value b)"
proof -
  obtain x y where xy: "parseDecimal a = Some x" "parseDecimal b = Some y"
    using assms parseDecimal_None [of a] parseDecimal_None [of b] by auto
  have "decimal_equal x y \<longleftrightarrow> x = y" by (cases x; cases y) (simp add: decimal_equal_def)
  with xy parseDecimal_value [OF xy(1)] parseDecimal_value [OF xy(2)] normal_form_unique [of x y]
  show ?thesis by auto
qed

theorem decimals_equal_by_value_witness:
  "(\<exists>x y. parseDecimal ''1.50e3'' = Some x \<and> parseDecimal ''15E+2'' = Some y \<and>
    (decimal_equal x y \<longleftrightarrow> number_value ''1.50e3'' = number_value ''15E+2'')) \<and>
   valid_number ''1.50e3'' \<and> valid_number ''15E+2''"
proof -
  have v: "valid_number ''1.50e3''" "valid_number ''15E+2''" by code_simp+
  show ?thesis using decimals_equal_by_value [OF v] v by simp
qed

text \<open>
  C29.  Two values are reported equal exactly when both lie in the JSON data model, denote the same
  value - numbers by exact value, objects without order - and the left one has at most 200000 nodes,
  none deeper than 256.  So the order in which Go visits a map has no influence on the result.
\<close>

theorem SemanticEqual_exact:
  assumes "go_maps left" and "go_maps right"
  shows "SemanticEqual left right \<longleftrightarrow>
    in_json_model left \<and> in_json_model right \<and> denote left = denote right \<and>
    node_count left \<le> 200000 \<and> within_depth 0 left"
  using semanticEqual_walk(1) [OF assms, of 0 maxEqualityNodes]
  by (auto simp: SemanticEqual_def walk_ok_def same_value_def maxEqualityNodes_def)

theorem SemanticEqual_exact_witness:
  "(let l = AMap [(''a'', ANumber ''1.0''), (''b'', ASlice [ANil])];
        r = AMap [(''b'', ASlice [ANil]), (''a'', AInt GoInt 1)]
    in (SemanticEqual l r \<longleftrightarrow> in_json_model l \<and> in_json_model r \<and> denote l = denote r \<and>
         node_count l \<le> 200000 \<and> within_depth 0 l) \<and> go_maps l \<and> go_maps r \<and> SemanticEqual l r)"
proof -
  let ?l = "AMap [(''a'', ANumber ''1.0''), (''b'', ASlice [ANil])]"
  let ?r = "AMap [(''b'', ASlice [ANil]), (''a'', AInt GoInt 1)]"
  have m: "go_maps ?l" "go_maps ?r" by simp_all
  have "SemanticEqual ?l ?r" by code_simp
  then show ?thesis using SemanticEqual_exact [OF m] m unfolding Let_def by blast
qed

end
