(* ===== verification/Json_Path.thy ===== *)
theory Json_Path
  imports Json_Equal
begin

section \<open>Singular JSON paths (\<^verbatim>\<open>internal/structuredjson/path.go\<close>, \<^verbatim>\<open>errors.go\<close>)\<close>

text \<open>
  The bounded path language of the structured assertions: a root followed by member names and array
  indices.  An offset into the expression is the rest of the expression from there.  The theorems
  say what the compiler accepts and that every selection within the limits has an expression that
  compiles to it.
\<close>

subsection \<open>Errors\<close>

type_synonym ErrorKind = bytes

definition ErrorInvalidLimits :: ErrorKind where [go_const]: "ErrorInvalidLimits = ''invalid-limits''"
definition ErrorTooLarge :: ErrorKind where [go_const]: "ErrorTooLarge = ''too-large''"
definition ErrorInvalidUTF8 :: ErrorKind where [go_const]: "ErrorInvalidUTF8 = ''invalid-utf8''"
definition ErrorInvalidJSON :: ErrorKind where [go_const]: "ErrorInvalidJSON = ''invalid-json''"
definition ErrorDuplicateKey :: ErrorKind where [go_const]: "ErrorDuplicateKey = ''duplicate-key''"
definition ErrorDepthLimit :: ErrorKind where [go_const]: "ErrorDepthLimit = ''depth-limit''"
definition ErrorNodeLimit :: ErrorKind where [go_const]: "ErrorNodeLimit = ''node-limit''"
definition ErrorNumberExponentLimit :: ErrorKind where [go_const]: "ErrorNumberExponentLimit = ''number-exponent-limit''"
definition ErrorInvalidPath :: ErrorKind where [go_const]: "ErrorInvalidPath = ''invalid-path''"
definition ErrorPathLimit :: ErrorKind where [go_const]: "ErrorPathLimit = ''path-limit''"
definition ErrorUnsupportedValue :: ErrorKind where [go_const]: "ErrorUnsupportedValue = ''unsupported-value''"
definition ErrorSchemaPolicy :: ErrorKind where [go_const]: "ErrorSchemaPolicy = ''schema-policy''"
definition ErrorSchemaCompile :: ErrorKind where [go_const]: "ErrorSchemaCompile = ''schema-compile''"
definition ErrorSchemaEvaluation :: ErrorKind where [go_const]: "ErrorSchemaEvaluation = ''schema-evaluation''"
definition ErrorSchemaNotSatisfied :: ErrorKind where [go_const]: "ErrorSchemaNotSatisfied = ''schema-not-satisfied''"

record json_error =
  je_Kind :: ErrorKind
  je_InstanceLocation :: bytes
  je_SchemaLocation :: bytes

definition kind_error :: "ErrorKind \<Rightarrow> json_error" where
  "kind_error k = \<lparr>je_Kind = k, je_InstanceLocation = [], je_SchemaLocation = []\<rparr>"

text \<open>The message of an error depends on its kind alone.\<close>

definition json_error_text :: "json_error \<Rightarrow> bytes" where
  "json_error_text e =
    (let k = je_Kind e in
     if k = ErrorInvalidLimits then ''structured JSON limits are invalid''
     else if k = ErrorTooLarge then ''structured JSON exceeds the byte limit''
     else if k = ErrorInvalidUTF8 then ''structured JSON is not valid UTF-8''
     else if k = ErrorInvalidJSON then ''structured JSON syntax is invalid''
     else if k = ErrorDuplicateKey then ''structured JSON contains a duplicate object key''
     else if k = ErrorDepthLimit then ''structured JSON exceeds the nesting-depth limit''
     else if k = ErrorNodeLimit then ''structured JSON exceeds the node limit''
     else if k = ErrorNumberExponentLimit then ''structured JSON number exceeds the exponent limit''
     else if k = ErrorInvalidPath then ''structured JSON path syntax is invalid''
     else if k = ErrorPathLimit then ''structured JSON path exceeds a safety limit''
     else if k = ErrorUnsupportedValue then ''value is not in the supported JSON data model''
     else if k = ErrorSchemaPolicy then ''JSON Schema uses a feature outside the bounded profile''
     else if k = ErrorSchemaCompile then ''JSON Schema could not be compiled''
     else if k = ErrorSchemaEvaluation then ''JSON Schema evaluation could not be completed''
     else if k = ErrorSchemaNotSatisfied then ''JSON instance does not satisfy the schema''
     else ''structured JSON operation failed'')"

text \<open>The kind of an error that may be none of this package.\<close>

definition KindOf :: "json_error option \<Rightarrow> ErrorKind" where
  "KindOf e = (case e of None \<Rightarrow> [] | Some structuredError \<Rightarrow> je_Kind structuredError)"

subsection \<open>Compiled paths\<close>

definition MaxPathBytes :: nat where
  "MaxPathBytes = 1024"

definition MaxSelectors :: nat where
  "MaxSelectors = 64"

datatype selector = selectName bytes | selectIndex nat

record Path =
  path_expression :: bytes
  path_selectors :: "selector list"
  path_valid :: bool

definition isIdentifierStart :: "byte \<Rightarrow> bool" where
  "isIdentifierStart c \<longleftrightarrow> c = CHR ''_'' \<or> (65 \<le> byte_val c \<and> byte_val c \<le> 90) \<or> (97 \<le> byte_val c \<and> byte_val c \<le> 122)"

definition isIdentifierContinue :: "byte \<Rightarrow> bool" where
  "isIdentifierContinue c \<longleftrightarrow> isIdentifierStart c \<or> is_digit c"

definition maxInt :: nat where
  "maxInt = 2 ^ 63 - 1"

definition parseDotSelector :: "bytes \<Rightarrow> (json_error, selector \<times> bytes) result" where
  "parseDotSelector s =
    (case s of
       dot # c # r \<Rightarrow>
         if \<not> isIdentifierStart c then Inl (kind_error ErrorInvalidPath)
         else Inr (selectName (c # takeWhile isIdentifierContinue r), dropWhile isIdentifierContinue r)
     | _ \<Rightarrow> Inl (kind_error ErrorInvalidPath))"

text \<open>The content of a quoted literal up to its closing quote, and what follows the quote.\<close>

fun scan_quoted :: "byte \<Rightarrow> bool \<Rightarrow> bytes \<Rightarrow> (bytes \<times> bytes) option" where
  "scan_quoted q escaped [] = None"
| "scan_quoted q escaped (c # r) =
    (if escaped then map_option (\<lambda>(s, t). (c # s, t)) (scan_quoted q False r)
     else if c = CHR 0x5C then map_option (\<lambda>(s, t). (c # s, t)) (scan_quoted q True r)
     else if c = q then Some ([], r)
     else map_option (\<lambda>(s, t). (c # s, t)) (scan_quoted q False r))"

text \<open>\<^verbatim>\<open>json.Unmarshal\<close> of a literal into a string.\<close>

definition unmarshal_string :: "bytes \<Rightarrow> bytes option" where
  "unmarshal_string lit =
    (case lit of
       c # r \<Rightarrow> if c = CHR 0x22 then (case unquote r of Some (s, []) \<Rightarrow> Some s | _ \<Rightarrow> None) else None
     | [] \<Rightarrow> None)"

text \<open>The body of the double-quoted literal made from the content of a single-quoted one.\<close>

fun convert_quotes :: "bytes \<Rightarrow> bytes option" where
  "convert_quotes [] = Some []"
| "convert_quotes (c # r) =
    (if c = CHR 0x22 then map_option (\<lambda>t. CHR 0x5C # CHR 0x22 # t) (convert_quotes r)
     else if c \<noteq> CHR 0x5C then map_option (\<lambda>t. c # t) (convert_quotes r)
     else case r of
       [] \<Rightarrow> None
     | e # q \<Rightarrow>
         if e = CHR 0x27 then map_option (\<lambda>t. CHR 0x27 # t) (convert_quotes q)
         else if e = CHR 0x22 then map_option (\<lambda>t. CHR 0x5C # CHR 0x22 # t) (convert_quotes q)
         else if e \<in> set (CHR 0x5C # ''/bfnrtu'') then map_option (\<lambda>t. CHR 0x5C # e # t) (convert_quotes q)
         else None)"

definition decodePathString :: "bytes \<Rightarrow> byte \<Rightarrow> bytes option" where
  "decodePathString content q =
    (case (if q = CHR 0x22 then Some content else convert_quotes content) of
       None \<Rightarrow> None
     | Some body \<Rightarrow>
         (case unmarshal_string (CHR 0x22 # body @ [CHR 0x22]) of
            None \<Rightarrow> None
          | Some s \<Rightarrow> if valid_utf8 s then Some s else None))"

definition parseQuotedName :: "byte \<Rightarrow> bytes \<Rightarrow> (json_error, bytes \<times> bytes) result" where
  "parseQuotedName q r =
    (case scan_quoted q False r of
       None \<Rightarrow> Inl (kind_error ErrorInvalidPath)
     | Some (content, rest) \<Rightarrow>
         (case decodePathString content q of
            None \<Rightarrow> Inl (kind_error ErrorInvalidPath)
          | Some s \<Rightarrow> Inr (s, rest)))"

text \<open>\<^verbatim>\<open>strconv.ParseUint(s, 10, 63)\<close> on digits.\<close>

definition parse_uint63 :: "bytes \<Rightarrow> nat option" where
  "parse_uint63 s = (if digits_val s < 2 ^ 63 then Some (digits_val s) else None)"

definition parseIndex :: "bytes \<Rightarrow> (json_error, selector \<times> bytes) result" where
  "parseIndex s =
    (let ds = takeWhile is_digit s; rest = dropWhile is_digit s in
     if ds = [] \<or> rest = [] \<or> hd rest \<noteq> CHR '']'' then Inl (kind_error ErrorInvalidPath)
     else if length ds > 1 \<and> hd ds = CHR ''0'' then Inl (kind_error ErrorInvalidPath)
     else case parse_uint63 ds of
       None \<Rightarrow> Inl (kind_error ErrorInvalidPath)
     | Some index64 \<Rightarrow>
         if index64 > maxInt then Inl (kind_error ErrorInvalidPath)
         else Inr (selectIndex index64, tl rest))"

definition parseBracketSelector :: "bytes \<Rightarrow> (json_error, selector \<times> bytes) result" where
  "parseBracketSelector s =
    (case s of
       bracket # q # r \<Rightarrow>
         if q = CHR 0x27 \<or> q = CHR 0x22 then
           (case parseQuotedName q r of
              Inl e \<Rightarrow> Inl (kind_error ErrorInvalidPath)
            | Inr (name, rest) \<Rightarrow>
                if rest = [] \<or> hd rest \<noteq> CHR '']'' then Inl (kind_error ErrorInvalidPath)
                else Inr (selectName name, tl rest))
         else parseIndex (q # r)
     | _ \<Rightarrow> Inl (kind_error ErrorInvalidPath))"

definition parseSelector :: "bytes \<Rightarrow> (json_error, selector \<times> bytes) result" where
  "parseSelector s =
    (if hd s = CHR ''.'' then parseDotSelector s
     else if hd s = CHR ''['' then parseBracketSelector s
     else Inl (kind_error ErrorInvalidPath))"

lemma scan_quoted_length: "scan_quoted q e s = Some (c, r) \<Longrightarrow> length r < length s"
  by (induction q e s arbitrary: c r rule: scan_quoted.induct) (force split: if_splits)+

lemma parseSelector_length:
  assumes "parseSelector s = Inr (item, rest)"
  shows "length rest < length s"
proof -
  have idx: "length rest < length t" if "parseIndex t = Inr (item, rest)" for t
  proof -
    have "rest = tl (dropWhile is_digit t)" "dropWhile is_digit t \<noteq> []"
      using that by (auto simp: parseIndex_def Let_def split: if_splits option.splits)
    then show ?thesis using length_dropWhile_le [of is_digit t] by (cases "dropWhile is_digit t") auto
  qed
  show ?thesis
  proof (cases "hd s = CHR ''.''")
    case True
    then show ?thesis using assms length_dropWhile_le [of isIdentifierContinue]
      by (auto simp: parseSelector_def parseDotSelector_def le_imp_less_Suc le_SucI split: list.splits if_splits)
  next
    case False
    then have "parseBracketSelector s = Inr (item, rest)" using assms by (auto simp: parseSelector_def split: if_splits)
    then obtain b q r where s: "s = b # q # r" and c: "(\<exists>n t. parseQuotedName q r = Inr (n, t) \<and> t \<noteq> [] \<and> rest = tl t) \<or>
        parseIndex (q # r) = Inr (item, rest)"
      by (auto simp: parseBracketSelector_def split: list.splits if_splits sum.splits)
    from c show ?thesis
    proof (elim disjE exE conjE)
      fix n t assume "parseQuotedName q r = Inr (n, t)" "t \<noteq> []" "rest = tl t"
      then show ?thesis using s by (cases t) (auto simp: parseQuotedName_def split: option.splits dest!: scan_quoted_length)
    next
      assume "parseIndex (q # r) = Inr (item, rest)"
      from idx [OF this] s show ?thesis by simp
    qed
  qed
qed

function compile_selectors :: "selector list \<Rightarrow> bytes \<Rightarrow> (json_error, selector list) result" where
  "compile_selectors sels s =
    (if s = [] then Inr sels
     else if length sels \<ge> MaxSelectors then Inl (kind_error ErrorPathLimit)
     else case parseSelector s of
       Inl e \<Rightarrow> Inl e
     | Inr (item, rest) \<Rightarrow> compile_selectors (sels @ [item]) rest)"
  by pat_completeness auto
termination
  by (relation "measure (\<lambda>(sels, s). length s)") (auto dest: parseSelector_length)

declare compile_selectors.simps [simp del]

definition CompilePath :: "bytes \<Rightarrow> (json_error, Path) result" where
  "CompilePath expression =
    (if expression = [] \<or> \<not> valid_utf8 expression then Inl (kind_error ErrorInvalidPath)
     else if length expression > MaxPathBytes then Inl (kind_error ErrorPathLimit)
     else if hd expression \<noteq> CHR ''$'' then Inl (kind_error ErrorInvalidPath)
     else case compile_selectors [] (tl expression) of
       Inl e \<Rightarrow> Inl e
     | Inr sels \<Rightarrow> Inr \<lparr>path_expression = expression, path_selectors = sels, path_valid = True\<rparr>)"

definition ParsePath :: "bytes \<Rightarrow> (json_error, Path) result" where
  "ParsePath expression = CompilePath expression"

definition path_String :: "Path \<Rightarrow> bytes" where
  "path_String p = path_expression p"

definition SelectorCount :: "Path \<Rightarrow> nat" where
  "SelectorCount p = length (path_selectors p)"

fun lookup_from :: "goany \<Rightarrow> selector list \<Rightarrow> goany option" where
  "lookup_from current [] = Some current"
| "lookup_from current (selectName name # rest) =
    (case current of
       AMap object \<Rightarrow> (case map_of object name of None \<Rightarrow> None | Some v \<Rightarrow> lookup_from v rest)
     | _ \<Rightarrow> None)"
| "lookup_from current (selectIndex index # rest) =
    (case current of
       ASlice array \<Rightarrow> if index \<ge> length array then None else lookup_from (array ! index) rest
     | _ \<Rightarrow> None)"

definition Lookup :: "Path \<Rightarrow> goany \<Rightarrow> goany option" where
  "Lookup p value = (if \<not> path_valid p then None else lookup_from value (path_selectors p))"

subsection \<open>What is accepted\<close>

definition selector_ok :: "selector \<Rightarrow> bool" where
  "selector_ok sel \<longleftrightarrow> (case sel of selectName n \<Rightarrow> valid_utf8 n | selectIndex i \<Rightarrow> i \<le> maxInt)"

lemma identifier_ascii: "isIdentifierContinue c \<Longrightarrow> byte_val c < 128"
  by (auto simp: isIdentifierContinue_def isIdentifierStart_def is_digit_def)

lemma identifier_utf8:
  assumes "isIdentifierStart c" "\<forall>d \<in> set r. isIdentifierContinue d"
  shows "valid_utf8 (c # r)"
proof -
  have "isIdentifierContinue c" using assms(1) by (simp add: isIdentifierContinue_def)
  with assms(2) show ?thesis by (intro valid_utf8_ascii) (auto intro: identifier_ascii)
qed

lemma parseIndex_ok: "parseIndex s = Inr (sel, r) \<Longrightarrow> selector_ok sel"
  by (auto simp: parseIndex_def selector_ok_def Let_def split: if_splits option.splits)

lemma decodePathString_ok: "decodePathString c q = Some s \<Longrightarrow> valid_utf8 s"
  by (auto simp: decodePathString_def split: option.splits if_splits)

lemma parseSelector_ok:
  assumes "parseSelector s = Inr (sel, r)"
  shows "selector_ok sel"
proof (cases "hd s = CHR ''.''")
  case True
  then obtain c t where "isIdentifierStart c" "sel = selectName (c # takeWhile isIdentifierContinue t)"
    using assms by (auto simp: parseSelector_def parseDotSelector_def split: list.splits if_splits)
  then show ?thesis using identifier_utf8 [of c "takeWhile isIdentifierContinue t"]
    by (auto simp: selector_ok_def dest: set_takeWhileD)
next
  case False
  then have "parseBracketSelector s = Inr (sel, r)" using assms by (auto simp: parseSelector_def split: if_splits)
  then show ?thesis
    using parseIndex_ok decodePathString_ok
    by (fastforce simp: parseBracketSelector_def parseQuotedName_def selector_ok_def
        split: list.splits if_splits sum.splits option.splits)
qed

lemma compile_selectors_Nil [simp]: "compile_selectors sels [] = Inr sels"
  by (simp add: compile_selectors.simps)

lemma compile_selectors_ok:
  "compile_selectors sels s = Inr out \<Longrightarrow> length sels \<le> MaxSelectors \<Longrightarrow> list_all selector_ok sels \<Longrightarrow>
    length out \<le> MaxSelectors \<and> list_all selector_ok out"
proof (induction sels s rule: compile_selectors.induct)
  case (1 sels s)
  show ?case
  proof (cases "s = []")
    case True
    then show ?thesis using 1(2-) by simp
  next
    case False
    then obtain sel r where sel: "\<not> length sels \<ge> MaxSelectors" "parseSelector s = Inr (sel, r)"
        "compile_selectors (sels @ [sel]) r = Inr out"
      using 1(2) by (auto simp: compile_selectors.simps [of sels s] split: if_splits sum.splits)
    then show ?thesis using 1(1) [OF False sel(1,2) refl sel(3)] 1(4) parseSelector_ok [OF sel(2)] by simp
  qed
qed

subsection \<open>Every selection has an expression\<close>

definition is_identifier :: "bytes \<Rightarrow> bool" where
  "is_identifier n \<longleftrightarrow> n \<noteq> [] \<and> isIdentifierStart (hd n) \<and> list_all isIdentifierContinue (tl n)"

definition render_selector :: "selector \<Rightarrow> bytes" where
  "render_selector sel =
    (case sel of
       selectName n \<Rightarrow> if is_identifier n then CHR ''.'' # n else CHR ''['' # quote False n @ '']''
     | selectIndex i \<Rightarrow> CHR ''['' # dec_nat i @ '']'')"

definition render_path :: "selector list \<Rightarrow> bytes" where
  "render_path sels = CHR ''$'' # concat (map render_selector sels)"

text \<open>A piece of a literal that neither ends it nor leaves an escape open, and does not split a
  character.\<close>

definition piece :: "bytes \<Rightarrow> bool" where
  "piece p \<longleftrightarrow>
    (\<forall>t. scan_quoted (CHR 0x22) False (p @ t) = map_option (\<lambda>(s, u). (p @ s, u)) (scan_quoted (CHR 0x22) False t)) \<and>
    (\<forall>t. valid_utf8 (p @ t) = valid_utf8 t)"

lemma piece_append: "piece p \<Longrightarrow> piece q \<Longrightarrow> piece (p @ q)"
  by (simp add: piece_def option.map_comp comp_def case_prod_unfold)

lemma piece_Nil: "piece []"
  by (simp add: piece_def case_prod_unfold option.map_ident)

lemma piece_char: "byte_val c < 128 \<Longrightarrow> c \<noteq> CHR 0x22 \<Longrightarrow> c \<noteq> CHR 0x5C \<Longrightarrow> piece [c]"
  by (simp add: piece_def valid_utf8_ascii_Cons del: valid_utf8.simps)

lemma piece_escape: "byte_val c < 128 \<Longrightarrow> piece [CHR 0x5C, c]"
  by (simp add: piece_def valid_utf8_ascii_Cons option.map_comp comp_def case_prod_unfold del: valid_utf8.simps)

lemma piece_Cons: "byte_val c < 128 \<Longrightarrow> c \<noteq> CHR 0x22 \<Longrightarrow> c \<noteq> CHR 0x5C \<Longrightarrow> piece p \<Longrightarrow> piece (c # p)"
  using piece_append [OF piece_char] by simp

lemma piece_escaped: "byte_val c < 128 \<Longrightarrow> piece p \<Longrightarrow> piece (CHR 0x5C # c # p)"
  using piece_append [OF piece_escape] by simp

lemma hex_digit_plain: "n < 16 \<Longrightarrow> byte_val (hex_digit n) < 128 \<and> hex_digit n \<noteq> CHR 0x22 \<and> hex_digit n \<noteq> CHR 0x5C"
proof -
  assume "n < 16"
  then have "byte_val (hex_digit n) = (if n < 10 then 48 + n else 87 + n)" by (simp add: hex_digit_def)
  then have "byte_val (hex_digit n) < 128" "byte_val (hex_digit n) \<noteq> byte_val (CHR 0x22)"
    "byte_val (hex_digit n) \<noteq> byte_val (CHR 0x5C)" using \<open>n < 16\<close> by (auto split: if_splits)
  then show ?thesis by auto
qed

lemma piece_esc_ascii:
  assumes "byte_val c < 128"
  shows "piece (esc_ascii h c)"
proof -
  have "byte_val c div 16 < 16" "byte_val c mod 16 < 16" using assms by simp_all
  then have "piece (CHR 0x5C # CHR ''u'' # CHR ''0'' # CHR ''0'' # hex_digit (byte_val c div 16) # [hex_digit (byte_val c mod 16)])"
    using hex_digit_plain by (intro piece_escaped piece_Cons piece_Nil) auto
  moreover have "byte_val c \<noteq> 34 \<Longrightarrow> byte_val c \<noteq> 92 \<Longrightarrow> piece [c]"
    by (rule piece_char [OF assms]) auto
  moreover have "piece [CHR 0x5C, c]" "piece [CHR 0x5C, CHR ''b'']" "piece [CHR 0x5C, CHR ''f'']" "piece [CHR 0x5C, CHR ''n'']"
    "piece [CHR 0x5C, CHR ''r'']" "piece [CHR 0x5C, CHR ''t'']"
    using assms by (simp_all add: piece_escape)
  ultimately show ?thesis by (simp add: esc_ascii_def Let_def)
qed

lemma scan_high:
  "\<forall>c \<in> set p. 128 \<le> byte_val c \<Longrightarrow>
    scan_quoted (CHR 0x22) False (p @ t) = map_option (\<lambda>(s, u). (p @ s, u)) (scan_quoted (CHR 0x22) False t)"
  by (induction p) (auto simp: option.map_comp comp_def case_prod_unfold option.map_ident)

lemma in_ranges_high: "in_ranges rs s \<Longrightarrow> \<forall>(l, h) \<in> set rs. 128 \<le> l \<Longrightarrow> \<forall>c \<in> set (take (length rs) s). 128 \<le> byte_val c"
  by (induction rs s rule: in_ranges.induct) auto

lemma utf8_tail_high: "utf8_tail x = Some rs \<Longrightarrow> \<forall>(l, h) \<in> set rs. 128 \<le> l"
  by (auto simp: utf8_tail_def split: if_splits)

lemma utf8_len_high:
  assumes "utf8_len (c # r) = Some n" "128 \<le> byte_val c"
  shows "\<forall>d \<in> set (take n (c # r)). 128 \<le> byte_val d"
proof -
  obtain rs where "utf8_tail (byte_val c) = Some rs" "in_ranges rs r" "n = Suc (length rs)"
    using assms(1) by (auto simp: utf8_len_def split: option.splits if_splits)
  with in_ranges_high [OF this(2) utf8_tail_high [OF this(1)]] assms(2) show ?thesis by simp
qed

lemma piece_esc_multi:
  assumes "utf8_len (c # r) = Some n" "128 \<le> byte_val c"
  shows "piece (esc_multi (take n (c # r)))"
proof -
  have "piece (take n (c # r))"
    using scan_high [OF utf8_len_high [OF assms]] valid_utf8_append [OF valid_utf8_seq_Nil [OF assms(1)]]
    by (simp only: piece_def simp_thms)
  moreover have "piece (CHR 0x5C # ''u2028'')" "piece (CHR 0x5C # ''u2029'')"
    by (intro piece_escaped piece_Cons piece_Nil; simp)+
  ultimately show ?thesis by (simp add: esc_multi_def)
qed

lemma piece_quote_body: "piece (quote_body h s)"
proof (induction h s rule: quote_body.induct)
  case (2 h c r)
  have bad: "piece (CHR 0x5C # ''ufffd'')" by (intro piece_escaped piece_Cons piece_Nil; simp)
  show ?case
    using 2 piece_esc_ascii [of c h] piece_esc_multi [of c r] bad
    by (auto intro: piece_append simp del: append_Cons split: option.splits)
qed (simp add: piece_Nil)

lemma parse_name_bracket:
  assumes "valid_utf8 n"
  shows "parseBracketSelector (CHR ''['' # quote False n @ '']'' @ t) = Inr (selectName n, t)"
proof -
  have "scan_quoted (CHR 0x22) False (quote_body False n @ CHR 0x22 # '']'' @ t) = Some (quote_body False n, '']'' @ t)"
    using piece_quote_body [of False n] unfolding piece_def by simp
  moreover have "decodePathString (quote_body False n) (CHR 0x22) = Some n"
    using unquote_quote_body [of False n "[]"] assms
    by (simp add: decodePathString_def unmarshal_string_def sanitize_valid)
  ultimately show ?thesis by (simp add: parseBracketSelector_def parseQuotedName_def quote_def)
qed

lemma parse_index_bracket:
  assumes "i \<le> maxInt"
  shows "parseBracketSelector (CHR ''['' # dec_nat i @ '']'' @ t) = Inr (selectIndex i, t)"
proof -
  obtain c s where d: "dec_nat i = c # s" using dec_nat_not_Nil by (cases "dec_nat i") blast+
  have dig: "\<forall>x \<in> set (dec_nat i). is_digit x" using dec_nat_digits by blast
  then have "is_digit c" using d by simp
  then have "c \<noteq> CHR 0x27" "c \<noteq> CHR 0x22" by (auto simp: is_digit_def)
  moreover have "takeWhile is_digit (dec_nat i @ '']'' @ t) = dec_nat i" "dropWhile is_digit (dec_nat i @ '']'' @ t) = '']'' @ t"
    using digits_span [OF dig, of "'']'' @ t"] by (simp_all add: no_digit_hd_def is_digit_def)
  moreover have "\<not> (length (dec_nat i) > 1 \<and> hd (dec_nat i) = CHR ''0'')"
    using dec_nat_int_part [of i] by (auto simp: int_part_def)
  moreover have "i < 2 ^ 63" using assms by (simp add: maxInt_def)
  ultimately have "parseIndex (dec_nat i @ '']'' @ t) = Inr (selectIndex i, t)"
    using assms by (simp add: parseIndex_def parse_uint63_def Let_def)
  with \<open>c \<noteq> CHR 0x27\<close> \<open>c \<noteq> CHR 0x22\<close> show ?thesis unfolding d by (simp add: parseBracketSelector_def)
qed

lemma parse_rendered:
  assumes "selector_ok sel" "t = [] \<or> \<not> isIdentifierContinue (hd t)"
  shows "parseSelector (render_selector sel @ t) = Inr (sel, t)"
proof (cases sel)
  case (selectName n)
  show ?thesis
  proof (cases "is_identifier n")
    case True
    then obtain c r where n: "n = c # r" "isIdentifierStart c" "\<forall>x \<in> set r. isIdentifierContinue x"
      by (cases n) (auto simp: is_identifier_def list_all_iff)
    have "takeWhile isIdentifierContinue (r @ t) = r" "dropWhile isIdentifierContinue (r @ t) = t"
      using n(3) assms(2) by (cases t; auto simp: takeWhile_append dropWhile_append)+
    then show ?thesis using True selectName n by (simp add: parseSelector_def parseDotSelector_def render_selector_def)
  next
    case False
    then show ?thesis using selectName assms(1) parse_name_bracket [of n t]
      by (simp add: parseSelector_def render_selector_def selector_ok_def)
  qed
next
  case (selectIndex i)
  then show ?thesis using assms(1) parse_index_bracket [of i t]
    by (simp add: parseSelector_def render_selector_def selector_ok_def)
qed

lemma render_head: "t = concat (map render_selector sels) \<Longrightarrow> t = [] \<or> \<not> isIdentifierContinue (hd t)"
  by (cases sels) (auto simp: render_selector_def isIdentifierContinue_def isIdentifierStart_def is_digit_def split: selector.splits)

lemma render_selector_not_Nil: "render_selector sel \<noteq> []"
  by (simp add: render_selector_def split: selector.splits)

lemma compile_rendered:
  "list_all selector_ok sels \<Longrightarrow> length done' + length sels \<le> MaxSelectors \<Longrightarrow>
    compile_selectors done' (concat (map render_selector sels)) = Inr (done' @ sels)"
proof (induction sels arbitrary: done')
  case (Cons sel sels)
  have "parseSelector (render_selector sel @ concat (map render_selector sels)) = Inr (sel, concat (map render_selector sels))"
    using Cons.prems(1) by (intro parse_rendered render_head [OF refl]) simp
  moreover have "\<not> MaxSelectors \<le> length done'" using Cons.prems(2) by simp
  ultimately show ?case
    using Cons.IH [of "done' @ [sel]"] Cons.prems render_selector_not_Nil [of sel]
    by (simp add: compile_selectors.simps [of done'])
qed simp

lemma render_selector_utf8: "selector_ok sel \<Longrightarrow> valid_utf8 (render_selector sel @ t) = valid_utf8 t"
proof (cases sel)
  case (selectName n)
  moreover assume "selector_ok sel"
  ultimately have "valid_utf8 n" by (simp add: selector_ok_def)
  moreover have "\<And>u. valid_utf8 (quote_body False n @ u) = valid_utf8 u"
    using piece_quote_body [of False n] by (simp add: piece_def)
  ultimately show ?thesis
    using selectName valid_utf8_append [of n t]
    by (auto simp: render_selector_def quote_def valid_utf8_ascii_Cons simp del: valid_utf8.simps)
next
  case (selectIndex i)
  have "\<forall>c \<in> set (dec_nat i @ '']''). byte_val c < 128"
  proof
    fix c assume "c \<in> set (dec_nat i @ '']'')"
    then have "is_digit c \<or> c = CHR '']''" using dec_nat_digits by auto
    then show "byte_val c < 128" by (auto simp: is_digit_def)
  qed
  from valid_utf8_append [OF valid_utf8_ascii [OF this]] selectIndex show ?thesis
    by (simp add: render_selector_def valid_utf8_ascii_Cons del: valid_utf8.simps)
qed

lemma render_path_utf8: "list_all selector_ok sels \<Longrightarrow> valid_utf8 (concat (map render_selector sels))"
  by (induction sels) (simp_all add: render_selector_utf8)

lemma compile_render_path:
  assumes "list_all selector_ok sels" "length sels \<le> MaxSelectors" "length (render_path sels) \<le> MaxPathBytes"
  shows "CompilePath (render_path sels)
    = Inr \<lparr>path_expression = render_path sels, path_selectors = sels, path_valid = True\<rparr>"
proof -
  have "valid_utf8 (render_path sels)"
    using render_path_utf8 [OF assms(1)] by (simp add: render_path_def valid_utf8_ascii_Cons del: valid_utf8.simps)
  moreover have "compile_selectors [] (tl (render_path sels)) = Inr sels"
    using compile_rendered [OF assms(1), of "[]"] assms(2) by (simp add: render_path_def)
  moreover have "render_path sels \<noteq> []" "hd (render_path sels) = CHR ''$''" by (simp_all add: render_path_def)
  ultimately show ?thesis using assms(3) by (simp add: CompilePath_def)
qed

lemmas render_facts = is_identifier_def isIdentifierStart_def isIdentifierContinue_def is_digit_def quote_def esc_ascii_def
  digit_char_def char_of_def bit_simps

subsection \<open>Properties\<close>

text \<open>
  C33.  An accepted expression is a UTF-8 text of at most 1024 bytes that starts with the root, and
  compiles to at most 64 selections whose names are UTF-8 texts and whose indices are machine
  integers; a path that was compiled carries its expression unchanged.
\<close>

theorem CompilePath_bounded:
  assumes "CompilePath expression = Inr p"
  shows "path_valid p \<and> path_String p = expression \<and> SelectorCount p \<le> 64 \<and> length expression \<le> 1024 \<and>
    valid_utf8 expression \<and> hd expression = CHR ''$'' \<and>
    (\<forall>sel \<in> set (path_selectors p). case sel of selectName n \<Rightarrow> valid_utf8 n | selectIndex i \<Rightarrow> i < 2 ^ 63)"
proof -
  obtain sels where c: "compile_selectors [] (tl expression) = Inr sels"
    and p: "p = \<lparr>path_expression = expression, path_selectors = sels, path_valid = True\<rparr>"
    and e: "valid_utf8 expression" "length expression \<le> 1024" "hd expression = CHR ''$''"
    using assms by (auto simp: CompilePath_def MaxPathBytes_def split: if_splits sum.splits)
  have "length sels \<le> 64" "list_all selector_ok sels"
    using compile_selectors_ok [OF c] by (simp_all add: MaxSelectors_def)
  moreover have "selector_ok sel \<Longrightarrow> case sel of selectName n \<Rightarrow> valid_utf8 n | selectIndex i \<Rightarrow> i < 2 ^ 63" for sel
    by (auto simp: selector_ok_def maxInt_def split: selector.splits)
  ultimately show ?thesis
    using e p by (simp add: list_all_iff SelectorCount_def path_String_def)
qed

theorem CompilePath_bounded_witness:
  "\<exists>p. CompilePath ''$.items[0]'' = Inr p \<and> path_valid p \<and> path_String p = ''$.items[0]'' \<and> SelectorCount p \<le> 64"
proof -
  have ok: "list_all selector_ok [selectName ''items'', selectIndex 0]"
    using valid_utf8_ascii [of "''items''"] by (simp add: selector_ok_def)
  have shown: "render_path [selectName ''items'', selectIndex 0] = ''$.items[0]''"
    by (simp add: render_path_def render_selector_def render_facts)
  have "\<exists>p. CompilePath ''$.items[0]'' = Inr p"
    using compile_render_path [OF ok] unfolding shown by (simp add: MaxSelectors_def MaxPathBytes_def)
  then obtain p where "CompilePath ''$.items[0]'' = Inr p" by blast
  with CompilePath_bounded [OF this] show ?thesis by blast
qed

text \<open>
  C32.  Every sequence of at most 64 selections with UTF-8 names and machine-integer indices whose
  printed form fits into 1024 bytes compiles back to exactly itself, whatever quotes, backslashes,
  control characters or line separators the names hold; looking a value up along the compiled path
  is looking it up along the selections.
\<close>

theorem path_round_trip:
  assumes "list_all selector_ok sels" and "length sels \<le> MaxSelectors" and "length (render_path sels) \<le> MaxPathBytes"
  shows "\<exists>p. CompilePath (render_path sels) = Inr p \<and> path_selectors p = sels \<and> Lookup p value = lookup_from value sels"
  using compile_render_path [OF assms] by (simp add: Lookup_def)

theorem path_round_trip_witness:
  "let sels = [selectName ''it's \"x\"'', selectIndex 7, selectName ''ok''];
       doc = AMap [(''it's \"x\"'', ASlice (replicate 7 ANil @ [AMap [(''ok'', ABool True)]]))]
   in \<exists>p. CompilePath (render_path sels) = Inr p \<and> path_selectors p = sels \<and> Lookup p doc = lookup_from doc sels \<and>
     lookup_from doc sels = Some (ABool True)"
proof -
  let ?sels = "[selectName ''it's \"x\"'', selectIndex 7, selectName ''ok'']"
  let ?doc = "AMap [(''it's \"x\"'', ASlice (replicate 7 ANil @ [AMap [(''ok'', ABool True)]]))]"
  have h: "list_all selector_ok ?sels" "length ?sels \<le> MaxSelectors" "length (render_path ?sels) \<le> MaxPathBytes"
    using valid_utf8_ascii [of "''it's \"x\"''"] valid_utf8_ascii [of "''ok''"]
    by (simp_all add: selector_ok_def maxInt_def MaxSelectors_def MaxPathBytes_def render_path_def render_selector_def render_facts)
  have "lookup_from ?doc ?sels = Some (ABool True)" by (simp add: nth_append)
  with path_round_trip [OF h, of ?doc] show ?thesis unfolding Let_def by blast
qed

end
