(* ===== verification/Json_Decode.thy ===== *)
theory Json_Decode
  imports Json_Path
begin

section \<open>Strict decoding of structured JSON (\<^verbatim>\<open>internal/structuredjson/decode.go\<close>)\<close>

text \<open>
  The decoder of the structured assertions reads tokens from \<^verbatim>\<open>json.Decoder\<close> and builds the
  value itself, so that it can count nodes, bound the depth and refuse duplicate keys while it
  reads.  The token reader of the standard library is modelled as a state machine over the rest of
  the input; the recursion of \<^verbatim>\<open>decodeToken\<close> has a fuel argument, and \<open>Decode\<close> starts with more
  than one unit for each byte, which suffices.  The theorem compares this decoder with the
  recursive-descent decoder of \<open>Go_Json\<close>.
\<close>

subsection \<open>The token reader of \<^verbatim>\<open>encoding/json\<close>\<close>

datatype token_state =
    tokenTopValue | tokenArrayStart | tokenArrayValue | tokenArrayComma
  | tokenObjectStart | tokenObjectKey | tokenObjectColon | tokenObjectValue | tokenObjectComma

record json_decoder =
  jd_rest :: bytes
  jd_state :: token_state
  jd_stack :: "token_state list"

datatype json_token = TDelim byte | TValue goany

datatype token_result = TokenEOF | TokenError | TokenRead json_token json_decoder

definition tokenValueAllowed :: "token_state \<Rightarrow> bool" where
  "tokenValueAllowed st \<longleftrightarrow> st \<in> {tokenTopValue, tokenArrayStart, tokenArrayValue, tokenObjectValue}"

definition tokenValueEnd :: "token_state \<Rightarrow> token_state" where
  "tokenValueEnd st =
    (case st of
       tokenArrayStart \<Rightarrow> tokenArrayComma
     | tokenArrayValue \<Rightarrow> tokenArrayComma
     | tokenObjectValue \<Rightarrow> tokenObjectComma
     | _ \<Rightarrow> st)"

text \<open>One value that is neither an array nor an object; numbers are kept as lexemes.\<close>

definition read_scalar :: "bytes \<Rightarrow> (goany \<times> bytes) option" where
  "read_scalar s =
    (if s \<noteq> [] \<and> hd s = CHR 0x22 then map_option (\<lambda>(t, q). (AString t, q)) (unquote (tl s))
     else if has_prefix s ''true'' then Some (ABool True, drop 4 s)
     else if has_prefix s ''false'' then Some (ABool False, drop 5 s)
     else if has_prefix s ''null'' then Some (ANil, drop 4 s)
     else map_option (\<lambda>(l, q). (ANumber l, q)) (scan_number s))"

definition open_token :: "byte \<Rightarrow> token_state \<Rightarrow> bytes \<Rightarrow> json_decoder \<Rightarrow> token_result" where
  "open_token c inner r d =
    (if \<not> tokenValueAllowed (jd_state d) then TokenError
     else TokenRead (TDelim c) \<lparr>jd_rest = r, jd_state = inner, jd_stack = jd_state d # jd_stack d\<rparr>)"

definition close_token :: "byte \<Rightarrow> token_state set \<Rightarrow> bytes \<Rightarrow> json_decoder \<Rightarrow> token_result" where
  "close_token c allowed r d =
    (if jd_state d \<notin> allowed \<or> jd_stack d = [] then TokenError
     else TokenRead (TDelim c)
       \<lparr>jd_rest = r, jd_state = tokenValueEnd (hd (jd_stack d)), jd_stack = tl (jd_stack d)\<rparr>)"

lemma skip_ws_shorter: "skip_ws s = c # r \<Longrightarrow> length r < length s"
  using length_dropWhile_le [of is_space s] by (simp add: skip_ws_def)

function read_token :: "json_decoder \<Rightarrow> token_result" where
  "read_token d =
    (case skip_ws (jd_rest d) of
       [] \<Rightarrow> TokenEOF
     | c # r \<Rightarrow>
         if c = CHR ''['' then open_token c tokenArrayStart r d
         else if c = CHR '']'' then close_token c {tokenArrayStart, tokenArrayComma} r d
         else if c = CHR ''{'' then open_token c tokenObjectStart r d
         else if c = CHR ''}'' then close_token c {tokenObjectStart, tokenObjectComma} r d
         else if c = CHR '':'' then
           (if jd_state d \<noteq> tokenObjectColon then TokenError
            else read_token (d\<lparr>jd_rest := r, jd_state := tokenObjectValue\<rparr>))
         else if c = CHR '','' then
           (if jd_state d = tokenArrayComma then read_token (d\<lparr>jd_rest := r, jd_state := tokenArrayValue\<rparr>)
            else if jd_state d = tokenObjectComma then read_token (d\<lparr>jd_rest := r, jd_state := tokenObjectKey\<rparr>)
            else TokenError)
         else if c = CHR 0x22 \<and> (jd_state d = tokenObjectStart \<or> jd_state d = tokenObjectKey) then
           (case unquote r of
              None \<Rightarrow> TokenError
            | Some (key, q) \<Rightarrow> TokenRead (TValue (AString key)) (d\<lparr>jd_rest := q, jd_state := tokenObjectColon\<rparr>))
         else if \<not> tokenValueAllowed (jd_state d) then TokenError
         else (case read_scalar (c # r) of
                 None \<Rightarrow> TokenError
               | Some (v, q) \<Rightarrow> TokenRead (TValue v) (d\<lparr>jd_rest := q, jd_state := tokenValueEnd (jd_state d)\<rparr>)))"
  by pat_completeness auto

termination
  by (relation "measure (\<lambda>d. length (jd_rest d))") (auto dest: skip_ws_shorter)

declare read_token.simps [simp del]

definition decoder_More :: "json_decoder \<Rightarrow> bool" where
  "decoder_More d \<longleftrightarrow> (case skip_ws (jd_rest d) of [] \<Rightarrow> False | c # _ \<Rightarrow> c \<noteq> CHR '']'' \<and> c \<noteq> CHR ''}'')"

subsection \<open>The code\<close>

record DecodeLimits =
  dl_MaxBytes :: int
  dl_MaxDepth :: int
  dl_MaxNodes :: int

definition defaultInstanceMaxBytes :: int where "defaultInstanceMaxBytes = 1048576"
definition defaultInstanceMaxDepth :: int where "defaultInstanceMaxDepth = 128"
definition defaultInstanceMaxNodes :: int where "defaultInstanceMaxNodes = 100000"

definition DefaultInstanceDecodeLimits :: DecodeLimits where
  "DefaultInstanceDecodeLimits = \<lparr>dl_MaxBytes = defaultInstanceMaxBytes, dl_MaxDepth = defaultInstanceMaxDepth,
    dl_MaxNodes = defaultInstanceMaxNodes\<rparr>"

record decodeState =
  ds_decoder :: json_decoder
  ds_limits :: DecodeLimits
  ds_nodes :: int

definition scalar_token :: "goany \<Rightarrow> decodeState \<Rightarrow> (json_error, goany \<times> decodeState) result" where
  "scalar_token token s =
    (case token of
       ANil \<Rightarrow> Inr (token, s)
     | ABool _ \<Rightarrow> Inr (token, s)
     | AString _ \<Rightarrow> Inr (token, s)
     | ANumber raw \<Rightarrow>
         (case jsonNumberWithinExponentLimit raw of (withinLimit, valid) \<Rightarrow>
            if \<not> valid then Inl (kind_error ErrorInvalidJSON)
            else if \<not> withinLimit then Inl (kind_error ErrorNumberExponentLimit)
            else Inr (token, s))
     | _ \<Rightarrow> Inl (kind_error ErrorInvalidJSON))"

text \<open>The next token when it can be read, the key of a member, and the closing token of an array or
  object.\<close>

definition next_token :: "json_decoder \<Rightarrow> (json_token \<times> json_decoder) option" where
  "next_token d = (case read_token d of TokenRead t d1 \<Rightarrow> Some (t, d1) | _ \<Rightarrow> None)"

definition next_key :: "json_decoder \<Rightarrow> (bytes \<times> json_decoder) option" where
  "next_key d = (case next_token d of Some (TValue (AString key), d1) \<Rightarrow> Some (key, d1) | _ \<Rightarrow> None)"

definition closing :: "byte \<Rightarrow> goany \<Rightarrow> decodeState \<Rightarrow> (json_error, goany \<times> decodeState) result" where
  "closing c value s =
    (case next_token (ds_decoder s) of
       None \<Rightarrow> Inl (kind_error ErrorInvalidJSON)
     | Some (t, d) \<Rightarrow> if t = TDelim c then Inr (value, s\<lparr>ds_decoder := d\<rparr>) else Inl (kind_error ErrorInvalidJSON))"

function (sequential) decodeToken :: "nat \<Rightarrow> json_token \<Rightarrow> int \<Rightarrow> decodeState \<Rightarrow> (json_error, goany \<times> decodeState) result"
  and decodeObject :: "nat \<Rightarrow> int \<Rightarrow> (bytes \<times> goany) list \<Rightarrow> decodeState \<Rightarrow> (json_error, goany \<times> decodeState) result"
  and decodeArray :: "nat \<Rightarrow> int \<Rightarrow> goany list \<Rightarrow> decodeState \<Rightarrow> (json_error, goany \<times> decodeState) result"
where
  "decodeToken 0 token depth s0 = Inl (kind_error ErrorInvalidJSON)"
| "decodeToken (Suc n) token depth s0 =
    (let s = s0\<lparr>ds_nodes := ds_nodes s0 + 1\<rparr> in
     if ds_nodes s > dl_MaxNodes (ds_limits s) then Inl (kind_error ErrorNodeLimit)
     else case token of
       TValue v \<Rightarrow> scalar_token v s
     | TDelim delimiter \<Rightarrow>
         if depth + 1 > dl_MaxDepth (ds_limits s) then Inl (kind_error ErrorDepthLimit)
         else if delimiter = CHR ''{'' then decodeObject n (depth + 1) [] s
         else if delimiter = CHR ''['' then decodeArray n (depth + 1) [] s
         else Inl (kind_error ErrorInvalidJSON))"
| "decodeObject 0 depth value s = Inl (kind_error ErrorInvalidJSON)"
| "decodeObject (Suc n) depth value s =
    (if decoder_More (ds_decoder s) then
       (case next_key (ds_decoder s) of
          None \<Rightarrow> Inl (kind_error ErrorInvalidJSON)
        | Some (key, d1) \<Rightarrow>
            if has_key value key then Inl (kind_error ErrorDuplicateKey)
            else (case next_token d1 of
                None \<Rightarrow> Inl (kind_error ErrorInvalidJSON)
              | Some (itemToken, d2) \<Rightarrow>
                  (case decodeToken n itemToken depth (s\<lparr>ds_decoder := d2\<rparr>) of
                     Inl e \<Rightarrow> Inl e
                   | Inr (item, s1) \<Rightarrow> decodeObject n depth (value @ [(key, item)]) s1)))
     else closing (CHR ''}'') (AMap value) s)"
| "decodeArray 0 depth value s = Inl (kind_error ErrorInvalidJSON)"
| "decodeArray (Suc n) depth value s =
    (if decoder_More (ds_decoder s) then
       (case next_token (ds_decoder s) of
          None \<Rightarrow> Inl (kind_error ErrorInvalidJSON)
        | Some (itemToken, d1) \<Rightarrow>
            (case decodeToken n itemToken depth (s\<lparr>ds_decoder := d1\<rparr>) of
               Inl e \<Rightarrow> Inl e
             | Inr (item, s1) \<Rightarrow> decodeArray n depth (value @ [item]) s1))
     else closing (CHR '']'') (ASlice value) s)"
  by pat_completeness auto
termination
  by (relation "measure (\<lambda>x. case x of Inl (n, _) \<Rightarrow> n | Inr (Inl (n, _)) \<Rightarrow> n | Inr (Inr (n, _)) \<Rightarrow> n)") auto

definition Decode :: "bytes \<Rightarrow> DecodeLimits \<Rightarrow> (json_error, goany) result" where
  "Decode raw limits =
    (if dl_MaxBytes limits \<le> 0 \<or> dl_MaxDepth limits \<le> 0 \<or> dl_MaxNodes limits \<le> 0
     then Inl (kind_error ErrorInvalidLimits)
     else if int (length raw) > dl_MaxBytes limits then Inl (kind_error ErrorTooLarge)
     else if \<not> valid_utf8 raw then Inl (kind_error ErrorInvalidUTF8)
     else case next_token \<lparr>jd_rest = raw, jd_state = tokenTopValue, jd_stack = []\<rparr> of
       None \<Rightarrow> Inl (kind_error ErrorInvalidJSON)
     | Some (token, d) \<Rightarrow>
         (case decodeToken (length raw + 2) token 0 \<lparr>ds_decoder = d, ds_limits = limits, ds_nodes = 0\<rparr> of
            Inl e \<Rightarrow> Inl e
          | Inr (value, s) \<Rightarrow>
              if read_token (ds_decoder s) \<noteq> TokenEOF then Inl (kind_error ErrorInvalidJSON) else Inr value))"

subsection \<open>One unit of fuel for each byte suffices\<close>

lemma unquote_shorter: "unquote s = Some (t, r) \<Longrightarrow> length r < length s"
proof (induction s arbitrary: t r rule: length_induct)
  case (1 s)
  then obtain c q where s: "s = c # q" by (cases s) auto
  have step: "length u < length s \<longrightarrow> length r < length u" if e: "emit p (unquote u) = Some (t, r)" for p u
  proof -
    obtain t' where "unquote u = Some (t', r)" using e by (auto simp: emit_Some)
    with 1(1) show ?thesis by blast
  qed
  have "length s = Suc (length q)" "unquote (c # q) = Some (t, r)" using s 1(2) by simp_all
  then show ?case
    unfolding unquote.simps(2)
    by (auto split: if_splits option.splits list.splits dest!: getu4_length surrogate_tail_length step)
qed

lemma skip_ws_le: "length (skip_ws s) \<le> length s"
  by (simp add: skip_ws_def length_dropWhile_le)

lemma scan_number_shorter: "scan_number s = Some (l, r) \<Longrightarrow> length r < length s"
proof -
  have frac: "scan_frac u = Some (f, v) \<Longrightarrow> length v \<le> length u" for u f v
    using length_dropWhile_le [of is_digit] by (auto simp: scan_frac_def le_SucI split: list.splits if_splits)
  have ex: "scan_exp u = Some (f, v) \<Longrightarrow> length v \<le> length u" for u f v
    using length_dropWhile_le [of is_digit]
    by (auto simp: scan_exp_def scan_exp_digits_def le_SucI split: list.splits if_splits)
  have int: "scan_int u = Some (f, v) \<Longrightarrow> length v < length u" for u f v
    using length_dropWhile_le [of is_digit] by (auto simp: scan_int_def le_imp_less_Suc split: list.splits if_splits)
  have uns: "scan_unsigned u = Some (f, v) \<Longrightarrow> length v < length u" for u f v
    by (auto simp: scan_unsigned_def split: option.splits dest!: frac ex int)
  assume "scan_number s = Some (l, r)"
  then show ?thesis by (auto simp: scan_number_def less_SucI split: list.splits if_splits dest!: uns)
qed

definition consumed :: "bytes \<Rightarrow> bytes \<Rightarrow> nat" where
  "consumed s r = length s - length r"

lemma consumed_ws: "skip_ws s = c # q \<Longrightarrow> length r \<le> length q \<Longrightarrow> consumed q r < consumed s r \<and> length r < length s"
  using skip_ws_shorter [of s c q] by (auto simp: consumed_def)

lemma enoughI:
  assumes "skip_ws s = c # q" "length r \<le> length q" "\<And>k. consumed q r \<le> k \<Longrightarrow> f (Suc k) = x"
  shows "length r < length s \<and> (\<forall>m \<ge> consumed s r. f m = x)"
proof -
  have "f m = x" if le: "consumed s r \<le> m" for m
  proof -
    obtain k where "m = Suc k" "consumed q r \<le> k" using le consumed_ws [OF assms(1,2)] by (cases m) auto
    then show ?thesis using assms(3) by simp
  qed
  then show ?thesis using consumed_ws [OF assms(1,2)] by blast
qed

lemma parse_enough:
  "parse_value n d s = Some (j, r) \<Longrightarrow> length r < length s \<and> (\<forall>m \<ge> consumed s r. parse_value m d s = Some (j, r))"
  "parse_elems n d s = Some (vs, r) \<Longrightarrow> length r < length s \<and> (\<forall>m \<ge> consumed s r. parse_elems m d s = Some (vs, r))"
  "parse_members n d s = Some (ms, r) \<Longrightarrow> length r < length s \<and> (\<forall>m \<ge> consumed s r. parse_members m d s = Some (ms, r))"
proof (induction n d s and n d s and n d s arbitrary: j r and vs r and ms r
    rule: parse_value_parse_elems_parse_members.induct)
  case (2 n d s)
  from "2.prems" obtain c q where c: "skip_ws s = c # q" by (auto split: list.splits)
  consider (obj) "c = CHR ''{''" | (arr) "c = CHR ''[''" | (scalar) "c \<noteq> CHR ''{''" "c \<noteq> CHR ''[''" by blast
  then show ?case
  proof cases
    case obj
    have d: "\<not> max_nesting \<le> d" and ne: "skip_ws q \<noteq> []"
      using "2.prems" c obj by (auto split: if_splits list.splits)
    then obtain e q' where e: "skip_ws q = e # q'" by (auto simp: neq_Nil_conv)
    show ?thesis
    proof (cases "e = CHR ''}''")
      case True
      then have r: "j = JObj []" "r = q'" using "2.prems" c obj d e by simp_all
      then have len: "length r < length q" using skip_ws_shorter [OF e] by simp
      show ?thesis by (rule enoughI [OF c, where f = "\<lambda>m. parse_value m d s"]) (use len c obj d e True r in simp_all)
    next
      case False
      then obtain ms where ms: "parse_members n (Suc d) q = Some (ms, r)" "j = JObj ms"
        using "2.prems" c obj d e by auto
      note IH = "2.IH"(1) [OF c obj d e False ms(1)]
      show ?thesis
        by (rule enoughI [OF c, where f = "\<lambda>m. parse_value m d s"]) (use IH c obj d e False ms(2) in simp_all)
    qed
  next
    case arr
    then have nobj: "c \<noteq> CHR ''{''" by simp
    have d: "\<not> max_nesting \<le> d" and ne: "skip_ws q \<noteq> []"
      using "2.prems" c arr by (auto split: if_splits list.splits)
    then obtain e q' where e: "skip_ws q = e # q'" by (auto simp: neq_Nil_conv)
    show ?thesis
    proof (cases "e = CHR '']''")
      case True
      then have r: "j = JArr []" "r = q'" using "2.prems" c arr d e by simp_all
      then have len: "length r < length q" using skip_ws_shorter [OF e] by simp
      show ?thesis by (rule enoughI [OF c, where f = "\<lambda>m. parse_value m d s"]) (use len c arr d e True r in simp_all)
    next
      case False
      then obtain vs where vs: "parse_elems n (Suc d) q = Some (vs, r)" "j = JArr vs"
        using "2.prems" c arr d e by auto
      note IH = "2.IH"(2) [OF c nobj arr d e False vs(1)]
      show ?thesis
        by (rule enoughI [OF c, where f = "\<lambda>m. parse_value m d s"]) (use IH c arr d e False vs(2) in simp_all)
    qed
  next
    case scalar
    have same: "parse_value (Suc m) d s = parse_value (Suc n) d s" for m using scalar c by simp
    have "length r \<le> length q"
      using "2.prems" scalar c
      by (auto split: if_splits dest!: unquote_shorter scan_number_shorter simp del: unquote.simps)
    then show ?thesis
      by (rule enoughI [OF c, where f = "\<lambda>m. parse_value m d s"]) (use same "2.prems" in metis)
  qed
next
  case (4 n d s)
  from "4.prems" obtain v q where v: "parse_value n d s = Some (v, q)" by (auto split: option.splits)
  with "4.prems" obtain c q' where c: "skip_ws q = c # q'" by (auto split: list.splits)
  note IHv = "4.IH"(1) [OF v]
  show ?case
  proof (cases "c = CHR '',''")
    case True
    with "4.prems" v c obtain ws where ws: "parse_elems n d q' = Some (ws, r)" "vs = v # ws" by auto
    note IHe = "4.IH"(2) [OF v refl c True ws(1)]
    have le: "length r < length q'" "length q' < length q" "length q < length s" using IHe IHv skip_ws_shorter [OF c] by auto
    have "parse_elems m d s = Some (vs, r)" if fuel: "consumed s r \<le> m" for m
    proof -
      obtain k where k: "m = Suc k" "consumed s q \<le> k" "consumed q' r \<le> k"
        using fuel le by (cases m) (auto simp: consumed_def)
      then show ?thesis using IHv IHe c True ws(2) by simp
    qed
    with le show ?thesis by simp
  next
    case False
    with "4.prems" v c have r: "c = CHR '']''" "r = q'" "vs = [v]" by (auto split: if_splits)
    have le: "length q' < length q" "length q < length s" using IHv skip_ws_shorter [OF c] by auto
    have "parse_elems m d s = Some (vs, r)" if fuel: "consumed s r \<le> m" for m
    proof -
      obtain k where k: "m = Suc k" "consumed s q \<le> k"
        using fuel le r(2) by (cases m) (auto simp: consumed_def)
      then show ?thesis using IHv c False r by simp
    qed
    with le r(2) show ?thesis by simp
  qed
next
  case (6 n d s)
  from "6.prems" obtain q where q: "skip_ws s = CHR 0x22 # q" by (auto split: list.splits if_splits)
  with "6.prems" obtain k r1 where k: "unquote q = Some (k, r1)" by (auto split: option.splits)
  with "6.prems" q obtain r2 where r2: "skip_ws r1 = CHR '':'' # r2" by (auto split: list.splits if_splits)
  with "6.prems" q k obtain v r3 where v: "parse_value n d r2 = Some (v, r3)" by (auto split: option.splits)
  with "6.prems" q k r2 obtain c q' where c: "skip_ws r3 = c # q'" by (auto split: list.splits)
  have nq: "\<not> CHR 0x22 \<noteq> CHR 0x22" and nc: "\<not> CHR '':'' \<noteq> CHR '':''" by simp_all
  note IHv = "6.IH"(1) [OF q nq k refl r2 nc v]
  have le: "length q' < length r3" "length r3 < length r2" "length r2 < length r1" "length r1 < length q" "length q < length s"
    using IHv skip_ws_shorter [OF c] skip_ws_shorter [OF r2] skip_ws_shorter [OF q] unquote_shorter [OF k] by auto
  show ?case
  proof (cases "c = CHR '',''")
    case True
    with "6.prems" q k r2 v c obtain ws where ws: "parse_members n d q' = Some (ws, r)" "ms = (k, v) # ws" by auto
    note IHe = "6.IH"(2) [OF q nq k refl r2 nc v refl c True ws(1)]
    have "parse_members m d s = Some (ms, r)" if fuel: "consumed s r \<le> m" for m
    proof -
      obtain i where i: "m = Suc i" "consumed r2 r3 \<le> i" "consumed q' r \<le> i"
        using fuel le IHe by (cases m) (auto simp: consumed_def)
      then show ?thesis using IHv IHe q k r2 c True ws(2) by simp
    qed
    with le IHe show ?thesis by simp
  next
    case False
    with "6.prems" q k r2 v c have r: "c = CHR ''}''" "r = q'" "ms = [(k, v)]" by (auto split: if_splits)
    have "parse_members m d s = Some (ms, r)" if fuel: "consumed s r \<le> m" for m
    proof -
      obtain i where i: "m = Suc i" "consumed r2 r3 \<le> i"
        using fuel le r(2) by (cases m) (auto simp: consumed_def)
      then show ?thesis using IHv q k r2 c False r by simp
    qed
    with le r(2) show ?thesis by simp
  qed
qed simp_all

subsection \<open>Reading tokens\<close>

abbreviation reader :: "bytes \<Rightarrow> token_state \<Rightarrow> token_state list \<Rightarrow> json_decoder" where
  "reader s st stk \<equiv> \<lparr>jd_rest = s, jd_state = st, jd_stack = stk\<rparr>"

lemma next_open:
  assumes "skip_ws s = c # r" "tokenValueAllowed st"
  shows "c = CHR ''['' \<Longrightarrow> next_token (reader s st stk) = Some (TDelim c, reader r tokenArrayStart (st # stk))"
    and "c = CHR ''{'' \<Longrightarrow> next_token (reader s st stk) = Some (TDelim c, reader r tokenObjectStart (st # stk))"
  using assms by (simp_all add: next_token_def read_token.simps open_token_def)

lemma next_close:
  "skip_ws s = CHR '']'' # r \<Longrightarrow> st \<in> {tokenArrayStart, tokenArrayComma} \<Longrightarrow>
    next_token (reader s st (pst # stk)) = Some (TDelim (CHR '']''), reader r (tokenValueEnd pst) stk)"
  "skip_ws s = CHR ''}'' # r \<Longrightarrow> st \<in> {tokenObjectStart, tokenObjectComma} \<Longrightarrow>
    next_token (reader s st (pst # stk)) = Some (TDelim (CHR ''}''), reader r (tokenValueEnd pst) stk)"
  by (auto simp: next_token_def read_token.simps close_token_def)

lemma next_separator:
  "skip_ws s = CHR '','' # r \<Longrightarrow> next_token (reader s tokenArrayComma stk) = next_token (reader r tokenArrayValue stk)"
  "skip_ws s = CHR '','' # r \<Longrightarrow> next_token (reader s tokenObjectComma stk) = next_token (reader r tokenObjectKey stk)"
  "skip_ws s = CHR '':'' # r \<Longrightarrow> next_token (reader s tokenObjectColon stk) = next_token (reader r tokenObjectValue stk)"
  by (simp_all add: next_token_def read_token.simps [of "reader s _ stk"])

lemma next_key_string:
  "skip_ws s = CHR 0x22 # r \<Longrightarrow> st \<in> {tokenObjectStart, tokenObjectKey} \<Longrightarrow>
    next_token (reader s st stk) = map_option (\<lambda>(k, q). (TValue (AString k), reader q tokenObjectColon stk)) (unquote r)"
  by (cases "unquote r") (auto simp: next_token_def read_token.simps simp del: unquote.simps)

lemma punct_no_scalar:
  "c \<in> {CHR '']'', CHR ''}'', CHR '':'', CHR '',''} \<Longrightarrow> read_scalar (c # r) = None"
proof -
  assume c: "c \<in> {CHR '']'', CHR ''}'', CHR '':'', CHR '',''}"
  then have "\<not> is_digit c" "c \<noteq> CHR 0x22" "c \<noteq> CHR ''-''" "c \<noteq> CHR ''0''" by (auto simp: is_digit_def)
  then have "scan_number (c # r) = None" by (simp add: scan_number_def scan_unsigned_def scan_int_def)
  moreover have "\<not> has_prefix (c # r) ''true''" "\<not> has_prefix (c # r) ''false''" "\<not> has_prefix (c # r) ''null''"
    using c by (auto simp: has_prefix_def)
  ultimately show ?thesis using \<open>c \<noteq> CHR 0x22\<close> by (simp add: read_scalar_def)
qed

lemma next_scalar:
  assumes "skip_ws s = c # r" "tokenValueAllowed st" "c \<noteq> CHR ''[''" "c \<noteq> CHR ''{''" "c = CHR '']'' \<longrightarrow> st \<noteq> tokenArrayStart"
  shows "next_token (reader s st stk) = map_option (\<lambda>(v, q). (TValue v, reader q (tokenValueEnd st) stk)) (read_scalar (c # r))"
proof -
  have st: "st \<notin> {tokenArrayComma, tokenObjectStart, tokenObjectComma, tokenObjectColon, tokenObjectKey}"
    using assms(2) by (auto simp: tokenValueAllowed_def)
  show ?thesis
  proof (cases "c \<in> {CHR '']'', CHR ''}'', CHR '':'', CHR '',''}")
    case True
    then show ?thesis using punct_no_scalar [OF True, of r] st assms
      by (auto simp: next_token_def read_token.simps close_token_def)
  next
    case False
    then show ?thesis using st assms
      by (cases "read_scalar (c # r)") (auto simp: next_token_def read_token.simps)
  qed
qed

subsection \<open>Documents the decoder accepts\<close>

fun any_of :: "json \<Rightarrow> goany" where
  "any_of JNull = ANil"
| "any_of (JBool b) = ABool b"
| "any_of (JNum s) = ANumber s"
| "any_of (JStr s) = AString s"
| "any_of (JArr vs) = ASlice (map any_of vs)"
| "any_of (JObj ms) = AMap (map (\<lambda>(k, v). (k, any_of v)) ms)"

fun json_nodes :: "json \<Rightarrow> nat" where
  "json_nodes (JArr vs) = Suc (sum_list (map json_nodes vs))"
| "json_nodes (JObj ms) = Suc (sum_list (map (\<lambda>(k, v). json_nodes v) ms))"
| "json_nodes _ = 1"

definition within_exponent :: "bytes \<Rightarrow> bool" where
  "within_exponent raw \<longleftrightarrow> valid_number raw \<and> \<bar>lexeme_exponent raw\<bar> \<le> 1000 \<and>
    \<bar>lexeme_exponent raw - int (lexeme_fraction raw)\<bar> \<le> 1000"

fun strict_json :: "json \<Rightarrow> bool" where
  "strict_json (JNum raw) = within_exponent raw"
| "strict_json (JArr vs) = list_all strict_json vs"
| "strict_json (JObj ms) = (distinct (map fst ms) \<and> list_all (\<lambda>(k, v). strict_json v) ms)"
| "strict_json _ = True"

definition depth_fits :: "DecodeLimits \<Rightarrow> int \<Rightarrow> json \<Rightarrow> bool" where
  "depth_fits lims depth j \<longleftrightarrow> json_depth j = 0 \<or> depth + int (json_depth j) \<le> dl_MaxDepth lims"

lemma scalar_parse:
  assumes "skip_ws s = c # r" "c \<noteq> CHR ''{''" "c \<noteq> CHR ''[''"
  shows "read_scalar (c # r) = map_option (\<lambda>(j, q). (any_of j, q)) (parse_value (Suc n) d s)"
  using assms by (simp add: read_scalar_def option.map_comp comp_def case_prod_unfold del: unquote.simps)

lemma scalar_shape:
  assumes "parse_value (Suc n) d s = Some (j, q)" "skip_ws s = c # r" "c \<noteq> CHR ''{''" "c \<noteq> CHR ''[''"
  shows "json_depth j = 0 \<and> json_nodes j = 1 \<and> (\<forall>vs. j \<noteq> JArr vs) \<and> (\<forall>ms. j \<noteq> JObj ms)"
  using assms by (auto split: if_splits simp del: unquote.simps)

lemma scalar_token_any:
  assumes "\<forall>vs. j \<noteq> JArr vs" "\<forall>ms. j \<noteq> JObj ms"
  shows "(\<exists>e. scalar_token (any_of j) s = Inl e \<and> \<not> strict_json j) \<or> scalar_token (any_of j) s = Inr (any_of j, s) \<and> strict_json j"
  using assms exponent_limit_spec
  by (cases j) (auto simp: scalar_token_def within_exponent_def)

lemma foldr_max_iff: "foldr max xs 0 \<le> (m::nat) \<longleftrightarrow> (\<forall>x \<in> set xs. x \<le> m)"
  by (induction xs) auto

lemma depth_children:
  assumes "depth + 1 \<le> dl_MaxDepth lims"
  shows "depth + int (Suc (foldr max (map json_depth vs) 0)) \<le> dl_MaxDepth lims \<longleftrightarrow> (\<forall>v \<in> set vs. depth_fits lims (depth + 1) v)"
proof -
  have "depth + int (Suc k) \<le> dl_MaxDepth lims \<longleftrightarrow> k \<le> nat (dl_MaxDepth lims - depth - 1)" for k using assms by auto
  moreover have "depth_fits lims (depth + 1) v \<longleftrightarrow> json_depth v \<le> nat (dl_MaxDepth lims - depth - 1)" for v
    using assms by (auto simp: depth_fits_def)
  ultimately show ?thesis by (simp only: foldr_max_iff) simp
qed

lemma depth_fits_JArr:
  "depth_fits lims depth (JArr vs) \<longleftrightarrow> depth + 1 \<le> dl_MaxDepth lims \<and> (\<forall>v \<in> set vs. depth_fits lims (depth + 1) v)"
proof -
  have "depth_fits lims depth (JArr vs) \<longleftrightarrow> depth + int (Suc (foldr max (map json_depth vs) 0)) \<le> dl_MaxDepth lims"
    by (simp add: depth_fits_def)
  then show ?thesis
    using depth_children [of depth lims vs] by linarith
qed

lemma depth_fits_JObj:
  "depth_fits lims depth (JObj ms) \<longleftrightarrow> depth + 1 \<le> dl_MaxDepth lims \<and> (\<forall>(k, v) \<in> set ms. depth_fits lims (depth + 1) v)"
proof -
  have "depth_fits lims depth (JObj ms) \<longleftrightarrow> depth_fits lims depth (JArr (map snd ms))"
    by (simp add: depth_fits_def case_prod_unfold comp_def)
  then show ?thesis by (auto simp: depth_fits_JArr)
qed

subsection \<open>Documents within the limits are decoded\<close>

abbreviation dstate :: "json_decoder \<Rightarrow> DecodeLimits \<Rightarrow> int \<Rightarrow> decodeState" where
  "dstate d lims k \<equiv> \<lparr>ds_decoder = d, ds_limits = lims, ds_nodes = k\<rparr>"

text \<open>Where the next item of an array or the next member of an object begins.\<close>

definition item_pos :: "token_state \<Rightarrow> token_state \<Rightarrow> bytes \<Rightarrow> token_state \<Rightarrow> bytes \<Rightarrow> bool" where
  "item_pos start comma s' st s \<longleftrightarrow> st = start \<and> s' = s \<or> st = comma \<and> skip_ws s' = CHR '','' # s"

lemma parse_value_head: "parse_value n d s = Some (j, r) \<Longrightarrow> \<exists>c q. skip_ws s = c # q \<and> c \<noteq> CHR '']'' \<and> c \<noteq> CHR ''}''"
proof (cases n)
  case (Suc m)
  assume p: "parse_value n d s = Some (j, r)"
  then obtain c q where c: "skip_ws s = c # q" using Suc by (auto split: list.splits)
  show ?thesis
  proof (cases "c = CHR '']'' \<or> c = CHR ''}''")
    case True
    then have "c \<noteq> CHR ''{''" "c \<noteq> CHR ''[''" "c \<in> {CHR '']'', CHR ''}'', CHR '':'', CHR '',''}" by auto
    then show ?thesis using p Suc scalar_parse [OF c, of m d] punct_no_scalar [of c q] by auto
  qed (use c in blast)
qed simp

lemma item_token:
  assumes "item_pos tokenArrayStart tokenArrayComma s' st s"
  shows "\<exists>st1. tokenValueAllowed st1 \<and> tokenValueEnd st1 = tokenArrayComma \<and>
    next_token (reader s' st stk) = next_token (reader s st1 stk)"
  using assms unfolding item_pos_def
proof (elim disjE conjE)
  assume "st = tokenArrayStart" "s' = s"
  then show ?thesis by (intro exI [of _ tokenArrayStart]) (simp add: tokenValueAllowed_def tokenValueEnd_def)
next
  assume "st = tokenArrayComma" "skip_ws s' = CHR '','' # s"
  then show ?thesis
    by (intro exI [of _ tokenArrayValue]) (simp add: tokenValueAllowed_def tokenValueEnd_def next_separator(1))
qed

lemma item_More:
  "item_pos a b s' st s \<Longrightarrow> skip_ws s = c # q \<Longrightarrow> c \<noteq> CHR '']'' \<Longrightarrow> c \<noteq> CHR ''}'' \<Longrightarrow> decoder_More (reader s' st stk)"
  by (auto simp: item_pos_def decoder_More_def)

lemma member_key:
  assumes "item_pos tokenObjectStart tokenObjectComma s' st s" "skip_ws s = CHR 0x22 # q"
  shows "decoder_More (reader s' st stk)"
    "next_key (reader s' st stk) = map_option (\<lambda>(k, r). (k, reader r tokenObjectColon stk)) (unquote q)"
proof -
  obtain st1 where st1: "st1 \<in> {tokenObjectStart, tokenObjectKey}" "next_token (reader s' st stk) = next_token (reader s st1 stk)"
    using assms(1) next_separator(2) [of s' s stk] unfolding item_pos_def by blast
  show "next_key (reader s' st stk) = map_option (\<lambda>(k, r). (k, reader r tokenObjectColon stk)) (unquote q)"
    unfolding next_key_def st1(2) next_key_string [OF assms(2) st1(1)] by (cases "unquote q") (auto simp del: unquote.simps)
  show "decoder_More (reader s' st stk)" by (rule item_More [OF assms]) simp_all
qed

lemma closing_ok:
  "skip_ws s = CHR '']'' # r \<Longrightarrow> st \<in> {tokenArrayStart, tokenArrayComma} \<Longrightarrow>
    decodeArray (Suc n) depth acc (dstate (reader s st (pst # stk)) lims k)
      = Inr (ASlice acc, dstate (reader r (tokenValueEnd pst) stk) lims k)"
  "skip_ws s = CHR ''}'' # r \<Longrightarrow> st \<in> {tokenObjectStart, tokenObjectComma} \<Longrightarrow>
    decodeObject (Suc n) depth mem (dstate (reader s st (pst # stk)) lims k)
      = Inr (AMap mem, dstate (reader r (tokenValueEnd pst) stk) lims k)"
  using next_close [of s r st pst stk] by (simp_all add: decoder_More_def closing_def)

lemma has_key_iff: "has_key ms k \<longleftrightarrow> k \<in> fst ` set ms"
  by (simp add: has_key_def)

lemma parse_decode:
  "parse_value n d s = Some (j, r) \<Longrightarrow> tokenValueAllowed st \<Longrightarrow> strict_json j \<Longrightarrow> depth_fits lims depth j \<Longrightarrow>
    k + int (json_nodes j) \<le> dl_MaxNodes lims \<Longrightarrow>
    \<exists>t dd. next_token (reader s st stk) = Some (t, dd) \<and>
      decodeToken (Suc n) t depth (dstate dd lims k)
        = Inr (any_of j, dstate (reader r (tokenValueEnd st) stk) lims (k + int (json_nodes j)))"
  "parse_elems n d s = Some (vs, r) \<Longrightarrow> item_pos tokenArrayStart tokenArrayComma s' st s \<Longrightarrow> list_all strict_json vs \<Longrightarrow>
    \<forall>v \<in> set vs. depth_fits lims depth v \<Longrightarrow> k + int (sum_list (map json_nodes vs)) \<le> dl_MaxNodes lims \<Longrightarrow>
    decodeArray (Suc n) depth acc (dstate (reader s' st (pst # stk)) lims k)
      = Inr (ASlice (acc @ map any_of vs), dstate (reader r (tokenValueEnd pst) stk) lims (k + int (sum_list (map json_nodes vs))))"
  "parse_members n d s = Some (ms, r) \<Longrightarrow> item_pos tokenObjectStart tokenObjectComma s' st s \<Longrightarrow>
    list_all (\<lambda>(k, v). strict_json v) ms \<Longrightarrow> distinct (map fst mem @ map fst ms) \<Longrightarrow>
    \<forall>(k, v) \<in> set ms. depth_fits lims depth v \<Longrightarrow> k + int (sum_list (map (\<lambda>(k, v). json_nodes v) ms)) \<le> dl_MaxNodes lims \<Longrightarrow>
    decodeObject (Suc n) depth mem (dstate (reader s' st (pst # stk)) lims k)
      = Inr (AMap (mem @ map (\<lambda>(k, v). (k, any_of v)) ms),
          dstate (reader r (tokenValueEnd pst) stk) lims (k + int (sum_list (map (\<lambda>(k, v). json_nodes v) ms))))"
proof (induction n d s and n d s and n d s arbitrary: j r st stk depth k and vs r s' st acc pst stk depth k
    and ms r s' st mem pst stk depth k rule: parse_value_parse_elems_parse_members.induct)
  case (2 n d s)
  from "2.prems"(1) obtain c q where c: "skip_ws s = c # q" by (auto split: list.splits)
  have nodes: "\<not> k + 1 > dl_MaxNodes lims" using "2.prems"(5) by (cases j) auto
  consider (obj) "c = CHR ''{''" | (arr) "c = CHR ''[''" | (scalar) "c \<noteq> CHR ''{''" "c \<noteq> CHR ''[''" by blast
  then show ?case
  proof cases
    case obj
    have d: "\<not> max_nesting \<le> d" and ne: "skip_ws q \<noteq> []"
      using "2.prems"(1) c obj by (auto split: if_splits list.splits)
    then obtain e q' where e: "skip_ws q = e # q'" by (auto simp: neq_Nil_conv)
    note tok = next_open(2) [OF c "2.prems"(2) obj, of stk]
    show ?thesis
    proof (cases "e = CHR ''}''")
      case True
      then have j: "j = JObj []" "r = q'" using "2.prems"(1) c obj d e by simp_all
      have "\<not> depth + 1 > dl_MaxDepth lims" using "2.prems"(4) by (simp add: j depth_fits_JObj)
      then show ?thesis
        using tok obj nodes j closing_ok(2) [of q q' tokenObjectStart n "depth + 1" "[]" st stk lims "k + 1"] e True by simp
    next
      case False
      then obtain ms where ms: "parse_members n (Suc d) q = Some (ms, r)" "j = JObj ms"
        using "2.prems"(1) c obj d e by auto
      have "\<not> depth + 1 > dl_MaxDepth lims" and df: "\<forall>(k, v) \<in> set ms. depth_fits lims (depth + 1) v"
        using "2.prems"(4) by (simp_all add: ms(2) depth_fits_JObj)
      moreover have "decodeObject (Suc n) (depth + 1) [] (dstate (reader q tokenObjectStart (st # stk)) lims (k + 1))
          = Inr (AMap ([] @ map (\<lambda>(k, v). (k, any_of v)) ms),
              dstate (reader r (tokenValueEnd st) stk) lims (k + 1 + int (sum_list (map (\<lambda>(k, v). json_nodes v) ms))))"
        by (rule "2.IH"(1) [OF c obj d e False ms(1) _ _ _ df]) (use "2.prems"(3,5) ms(2) in \<open>auto simp: item_pos_def\<close>)
      ultimately show ?thesis using tok obj nodes ms(2) by (simp add: algebra_simps)
    qed
  next
    case arr
    then have nobj: "c \<noteq> CHR ''{''" by simp
    have d: "\<not> max_nesting \<le> d" and ne: "skip_ws q \<noteq> []"
      using "2.prems"(1) c arr by (auto split: if_splits list.splits)
    then obtain e q' where e: "skip_ws q = e # q'" by (auto simp: neq_Nil_conv)
    note tok = next_open(1) [OF c "2.prems"(2) arr, of stk]
    show ?thesis
    proof (cases "e = CHR '']''")
      case True
      then have j: "j = JArr []" "r = q'" using "2.prems"(1) c arr d e by simp_all
      have "\<not> depth + 1 > dl_MaxDepth lims" using "2.prems"(4) by (simp add: j depth_fits_JArr)
      then show ?thesis
        using tok arr nodes j closing_ok(1) [of q q' tokenArrayStart n "depth + 1" "[]" st stk lims "k + 1"] e True by simp
    next
      case False
      then obtain vs where vs: "parse_elems n (Suc d) q = Some (vs, r)" "j = JArr vs"
        using "2.prems"(1) c arr d e by auto
      have "\<not> depth + 1 > dl_MaxDepth lims" and df: "\<forall>v \<in> set vs. depth_fits lims (depth + 1) v"
        using "2.prems"(4) by (simp_all add: vs(2) depth_fits_JArr)
      moreover have "decodeArray (Suc n) (depth + 1) [] (dstate (reader q tokenArrayStart (st # stk)) lims (k + 1))
          = Inr (ASlice ([] @ map any_of vs),
              dstate (reader r (tokenValueEnd st) stk) lims (k + 1 + int (sum_list (map json_nodes vs))))"
        by (rule "2.IH"(2) [OF c nobj arr d e False vs(1) _ _ df]) (use "2.prems"(3,5) vs(2) in \<open>auto simp: item_pos_def\<close>)
      ultimately show ?thesis using tok arr nodes vs(2) by (simp add: algebra_simps)
    qed
  next
    case scalar
    note sh = scalar_shape [OF "2.prems"(1) c scalar]
    have "c \<noteq> CHR '']''" using parse_value_head [OF "2.prems"(1)] c by auto
    then have tok: "next_token (reader s st stk) = Some (TValue (any_of j), reader r (tokenValueEnd st) stk)"
      using next_scalar [OF c "2.prems"(2) scalar(2,1), of stk] scalar_parse [OF c scalar, of n d] "2.prems"(1) by simp
    have "scalar_token (any_of j) x = Inr (any_of j, x)" for x
      using scalar_token_any [of j x] sh "2.prems"(3) by blast
    with tok nodes sh show ?thesis by simp
  qed
next
  case (4 n d s)
  from "4.prems"(1) obtain v q where v: "parse_value n d s = Some (v, q)" by (auto split: option.splits)
  with "4.prems"(1) obtain c q' where c: "skip_ws q = c # q'" by (auto split: list.splits)
  obtain m where n: "n = Suc m" using v by (cases n) simp_all
  obtain x xs where x: "skip_ws s = x # xs" "x \<noteq> CHR '']''" "x \<noteq> CHR ''}''" using parse_value_head [OF v] by blast
  obtain ws where ws: "vs = v # ws" using "4.prems"(1) v c by (auto split: if_splits)
  obtain st1 where st1: "tokenValueAllowed st1" "tokenValueEnd st1 = tokenArrayComma"
    "next_token (reader s' st (pst # stk)) = next_token (reader s st1 (pst # stk))"
    using item_token [OF "4.prems"(2), of "pst # stk"] by blast
  note more = item_More [OF "4.prems"(2) x, of "pst # stk"]
  let ?k = "k + int (json_nodes v)"
  obtain t dd where t: "next_token (reader s st1 (pst # stk)) = Some (t, dd)"
    "decodeToken (Suc n) t depth (dstate dd lims k) = Inr (any_of v, dstate (reader q tokenArrayComma (pst # stk)) lims ?k)"
    using "4.IH"(1) [OF v st1(1), of depth k "pst # stk"] "4.prems"(3-5) ws st1(2) by auto
  have step: "decodeArray (Suc (Suc n)) depth acc (dstate (reader s' st (pst # stk)) lims k)
      = decodeArray (Suc n) depth (acc @ [any_of v]) (dstate (reader q tokenArrayComma (pst # stk)) lims ?k)"
    using st1(3) more t by simp
  show ?case
  proof (cases "c = CHR '',''")
    case True
    then have e: "parse_elems n d q' = Some (ws, r)" using "4.prems"(1) v c ws by auto
    have "decodeArray (Suc n) depth (acc @ [any_of v]) (dstate (reader q tokenArrayComma (pst # stk)) lims ?k)
        = Inr (ASlice ((acc @ [any_of v]) @ map any_of ws),
            dstate (reader r (tokenValueEnd pst) stk) lims (?k + int (sum_list (map json_nodes ws))))"
      by (rule "4.IH"(2) [OF v refl c True e]) (use "4.prems"(3-5) ws c True in \<open>auto simp: item_pos_def\<close>)
    then show ?thesis unfolding step using ws by (simp add: algebra_simps)
  next
    case False
    then have r: "c = CHR '']''" "r = q'" "ws = []" using "4.prems"(1) v c ws by (auto split: if_splits)
    then show ?thesis unfolding step using c ws closing_ok(1) [of q q' tokenArrayComma n] by simp
  qed
next
  case (6 n d s)
  from "6.prems"(1) obtain q where q: "skip_ws s = CHR 0x22 # q" by (auto split: list.splits if_splits)
  with "6.prems"(1) obtain key r1 where key: "unquote q = Some (key, r1)" by (auto split: option.splits)
  with "6.prems"(1) q obtain r2 where r2: "skip_ws r1 = CHR '':'' # r2" by (auto split: list.splits if_splits)
  with "6.prems"(1) q key obtain v r3 where v: "parse_value n d r2 = Some (v, r3)" by (auto split: option.splits)
  with "6.prems"(1) q key r2 obtain c q' where c: "skip_ws r3 = c # q'" by (auto split: list.splits)
  have nq: "\<not> CHR 0x22 \<noteq> CHR 0x22" and nc: "\<not> CHR '':'' \<noteq> CHR '':''" by simp_all
  obtain ws where ws: "ms = (key, v) # ws" using "6.prems"(1) q key r2 v c by (auto split: if_splits)
  let ?k = "k + int (json_nodes v)"
  have fresh: "\<not> has_key mem key" using "6.prems"(4) ws by (simp add: has_key_iff)
  have ov: "tokenValueAllowed tokenObjectValue" "tokenValueEnd tokenObjectValue = tokenObjectComma"
    by (simp_all add: tokenValueAllowed_def tokenValueEnd_def)
  obtain t dd where t: "next_token (reader r2 tokenObjectValue (pst # stk)) = Some (t, dd)"
    "decodeToken (Suc n) t depth (dstate dd lims k) = Inr (any_of v, dstate (reader r3 tokenObjectComma (pst # stk)) lims ?k)"
    using "6.IH"(1) [OF q nq key refl r2 nc v ov(1), of depth k "pst # stk"] "6.prems"(3,5,6) ws ov(2) by auto
  have step: "decodeObject (Suc (Suc n)) depth mem (dstate (reader s' st (pst # stk)) lims k)
      = decodeObject (Suc n) depth (mem @ [(key, any_of v)]) (dstate (reader r3 tokenObjectComma (pst # stk)) lims ?k)"
    using member_key [OF "6.prems"(2) q, of "pst # stk"] key fresh t next_separator(3) [OF r2, of "pst # stk"] by simp
  show ?case
  proof (cases "c = CHR '',''")
    case True
    then have e: "parse_members n d q' = Some (ws, r)" using "6.prems"(1) q key r2 v c ws by auto
    have "decodeObject (Suc n) depth (mem @ [(key, any_of v)]) (dstate (reader r3 tokenObjectComma (pst # stk)) lims ?k)
        = Inr (AMap ((mem @ [(key, any_of v)]) @ map (\<lambda>(k, v). (k, any_of v)) ws),
            dstate (reader r (tokenValueEnd pst) stk) lims (?k + int (sum_list (map (\<lambda>(k, v). json_nodes v) ws))))"
      by (rule "6.IH"(2) [OF q nq key refl r2 nc v refl c True e]) (use "6.prems"(3-6) ws c True in \<open>auto simp: item_pos_def\<close>)
    then show ?thesis unfolding step using ws by (simp add: algebra_simps)
  next
    case False
    then have r: "c = CHR ''}''" "r = q'" "ws = []" using "6.prems"(1) q key r2 v c ws by (auto split: if_splits)
    then show ?thesis unfolding step using c ws closing_ok(2) [of r3 q' tokenObjectComma n] by simp
  qed
qed simp_all

subsection \<open>What is decoded is a document within the limits\<close>

lemma next_value_cases:
  assumes "next_token (reader s st stk) = Some (t, dd)" "tokenValueAllowed st"
  obtains (arr) r where "skip_ws s = CHR ''['' # r" "t = TDelim (CHR ''['')" "dd = reader r tokenArrayStart (st # stk)"
  | (obj) r where "skip_ws s = CHR ''{'' # r" "t = TDelim (CHR ''{'')" "dd = reader r tokenObjectStart (st # stk)"
  | (close) "t = TDelim (CHR '']'')"
  | (scalar) c r v q where "skip_ws s = c # r" "c \<noteq> CHR ''{''" "c \<noteq> CHR ''[''" "read_scalar (c # r) = Some (v, q)"
      "t = TValue v" "dd = reader q (tokenValueEnd st) stk"
proof (cases "skip_ws s")
  case Nil
  then show thesis using assms(1) by (simp add: next_token_def read_token.simps)
next
  case (Cons c r)
  consider "c = CHR ''[''" | "c = CHR ''{''" | "c = CHR '']''" "st = tokenArrayStart"
    | "c \<noteq> CHR ''{''" "c \<noteq> CHR ''[''" "c = CHR '']'' \<longrightarrow> st \<noteq> tokenArrayStart" by blast
  then show thesis
  proof cases
    case 1
    then show thesis using next_open(1) [OF Cons assms(2), of stk] assms(1) Cons arr by simp
  next
    case 2
    then show thesis using next_open(2) [OF Cons assms(2), of stk] assms(1) Cons obj by simp
  next
    case 3
    then show thesis using assms(1) Cons close
      by (simp add: next_token_def read_token.simps close_token_def split: if_splits)
  next
    case 4
    then have "next_token (reader s st stk) = map_option (\<lambda>(v, q). (TValue v, reader q (tokenValueEnd st) stk)) (read_scalar (c # r))"
      by (intro next_scalar [OF Cons assms(2)])
    then show thesis using assms(1) scalar [OF Cons 4(1,2)] by (cases "read_scalar (c # r)") auto
  qed
qed

lemma comma_needed:
  assumes "next_token (reader s st stk) = Some x" "decoder_More (reader s st stk)" "st \<in> {tokenArrayComma, tokenObjectComma}"
  shows "\<exists>r. skip_ws s = CHR '','' # r"
  using assms
  by (auto simp: next_token_def read_token.simps [of "reader s st stk"] decoder_More_def open_token_def tokenValueAllowed_def
      split: list.splits if_splits)

lemma colon_needed:
  assumes "next_token (reader s tokenObjectColon stk) = Some x"
  shows "\<exists>r. skip_ws s = CHR '':'' # r"
  using assms
  by (auto simp: next_token_def read_token.simps [of "reader s tokenObjectColon stk"] open_token_def close_token_def
      tokenValueAllowed_def split: list.splits if_splits)

lemma key_needed:
  assumes "next_key (reader s st stk) = Some (k, d1)" "st \<in> {tokenObjectStart, tokenObjectKey}"
  shows "\<exists>q r1. skip_ws s = CHR 0x22 # q \<and> unquote q = Some (k, r1) \<and> d1 = reader r1 tokenObjectColon stk"
proof (cases "\<exists>q. skip_ws s = CHR 0x22 # q")
  case True
  then obtain q where q: "skip_ws s = CHR 0x22 # q" by blast
  then show ?thesis
    using assms(1) next_key_string [OF q assms(2), of stk] by (cases "unquote q") (auto simp: next_key_def simp del: unquote.simps)
next
  case False
  then show ?thesis
    using assms by (auto simp: next_key_def next_token_def read_token.simps [of "reader s st stk"] open_token_def close_token_def
        tokenValueAllowed_def split: list.splits if_splits)
qed

lemma closing_needed:
  "closing (CHR '']'') v (dstate (reader s st (pst # stk)) lims k) = Inr (w, s1) \<Longrightarrow> \<not> decoder_More (reader s st (pst # stk)) \<Longrightarrow>
    st \<in> {tokenArrayStart, tokenArrayComma} \<Longrightarrow>
    \<exists>r. skip_ws s = CHR '']'' # r \<and> w = v \<and> s1 = dstate (reader r (tokenValueEnd pst) stk) lims k"
  "closing (CHR ''}'') v (dstate (reader s st (pst # stk)) lims k) = Inr (w, s1) \<Longrightarrow> \<not> decoder_More (reader s st (pst # stk)) \<Longrightarrow>
    st \<in> {tokenObjectStart, tokenObjectComma} \<Longrightarrow>
    \<exists>r. skip_ws s = CHR ''}'' # r \<and> w = v \<and> s1 = dstate (reader r (tokenValueEnd pst) stk) lims k"
  by (auto simp: closing_def decoder_More_def next_token_def read_token.simps close_token_def
      split: option.splits list.splits if_splits prod.splits)

text \<open>What a successful call of each of the three functions says about the input.\<close>

definition value_sound :: "DecodeLimits \<Rightarrow> nat \<Rightarrow> bool" where
  "value_sound lims n \<longleftrightarrow> (\<forall>t depth dd k v s1 s st stk.
    decodeToken n t depth (dstate dd lims k) = Inr (v, s1) \<longrightarrow> next_token (reader s st stk) = Some (t, dd) \<longrightarrow>
    tokenValueAllowed st \<longrightarrow> 0 \<le> depth \<longrightarrow>
    (\<exists>j r. parse_value n (nat depth) s = Some (j, r) \<and> v = any_of j \<and>
      s1 = dstate (reader r (tokenValueEnd st) stk) lims (k + int (json_nodes j)) \<and>
      strict_json j \<and> depth_fits lims depth j \<and> k + int (json_nodes j) \<le> dl_MaxNodes lims))"

definition array_sound :: "DecodeLimits \<Rightarrow> nat \<Rightarrow> bool" where
  "array_sound lims n \<longleftrightarrow> (\<forall>depth acc s' st pst stk k v s1.
    decodeArray n depth acc (dstate (reader s' st (pst # stk)) lims k) = Inr (v, s1) \<longrightarrow>
    st \<in> {tokenArrayStart, tokenArrayComma} \<longrightarrow> 0 \<le> depth \<longrightarrow> k \<le> dl_MaxNodes lims \<longrightarrow>
    (\<exists>r. skip_ws s' = CHR '']'' # r \<and> v = ASlice acc \<and> s1 = dstate (reader r (tokenValueEnd pst) stk) lims k) \<or>
    (\<exists>s vs r. item_pos tokenArrayStart tokenArrayComma s' st s \<and> decoder_More (reader s' st (pst # stk)) \<and>
      parse_elems n (nat depth) s = Some (vs, r) \<and> v = ASlice (acc @ map any_of vs) \<and>
      s1 = dstate (reader r (tokenValueEnd pst) stk) lims (k + int (sum_list (map json_nodes vs))) \<and>
      list_all strict_json vs \<and> (\<forall>v \<in> set vs. depth_fits lims depth v) \<and>
      k + int (sum_list (map json_nodes vs)) \<le> dl_MaxNodes lims))"

definition object_sound :: "DecodeLimits \<Rightarrow> nat \<Rightarrow> bool" where
  "object_sound lims n \<longleftrightarrow> (\<forall>depth mem s' st pst stk k v s1.
    decodeObject n depth mem (dstate (reader s' st (pst # stk)) lims k) = Inr (v, s1) \<longrightarrow>
    st \<in> {tokenObjectStart, tokenObjectComma} \<longrightarrow> 0 \<le> depth \<longrightarrow> k \<le> dl_MaxNodes lims \<longrightarrow> distinct (map fst mem) \<longrightarrow>
    (\<exists>r. skip_ws s' = CHR ''}'' # r \<and> v = AMap mem \<and> s1 = dstate (reader r (tokenValueEnd pst) stk) lims k) \<or>
    (\<exists>s ms r. item_pos tokenObjectStart tokenObjectComma s' st s \<and> decoder_More (reader s' st (pst # stk)) \<and>
      parse_members n (nat depth) s = Some (ms, r) \<and> v = AMap (mem @ map (\<lambda>(k, v). (k, any_of v)) ms) \<and>
      s1 = dstate (reader r (tokenValueEnd pst) stk) lims (k + int (sum_list (map (\<lambda>(k, v). json_nodes v) ms))) \<and>
      list_all (\<lambda>(k, v). strict_json v) ms \<and> distinct (map fst mem @ map fst ms) \<and>
      (\<forall>(k, v) \<in> set ms. depth_fits lims depth v) \<and>
      k + int (sum_list (map (\<lambda>(k, v). json_nodes v) ms)) \<le> dl_MaxNodes lims))"

lemma array_sound_step:
  assumes "value_sound lims n" "array_sound lims n"
  shows "array_sound lims (Suc n)"
  unfolding array_sound_def
proof (intro allI impI)
  fix depth acc s' st pst stk k v s1
  let ?d = "reader s' st (pst # stk)"
  assume run: "decodeArray (Suc n) depth acc (dstate ?d lims k) = Inr (v, s1)"
    and st: "st \<in> {tokenArrayStart, tokenArrayComma}" and depth: "0 \<le> depth" and k: "k \<le> dl_MaxNodes lims"
  show "(\<exists>r. skip_ws s' = CHR '']'' # r \<and> v = ASlice acc \<and> s1 = dstate (reader r (tokenValueEnd pst) stk) lims k) \<or>
    (\<exists>s vs r. item_pos tokenArrayStart tokenArrayComma s' st s \<and> decoder_More ?d \<and>
      parse_elems (Suc n) (nat depth) s = Some (vs, r) \<and> v = ASlice (acc @ map any_of vs) \<and>
      s1 = dstate (reader r (tokenValueEnd pst) stk) lims (k + int (sum_list (map json_nodes vs))) \<and>
      list_all strict_json vs \<and> (\<forall>v \<in> set vs. depth_fits lims depth v) \<and>
      k + int (sum_list (map json_nodes vs)) \<le> dl_MaxNodes lims)"
  proof (cases "decoder_More ?d")
    case False
    then show ?thesis using run closing_needed(1) [OF _ False st] by auto
  next
    case True
    then obtain t dd item s2 where t: "next_token ?d = Some (t, dd)"
      and item: "decodeToken n t depth (dstate dd lims k) = Inr (item, s2)"
      and rest: "decodeArray n depth (acc @ [item]) s2 = Inr (v, s1)"
      using run by (auto split: option.splits sum.splits)
    obtain s where pos: "item_pos tokenArrayStart tokenArrayComma s' st s"
      using st comma_needed [OF t True] by (auto simp: item_pos_def)
    obtain st1 where st1: "tokenValueAllowed st1" "tokenValueEnd st1 = tokenArrayComma" "next_token ?d = next_token (reader s st1 (pst # stk))"
      using item_token [OF pos, of "pst # stk"] by blast
    obtain j r1 where j: "parse_value n (nat depth) s = Some (j, r1)" "item = any_of j"
      "s2 = dstate (reader r1 tokenArrayComma (pst # stk)) lims (k + int (json_nodes j))"
      "strict_json j" "depth_fits lims depth j" "k + int (json_nodes j) \<le> dl_MaxNodes lims"
      using assms(1) [unfolded value_sound_def, rule_format, OF item, of s st1 "pst # stk"] t st1 depth by auto
    have or: "(\<exists>r. skip_ws r1 = CHR '']'' # r \<and> v = ASlice (acc @ [item]) \<and>
          s1 = dstate (reader r (tokenValueEnd pst) stk) lims (k + int (json_nodes j))) \<or>
        (\<exists>s vs r. item_pos tokenArrayStart tokenArrayComma r1 tokenArrayComma s \<and> decoder_More (reader r1 tokenArrayComma (pst # stk)) \<and>
          parse_elems n (nat depth) s = Some (vs, r) \<and> v = ASlice ((acc @ [item]) @ map any_of vs) \<and>
          s1 = dstate (reader r (tokenValueEnd pst) stk) lims (k + int (json_nodes j) + int (sum_list (map json_nodes vs))) \<and>
          list_all strict_json vs \<and> (\<forall>v \<in> set vs. depth_fits lims depth v) \<and>
          k + int (json_nodes j) + int (sum_list (map json_nodes vs)) \<le> dl_MaxNodes lims)"
      by (rule assms(2) [unfolded array_sound_def, rule_format, OF rest [unfolded j(3)]]) (use depth j(6) in simp_all)
    then show ?thesis
    proof (elim disjE exE conjE)
      fix r assume "skip_ws r1 = CHR '']'' # r" "v = ASlice (acc @ [item])"
        "s1 = dstate (reader r (tokenValueEnd pst) stk) lims (k + int (json_nodes j))"
      then show ?thesis using pos True j by (intro disjI2 exI [of _ s] exI [of _ "[j]"] exI [of _ r]) simp
    next
      fix s3 vs r assume e: "item_pos tokenArrayStart tokenArrayComma r1 tokenArrayComma s3"
        "parse_elems n (nat depth) s3 = Some (vs, r)" "v = ASlice ((acc @ [item]) @ map any_of vs)"
        "s1 = dstate (reader r (tokenValueEnd pst) stk) lims (k + int (json_nodes j) + int (sum_list (map json_nodes vs)))"
        "list_all strict_json vs" "\<forall>v \<in> set vs. depth_fits lims depth v"
        "k + int (json_nodes j) + int (sum_list (map json_nodes vs)) \<le> dl_MaxNodes lims"
      then have "skip_ws r1 = CHR '','' # s3" by (simp add: item_pos_def)
      with e pos True j show ?thesis
        by (intro disjI2 exI [of _ s] exI [of _ "j # vs"] exI [of _ r]) (simp add: algebra_simps)
    qed
  qed
qed

lemma object_sound_step:
  assumes "value_sound lims n" "object_sound lims n"
  shows "object_sound lims (Suc n)"
  unfolding object_sound_def
proof (intro allI impI)
  fix depth mem s' st pst stk k v s1
  let ?d = "reader s' st (pst # stk)"
  assume run: "decodeObject (Suc n) depth mem (dstate ?d lims k) = Inr (v, s1)"
    and st: "st \<in> {tokenObjectStart, tokenObjectComma}" and depth: "0 \<le> depth" and k: "k \<le> dl_MaxNodes lims"
    and dist: "distinct (map fst mem)"
  show "(\<exists>r. skip_ws s' = CHR ''}'' # r \<and> v = AMap mem \<and> s1 = dstate (reader r (tokenValueEnd pst) stk) lims k) \<or>
    (\<exists>s ms r. item_pos tokenObjectStart tokenObjectComma s' st s \<and> decoder_More ?d \<and>
      parse_members (Suc n) (nat depth) s = Some (ms, r) \<and> v = AMap (mem @ map (\<lambda>(k, v). (k, any_of v)) ms) \<and>
      s1 = dstate (reader r (tokenValueEnd pst) stk) lims (k + int (sum_list (map (\<lambda>(k, v). json_nodes v) ms))) \<and>
      list_all (\<lambda>(k, v). strict_json v) ms \<and> distinct (map fst mem @ map fst ms) \<and>
      (\<forall>(k, v) \<in> set ms. depth_fits lims depth v) \<and>
      k + int (sum_list (map (\<lambda>(k, v). json_nodes v) ms)) \<le> dl_MaxNodes lims)"
  proof (cases "decoder_More ?d")
    case False
    then show ?thesis using run closing_needed(2) [OF _ False st] by auto
  next
    case True
    then obtain key d1 t dd item s2 where key: "next_key ?d = Some (key, d1)" "\<not> has_key mem key" and t: "next_token d1 = Some (t, dd)"
      and item: "decodeToken n t depth (dstate dd lims k) = Inr (item, s2)"
      and rest: "decodeObject n depth (mem @ [(key, item)]) s2 = Inr (v, s1)"
      using run by (auto split: option.splits sum.splits if_splits)
    obtain x where x: "next_token ?d = Some x" using key(1) by (auto simp: next_key_def split: option.splits)
    obtain s where pos: "item_pos tokenObjectStart tokenObjectComma s' st s"
      using st comma_needed [OF x True] by (auto simp: item_pos_def)
    obtain st0 where st0: "st0 \<in> {tokenObjectStart, tokenObjectKey}" "next_token ?d = next_token (reader s st0 (pst # stk))"
      using pos next_separator(2) [of s' s "pst # stk"] unfolding item_pos_def by blast
    then have "next_key (reader s st0 (pst # stk)) = Some (key, d1)" using key(1) by (simp add: next_key_def)
    then obtain q r0 where q: "skip_ws s = CHR 0x22 # q" "unquote q = Some (key, r0)" "d1 = reader r0 tokenObjectColon (pst # stk)"
      using key_needed [OF _ st0(1)] by blast
    obtain r2 where r2: "skip_ws r0 = CHR '':'' # r2" using colon_needed t q(3) by blast
    have ov: "tokenValueAllowed tokenObjectValue" "tokenValueEnd tokenObjectValue = tokenObjectComma"
      by (simp_all add: tokenValueAllowed_def tokenValueEnd_def)
    obtain j r1 where j: "parse_value n (nat depth) r2 = Some (j, r1)" "item = any_of j"
      "s2 = dstate (reader r1 tokenObjectComma (pst # stk)) lims (k + int (json_nodes j))"
      "strict_json j" "depth_fits lims depth j" "k + int (json_nodes j) \<le> dl_MaxNodes lims"
      using assms(1) [unfolded value_sound_def, rule_format, OF item, of r2 tokenObjectValue "pst # stk"] t ov depth
        next_separator(3) [OF r2, of "pst # stk"] q(3) by auto
    have dist': "distinct (map fst (mem @ [(key, item)]))" using dist key(2) by (simp add: has_key_iff)
    have or: "(\<exists>r. skip_ws r1 = CHR ''}'' # r \<and> v = AMap (mem @ [(key, item)]) \<and>
          s1 = dstate (reader r (tokenValueEnd pst) stk) lims (k + int (json_nodes j))) \<or>
        (\<exists>s ms r. item_pos tokenObjectStart tokenObjectComma r1 tokenObjectComma s \<and> decoder_More (reader r1 tokenObjectComma (pst # stk)) \<and>
          parse_members n (nat depth) s = Some (ms, r) \<and> v = AMap ((mem @ [(key, item)]) @ map (\<lambda>(k, v). (k, any_of v)) ms) \<and>
          s1 = dstate (reader r (tokenValueEnd pst) stk) lims
            (k + int (json_nodes j) + int (sum_list (map (\<lambda>(k, v). json_nodes v) ms))) \<and>
          list_all (\<lambda>(k, v). strict_json v) ms \<and> distinct (map fst (mem @ [(key, item)]) @ map fst ms) \<and>
          (\<forall>(k, v) \<in> set ms. depth_fits lims depth v) \<and>
          k + int (json_nodes j) + int (sum_list (map (\<lambda>(k, v). json_nodes v) ms)) \<le> dl_MaxNodes lims)"
      by (rule assms(2) [unfolded object_sound_def, rule_format, OF rest [unfolded j(3)] _ _ _ dist']) (use depth j(6) in simp_all)
    then show ?thesis
    proof (elim disjE exE conjE)
      fix r assume "skip_ws r1 = CHR ''}'' # r" "v = AMap (mem @ [(key, item)])"
        "s1 = dstate (reader r (tokenValueEnd pst) stk) lims (k + int (json_nodes j))"
      then show ?thesis using pos True j q r2 dist'
        by (intro disjI2 exI [of _ s] exI [of _ "[(key, j)]"] exI [of _ r]) simp
    next
      fix s3 ms r assume e: "item_pos tokenObjectStart tokenObjectComma r1 tokenObjectComma s3"
        "parse_members n (nat depth) s3 = Some (ms, r)" "v = AMap ((mem @ [(key, item)]) @ map (\<lambda>(k, v). (k, any_of v)) ms)"
        "s1 = dstate (reader r (tokenValueEnd pst) stk) lims
            (k + int (json_nodes j) + int (sum_list (map (\<lambda>(k, v). json_nodes v) ms)))"
        "list_all (\<lambda>(k, v). strict_json v) ms" "distinct (map fst (mem @ [(key, item)]) @ map fst ms)"
        "\<forall>(k, v) \<in> set ms. depth_fits lims depth v"
        "k + int (json_nodes j) + int (sum_list (map (\<lambda>(k, v). json_nodes v) ms)) \<le> dl_MaxNodes lims"
      then have "skip_ws r1 = CHR '','' # s3" by (simp add: item_pos_def)
      with e pos True j q r2 show ?thesis
        by (intro disjI2 exI [of _ s] exI [of _ "(key, j) # ms"] exI [of _ r]) (simp add: algebra_simps)
    qed
  qed
qed

lemma value_sound_step:
  assumes "array_sound lims n" "object_sound lims n" "dl_MaxDepth lims \<le> 10000"
  shows "value_sound lims (Suc n)"
  unfolding value_sound_def
proof (intro allI impI)
  fix t depth dd k v s1 s st stk
  assume run: "decodeToken (Suc n) t depth (dstate dd lims k) = Inr (v, s1)" and tok: "next_token (reader s st stk) = Some (t, dd)"
    and st: "tokenValueAllowed st" and depth: "0 \<le> depth"
  let ?goal = "\<exists>j r. parse_value (Suc n) (nat depth) s = Some (j, r) \<and> v = any_of j \<and>
      s1 = dstate (reader r (tokenValueEnd st) stk) lims (k + int (json_nodes j)) \<and>
      strict_json j \<and> depth_fits lims depth j \<and> k + int (json_nodes j) \<le> dl_MaxNodes lims"
  have k: "k + 1 \<le> dl_MaxNodes lims" using run by (auto simp: Let_def split: if_splits)
  have deep: "depth + 1 \<le> dl_MaxDepth lims" "\<not> max_nesting \<le> nat depth" "nat (depth + 1) = Suc (nat depth)" if "t = TDelim x" for x
    using run that k depth assms(3) by (auto simp: Let_def max_nesting_def split: if_splits)
  show ?goal using tok st
  proof (cases rule: next_value_cases)
    case (arr r)
    have run': "decodeArray n (depth + 1) [] (dstate (reader r tokenArrayStart (st # stk)) lims (k + 1)) = Inr (v, s1)"
      using run arr k deep(1) by (auto simp: Let_def split: if_splits)
    from assms(1) [unfolded array_sound_def, rule_format, OF run'] depth k
    consider (empty) q where "skip_ws r = CHR '']'' # q" "v = ASlice []" "s1 = dstate (reader q (tokenValueEnd st) stk) lims (k + 1)"
      | (items) vs q where "decoder_More (reader r tokenArrayStart (st # stk))" "parse_elems n (Suc (nat depth)) r = Some (vs, q)"
        "v = ASlice (map any_of vs)" "s1 = dstate (reader q (tokenValueEnd st) stk) lims (k + 1 + int (sum_list (map json_nodes vs)))"
        "list_all strict_json vs" "\<forall>v \<in> set vs. depth_fits lims (depth + 1) v"
        "k + 1 + int (sum_list (map json_nodes vs)) \<le> dl_MaxNodes lims"
      using deep(3) [OF arr(2)] by (auto simp: item_pos_def)
    then show ?goal
    proof cases
      case empty
      then show ?goal using arr deep [OF arr(2)] k
        by (intro exI [of _ "JArr []"] exI [of _ q]) (simp add: depth_fits_JArr)
    next
      case items
      then obtain c q' where "skip_ws r = c # q'" "c \<noteq> CHR '']''" by (auto simp: decoder_More_def split: list.splits)
      with items arr deep [OF arr(2)] show ?goal
        by (intro exI [of _ "JArr vs"] exI [of _ q]) (simp add: depth_fits_JArr algebra_simps)
    qed
  next
    case (obj r)
    have run': "decodeObject n (depth + 1) [] (dstate (reader r tokenObjectStart (st # stk)) lims (k + 1)) = Inr (v, s1)"
      using run obj k deep(1) by (auto simp: Let_def split: if_splits)
    from assms(2) [unfolded object_sound_def, rule_format, OF run'] depth k
    consider (empty) q where "skip_ws r = CHR ''}'' # q" "v = AMap []" "s1 = dstate (reader q (tokenValueEnd st) stk) lims (k + 1)"
      | (items) ms q where "decoder_More (reader r tokenObjectStart (st # stk))" "parse_members n (Suc (nat depth)) r = Some (ms, q)"
        "v = AMap (map (\<lambda>(k, v). (k, any_of v)) ms)"
        "s1 = dstate (reader q (tokenValueEnd st) stk) lims (k + 1 + int (sum_list (map (\<lambda>(k, v). json_nodes v) ms)))"
        "list_all (\<lambda>(k, v). strict_json v) ms" "distinct (map fst ms)" "\<forall>(k, v) \<in> set ms. depth_fits lims (depth + 1) v"
        "k + 1 + int (sum_list (map (\<lambda>(k, v). json_nodes v) ms)) \<le> dl_MaxNodes lims"
      using deep(3) [OF obj(2)] by (auto simp: item_pos_def)
    then show ?goal
    proof cases
      case empty
      then show ?goal using obj deep [OF obj(2)] k
        by (intro exI [of _ "JObj []"] exI [of _ q]) (simp add: depth_fits_JObj)
    next
      case items
      then obtain c q' where "skip_ws r = c # q'" "c \<noteq> CHR ''}''" by (auto simp: decoder_More_def split: list.splits)
      with items obj deep [OF obj(2)] show ?goal
        by (intro exI [of _ "JObj ms"] exI [of _ q]) (simp add: depth_fits_JObj algebra_simps)
    qed
  next
    case close
    then show ?goal using run k by (auto simp: Let_def split: if_splits)
  next
    case (scalar c r w q)
    obtain j where j: "parse_value (Suc n) (nat depth) s = Some (j, q)" "w = any_of j"
      using scalar_parse [OF scalar(1-3), of n "nat depth"] scalar(4)
      by (cases "parse_value (Suc n) (nat depth) s") (auto simp del: parse_value.simps)
    note sh = scalar_shape [OF j(1) scalar(1-3)]
    have "scalar_token w (dstate dd lims (k + 1)) = Inr (v, s1)" using run scalar(5) k by (auto simp: Let_def split: if_splits)
    then have "v = w" "s1 = dstate dd lims (k + 1)" "strict_json j"
      using scalar_token_any [of j "dstate dd lims (k + 1)"] sh j(2) by auto
    with j sh k scalar(6) show ?goal by (intro exI [of _ j] exI [of _ q]) (simp add: depth_fits_def)
  qed
qed

lemma decode_sound:
  assumes "dl_MaxDepth lims \<le> 10000"
  shows "value_sound lims n \<and> array_sound lims n \<and> object_sound lims n"
proof (induction n)
  case 0
  then show ?case by (simp add: value_sound_def array_sound_def object_sound_def)
next
  case (Suc n)
  then show ?case using value_sound_step array_sound_step object_sound_step assms by blast
qed

subsection \<open>Properties\<close>

lemma top_eof: "read_token (reader s tokenTopValue stk) = TokenEOF \<longleftrightarrow> at_eof s"
  by (auto simp: at_eof_def read_token.simps open_token_def close_token_def tokenValueAllowed_def
      split: list.splits option.splits)

lemma top_depth: "0 < dl_MaxDepth lims \<Longrightarrow> depth_fits lims 0 j \<longleftrightarrow> int (json_depth j) \<le> dl_MaxDepth lims"
  by (auto simp: depth_fits_def)

lemma decode_top:
  assumes "dl_MaxDepth lims \<le> 10000"
  shows "(\<exists>t dd s1. next_token (reader raw tokenTopValue []) = Some (t, dd) \<and>
      decodeToken (length raw + 2) t 0 (dstate dd lims 0) = Inr (v, s1) \<and> read_token (ds_decoder s1) = TokenEOF) \<longleftrightarrow>
    (\<exists>j r. json_decode raw = Some (j, r) \<and> at_eof r \<and> v = any_of j \<and> strict_json j \<and> depth_fits lims 0 j \<and>
      int (json_nodes j) \<le> dl_MaxNodes lims)" (is "?L \<longleftrightarrow> ?R")
proof
  have top: "tokenValueAllowed tokenTopValue" "tokenValueEnd tokenTopValue = tokenTopValue"
    by (simp_all add: tokenValueAllowed_def tokenValueEnd_def)
  {
    assume ?L
    then obtain t dd s1 where t: "next_token (reader raw tokenTopValue []) = Some (t, dd)"
      and run: "decodeToken (length raw + 2) t 0 (dstate dd lims 0) = Inr (v, s1)" and eof: "read_token (ds_decoder s1) = TokenEOF"
      by blast
    have "value_sound lims (length raw + 2)" using decode_sound [OF assms] by blast
    from this [unfolded value_sound_def, rule_format, OF run t top(1)]
    obtain j r where j: "parse_value (length raw + 2) 0 raw = Some (j, r)" "v = any_of j"
      "s1 = dstate (reader r tokenTopValue []) lims (int (json_nodes j))" "strict_json j" "depth_fits lims 0 j"
      "int (json_nodes j) \<le> dl_MaxNodes lims" using top(2) by auto
    have "json_decode raw = Some (j, r)"
      using parse_enough(1) [OF j(1)] unfolding json_decode_def consumed_def by (metis diff_le_self le_SucI)
    with j eof show ?R by (auto simp: top_eof)
  next
    assume ?R
    then obtain j r where j: "json_decode raw = Some (j, r)" "at_eof r" "v = any_of j" "strict_json j" "depth_fits lims 0 j"
      "int (json_nodes j) \<le> dl_MaxNodes lims" by blast
    then have "parse_value (Suc (length raw)) 0 raw = Some (j, r)" by (simp add: json_decode_def)
    from parse_decode(1) [OF this top(1) j(4,5), of 0 "[]"] j top(2) show ?L by (auto simp: top_eof)
  }
qed

text \<open>
  C28.  For limits whose depth is at most 10000 - the default is 128 - the decoder returns a value
  exactly when the limits are positive, the input is UTF-8 within the byte limit, and the whole
  input is one JSON document of at most the allowed depth and number of nodes, without a repeated
  key in any object and with every number within the exponent limit; the value is then that
  document, numbers kept digit by digit.
\<close>

theorem Decode_exact:
  assumes "dl_MaxDepth limits \<le> 10000"
  shows "Decode raw limits = Inr v \<longleftrightarrow>
    0 < dl_MaxBytes limits \<and> 0 < dl_MaxDepth limits \<and> 0 < dl_MaxNodes limits \<and>
    int (length raw) \<le> dl_MaxBytes limits \<and> valid_utf8 raw \<and>
    (\<exists>j r. json_decode raw = Some (j, r) \<and> at_eof r \<and> v = any_of j \<and> strict_json j \<and>
      int (json_depth j) \<le> dl_MaxDepth limits \<and> int (json_nodes j) \<le> dl_MaxNodes limits)"
proof (cases "0 < dl_MaxBytes limits \<and> 0 < dl_MaxDepth limits \<and> 0 < dl_MaxNodes limits \<and>
    int (length raw) \<le> dl_MaxBytes limits \<and> valid_utf8 raw")
  case True
  then have "Decode raw limits = Inr v \<longleftrightarrow>
      (\<exists>t dd s1. next_token (reader raw tokenTopValue []) = Some (t, dd) \<and>
        decodeToken (length raw + 2) t 0 (dstate dd limits 0) = Inr (v, s1) \<and> read_token (ds_decoder s1) = TokenEOF)"
    by (auto simp: Decode_def split: option.splits sum.splits if_splits)
  with decode_top [OF assms, of raw v] top_depth [of limits] True show ?thesis by simp
qed (auto simp: Decode_def)

theorem Decode_exact_witness:
  "Decode ''[true, 1e3]'' DefaultInstanceDecodeLimits = Inr (ASlice [ABool True, ANumber ''1e3'']) \<and>
   (\<exists>j r. json_decode ''[true, 1e3]'' = Some (j, r) \<and> at_eof r \<and> strict_json j)"
proof -
  have lim: "dl_MaxDepth DefaultInstanceDecodeLimits \<le> 10000" by code_simp
  have "Decode ''[true, 1e3]'' DefaultInstanceDecodeLimits = Inr (ASlice [ABool True, ANumber ''1e3''])" by code_simp
  with Decode_exact [OF lim] show ?thesis by blast
qed

end
