(* ===== verification/Spec2Isabelle.thy ===== *)
theory Spec2Isabelle
  imports Integrity Trust_Stores Json_Decode
begin

text \<open>Development under construction.\<close>

end
